(* ===== verification/Prelude.thy ===== *)
theory Prelude
  imports Main "HOL-Library.Word" "HOL-Library.List_Lexorder" "HOL-Library.Sublist"
begin

text \<open>
  What every component of the development shares: the C integer types, C characters with the
  signed order the comparisons of the program use, C strings, the type of a C call that may
  abort, run into undefined behaviour or never return, and the generic lemmas about them.
\<close>

section \<open>Machine integers\<close>

type_synonym u32 = "32 word"
type_synonym u64 = "64 word"
type_synonym byte = "8 word"

section \<open>Calls that may not return a value\<close>

text \<open>
  A call of a C function ends in one of four ways: it returns a value, the process stops in it
  (\<open>exit(n)\<close> or a failed \<open>assert\<close>), it reaches behaviour the C standard leaves
  undefined (an access outside an array, a read past the end of a string), or it never ends.
  A value of type \<open>'a run\<close> is \<open>None\<close> for a call that never ends, \<open>Some (Inl e)\<close>
  for one that stops, and \<open>Some (Inr x)\<close> for one that returns \<open>x\<close>. A theorem that
  says \<open>f x = ret y\<close> therefore says as well that the call ends, stops at no assertion and
  stays inside its arrays.
\<close>

datatype abort = Exit int | Assert_failed | Undefined

type_synonym 'a run = "(abort + 'a) option"

abbreviation ret :: "'a \<Rightarrow> 'a run" where
  "ret x \<equiv> Some (Inr x)"

abbreviation abort_with :: "abort \<Rightarrow> 'a run" where
  "abort_with e \<equiv> Some (Inl e)"

definition run_bind :: "'a run \<Rightarrow> ('a \<Rightarrow> 'b run) \<Rightarrow> 'b run" where
  "run_bind m f =
     Option.bind m (\<lambda>r. case r of Inl e \<Rightarrow> Some (Inl e) | Inr x \<Rightarrow> f x)"

lemma run_bind_simps [simp]:
  "run_bind (ret x) f = f x"
  "run_bind (abort_with e) f = abort_with e"
  "run_bind None f = None"
  by (simp_all add: run_bind_def)

lemma run_bind_eq_ret:
  "run_bind m f = ret y \<longleftrightarrow> (\<exists>x. m = ret x \<and> f x = ret y)"
  by (auto simp: run_bind_def split: Option.bind_splits sum.splits)

lemma run_bind_assoc:
  "run_bind (run_bind m f) g = run_bind m (\<lambda>x. run_bind (f x) g)"
  by (simp add: run_bind_def split: Option.bind_split sum.split)

lemma run_bind_mono [partial_function_mono]:
  assumes "mono_option B" and "\<And>y. mono_option (\<lambda>f. C y f)"
  shows "mono_option (\<lambda>f. run_bind (B f) (\<lambda>y. C y f))"
  unfolding run_bind_def
proof (intro bind_mono assms(1))
  fix r :: "abort + 'c"
  show "mono_option (\<lambda>f. case r of Inl e \<Rightarrow> Some (Inl e) | Inr x \<Rightarrow> C x f)"
    by (cases r) (simp_all add: assms(2) option.const_mono)
qed

section \<open>C characters and C strings\<close>

text \<open>
  \<open>char\<close> is a signed byte on the platform the Makefile builds for (gcc on x86-64), and the
  tree compares characters as such. The wrapper type carries that order, so a comparison in the
  model reads as it does in the code; the library's lexicographic order on lists then gives the
  order of the keys.
\<close>

datatype cchar = CC (cc_byte: byte)

instantiation cchar :: zero
begin

definition zero_cchar_def: "0 = CC 0"

instance ..

end

instantiation cchar :: linorder
begin

definition less_eq_cchar_def: "x \<le> y \<longleftrightarrow> sint (cc_byte x) \<le> sint (cc_byte y)"

definition less_cchar_def: "x < y \<longleftrightarrow> sint (cc_byte x) < sint (cc_byte y)"

instance
proof
  fix x y z :: cchar
  show "x < y \<longleftrightarrow> x \<le> y \<and> \<not> y \<le> x"
    by (auto simp: less_cchar_def less_eq_cchar_def)
  show "x \<le> x"
    by (simp add: less_eq_cchar_def)
  show "x \<le> y \<Longrightarrow> y \<le> z \<Longrightarrow> x \<le> z"
    by (simp add: less_eq_cchar_def)
  show "x \<le> y \<Longrightarrow> y \<le> x \<Longrightarrow> x = y"
    by (auto simp: less_eq_cchar_def intro!: cchar.expand
        dest: order.antisym simp flip: word_eq_iff_signed [where 'a = int])
  show "x \<le> y \<or> y \<le> x"
    by (auto simp: less_eq_cchar_def)
qed

end

lemma less_CC [simp]: "CC a < CC b \<longleftrightarrow> sint a < sint b"
  by (simp add: less_cchar_def)

lemma CC_eq_0 [simp]: "CC a = 0 \<longleftrightarrow> a = 0" "0 = CC a \<longleftrightarrow> a = 0"
  by (auto simp: zero_cchar_def)

lemma CC_pos [simp]: "0 < CC a \<longleftrightarrow> 0 < sint a" "CC a < 0 \<longleftrightarrow> sint a < 0"
  by (auto simp: zero_cchar_def)

text \<open>
  A C string is the list of its characters before the terminating NUL; \<open>char_at\<close> reads it
  with the terminator. The programs never read a string beyond its terminator, except where a
  model says so.
\<close>

type_synonym cstr = "cchar list"

definition char_at :: "cstr \<Rightarrow> nat \<Rightarrow> cchar" where
  "char_at s d = (if d < length s then s ! d else 0)"

lemma char_at_drop: "drop d s = k # ks \<Longrightarrow> char_at s d = k"
  by (metis char_at_def drop_eq_Nil2 hd_drop_conv_nth leI list.sel(1) list.simps(3))

lemma char_at_Cons [simp]: "char_at (k # ks) 0 = k"
  by (simp add: char_at_def)

lemma char_at_Nil [simp]: "char_at [] d = 0"
  by (simp add: char_at_def)

text \<open>The characters of an Isabelle string literal, for the fixed texts of the protocol.\<close>

definition cs :: "string \<Rightarrow> cstr" where
  "cs s = map (\<lambda>c. CC (of_char c)) s"

text \<open>\<open>"\r\n"\<close>\<close>

definition crlf :: cstr where
  "crlf = [CC 13, CC 10]"

section \<open>Character buffers\<close>

text \<open>
  A local array of characters is a list of fixed length. A write outside it is undefined
  behaviour; \<open>cstr_of\<close> reads the C string it starts with, which is undefined when no NUL
  terminates it inside the array.
\<close>

definition buf_set :: "cchar list \<Rightarrow> nat \<Rightarrow> cchar \<Rightarrow> cchar list run" where
  "buf_set b i x = (if i < length b then ret (b[i := x]) else abort_with Undefined)"

definition cstr_of :: "cchar list \<Rightarrow> cstr run" where
  "cstr_of b = (if 0 \<in> set b then ret (takeWhile (\<lambda>x. x \<noteq> 0) b) else abort_with Undefined)"

lemma buf_set_in [simp]: "i < length b \<Longrightarrow> buf_set b i x = ret (b[i := x])"
  by (simp add: buf_set_def)

lemma cstr_of_terminated:
  assumes "d < length b" and "b ! d = 0" and "\<And>i. i < d \<Longrightarrow> b ! i \<noteq> 0"
  shows "cstr_of b = ret (take d b)"
proof -
  have "takeWhile (\<lambda>x. x \<noteq> 0) b = take d b"
    by (rule takeWhile_eq_take_P_nth) (use assms in auto)
  moreover have "0 \<in> set b"
    using assms(1,2) by (metis nth_mem)
  ultimately show ?thesis
    by (simp add: cstr_of_def)
qed

section \<open>Lists\<close>

lemma drop_ConsD:
  assumes "drop d s = k # ks"
  shows "drop (Suc d) s = ks" and "d < length s - 1 \<longleftrightarrow> ks \<noteq> []"
proof -
  show "drop (Suc d) s = ks"
    using assms by (metis drop_Suc list.sel(3) tl_drop)
  then show "d < length s - 1 \<longleftrightarrow> ks \<noteq> []"
    using assms by (auto simp flip: \<open>drop (Suc d) s = ks\<close>)
qed

lemma take_Suc_eqD: "take (Suc d) xs = take (Suc d) ys \<Longrightarrow> take d xs = take d ys"
proof -
  assume "take (Suc d) xs = take (Suc d) ys"
  then have "take d (take (Suc d) xs) = take d (take (Suc d) ys)"
    by simp
  then show ?thesis by (simp add: min_def)
qed

lemma take_list_update_last: "d < length b \<Longrightarrow> take (Suc d) (b[d := x]) = take d b @ [x]"
  by (simp add: take_Suc_conv_app_nth)

end
