(* ===== verification/Tst_Tree.thy ===== *)
theory Tst_Tree
  imports Prelude
begin

text \<open>
  The abstract specification of the index: a ternary search tree as a value. The parameter
  \<open>'a\<close> holds what a node is labelled with: the index of its slot in the node array where the
  tree describes a memory layout, nothing where only the shape matters. The theory defines what
  the operations of the index promise on such trees (\<open>tlookup\<close>, \<open>ins\<close>, \<open>del\<close>,
  \<open>keys\<close>) and proves that they behave as a map from keys to 64-bit values, with 0 for a key
  that is absent, whose keys come out in order.
\<close>

section \<open>Trees, their order and their content\<close>

datatype (addrs: 'a) tst = Lf | Br 'a cchar u64 "'a tst" "'a tst" "'a tst"

text \<open>\<open>heads\<close>: the characters at the same position of the key as the root.\<close>

fun heads :: "'a tst \<Rightarrow> cchar set" where
  "heads Lf = {}"
| "heads (Br a c v l m r) = {c} \<union> heads l \<union> heads r"

fun bst :: "'a tst \<Rightarrow> bool" where
  "bst Lf = True"
| "bst (Br a c v l m r) =
     ((\<forall>x \<in> heads l. x < c) \<and> (\<forall>x \<in> heads r. c < x) \<and> bst l \<and> bst m \<and> bst r)"

text \<open>\<open>all_chars P\<close>: every node's character satisfies \<open>P\<close>.\<close>

fun all_chars :: "(cchar \<Rightarrow> bool) \<Rightarrow> 'a tst \<Rightarrow> bool" where
  "all_chars P Lf = True"
| "all_chars P (Br a c v l m r) = (P c \<and> all_chars P l \<and> all_chars P m \<and> all_chars P r)"

text \<open>\<open>depth\<close>: the length of the longest path of characters, an upper bound on key lengths.\<close>

fun depth :: "'a tst \<Rightarrow> nat" where
  "depth Lf = 0"
| "depth (Br a c v l m r) = max (depth l) (max (Suc (depth m)) (depth r))"

fun tlookup :: "'a tst \<Rightarrow> cstr \<Rightarrow> u64" where
  "tlookup t [] = 0"
| "tlookup Lf (k # ks) = 0"
| "tlookup (Br a c v l m r) (k # ks) =
     (if k < c then tlookup l (k # ks)
      else if c < k then tlookup r (k # ks)
      else if ks = [] then v else tlookup m ks)"

fun keys :: "'a tst \<Rightarrow> cstr list" where
  "keys Lf = []"
| "keys (Br a c v l m r) =
     keys l @ (if v \<noteq> 0 then [[c]] else []) @ map (Cons c) (keys m) @ keys r"

text \<open>\<open>sub t ks\<close>: the subtree whose root is the last node on the path of \<open>ks\<close>, or \<open>Lf\<close>.\<close>

fun sub :: "'a tst \<Rightarrow> cstr \<Rightarrow> 'a tst" where
  "sub t [] = Lf"
| "sub Lf (k # ks) = Lf"
| "sub (Br a c v l m r) (k # ks) =
     (if k < c then sub l (k # ks)
      else if c < k then sub r (k # ks)
      else if ks = [] then Br a c v l m r else sub m ks)"

fun node_value :: "'a tst \<Rightarrow> u64" where
  "node_value Lf = 0"
| "node_value (Br a c v l m r) = v"

lemma tlookup_sub: "tlookup t ks = node_value (sub t ks)"
  by (induction t ks rule: sub.induct) auto

lemma addrs_sub: "addrs (sub t ks) \<subseteq> addrs t"
  by (induction t ks rule: sub.induct) auto

fun mid_of :: "'a tst \<Rightarrow> 'a tst" where
  "mid_of Lf = Lf"
| "mid_of (Br a c v l m r) = m"

lemma all_chars_sub: "all_chars P t \<Longrightarrow> all_chars P (sub t ks)"
  by (induction t ks rule: sub.induct) auto

lemma depth_sub: "sub t ks \<noteq> Lf \<Longrightarrow> length ks + depth (mid_of (sub t ks)) \<le> depth t"
  by (induction t ks rule: sub.induct) (auto split: if_splits)

definition shape :: "'a tst \<Rightarrow> unit tst" where
  "shape t = map_tst (\<lambda>_. ()) t"

lemma shape_simps [simp]:
  "shape Lf = Lf"
  "shape (Br a c v l m r) = Br () c v (shape l) (shape m) (shape r)"
  by (simp_all add: shape_def)

lemma shape_eq_Lf [simp]: "shape t = Lf \<longleftrightarrow> t = Lf" "Lf = shape t \<longleftrightarrow> t = Lf"
  by (cases t; simp)+

lemma heads_shape [simp]: "heads (shape t) = heads t"
  by (induction t) auto

lemma bst_shape [simp]: "bst (shape t) = bst t"
  by (induction t) auto

lemma all_chars_shape [simp]: "all_chars P (shape t) = all_chars P t"
  by (induction t) auto

lemma depth_shape [simp]: "depth (shape t) = depth t"
  by (induction t) auto

lemma keys_shape [simp]: "keys (shape t) = keys t"
  by (induction t) auto

lemma tlookup_shape [simp]: "tlookup (shape t) ks = tlookup t ks"
  by (induction t ks rule: tlookup.induct) auto

lemma tlookup_Lf [simp]: "tlookup Lf ks = 0"
  by (cases ks) auto

lemma all_chars_heads: "all_chars P t \<Longrightarrow> x \<in> heads t \<Longrightarrow> P x"
  by (induction t) auto

lemma tlookup_notin_heads: "k \<notin> heads t \<Longrightarrow> tlookup t (k # ks) = 0"
  by (induction t) auto

lemma keys_nonempty [simp]: "[] \<notin> set (keys t)"
  by (induction t) auto

lemma hd_keys: "k # ks \<in> set (keys t) \<Longrightarrow> k \<in> heads t"
  by (induction t) auto

lemma length_keys_le_depth: "ks \<in> set (keys t) \<Longrightarrow> length ks \<le> depth t"
  by (induction t arbitrary: ks) (fastforce split: if_splits)+

lemma all_chars_keys: "all_chars P t \<Longrightarrow> ks \<in> set (keys t) \<Longrightarrow> list_all P ks"
  by (induction t arbitrary: ks) (auto split: if_splits)

lemma in_keys_Br:
  "ks \<in> set (keys (Br a c v l m r)) \<longleftrightarrow>
     ks \<in> set (keys l) \<or> v \<noteq> 0 \<and> ks = [c] \<or> (\<exists>ks'. ks = c # ks' \<and> ks' \<in> set (keys m))
     \<or> ks \<in> set (keys r)"
  by auto

text \<open>The keys listed are exactly those with a value.\<close>

lemma set_keys: "bst t \<Longrightarrow> ks \<in> set (keys t) \<longleftrightarrow> tlookup t ks \<noteq> 0"
proof (induction t ks rule: tlookup.induct)
  case (3 a c v l m r k ks)
  have l: "k # ks \<in> set (keys l) \<Longrightarrow> k < c" and r: "k # ks \<in> set (keys r) \<Longrightarrow> c < k"
    using "3.prems" by (auto dest: hd_keys)
  consider "k < c" | "c < k" | "k = c" by fastforce
  then show ?case
  proof cases
    case 3
    with "3.IH"(3) "3.prems" l r show ?thesis
      by (cases "ks = []") auto
  qed (use "3.IH" "3.prems" l r in \<open>auto simp: in_keys_Br\<close>)
qed auto

text \<open>They come out in strictly increasing lexicographic order.\<close>

lemma sorted_keys: "bst t \<Longrightarrow> sorted_wrt (<) (keys t)"
proof (induction t)
  case (Br a c v l m r)
  have l: "\<And>x. x \<in> set (keys l) \<Longrightarrow> hd x < c \<and> x \<noteq> []"
    and r: "\<And>x. x \<in> set (keys r) \<Longrightarrow> c < hd x \<and> x \<noteq> []"
    using Br.prems by (auto dest!: hd_keys simp: neq_Nil_conv dest: hd_keys)
      (metis hd_keys keys_nonempty list.collapse)+
  have lt: "x < y" if "x \<noteq> []" "y \<noteq> []" "hd x < hd y" for x y :: cstr
    using that by (cases x; cases y) auto
  have m: "sorted_wrt (<) (map (Cons c) (keys m))"
    using Br by (simp add: sorted_wrt_map)
  have cm: "\<forall>y \<in> set (map (Cons c) (keys m)). [c] < y"
    by (auto simp: neq_Nil_conv) (metis Nil_less_Cons keys_nonempty list.exhaust)
  have lc: "\<forall>x \<in> set (keys l). \<forall>y \<in> set (map (Cons c) (keys m)) \<union> {[c]}. x < y"
    using l by (auto intro!: lt)
  have cr: "\<forall>x \<in> set (map (Cons c) (keys m)) \<union> {[c]}. \<forall>y \<in> set (keys r). x < y"
    using r by (auto intro!: lt)
  have lr: "\<forall>x \<in> set (keys l). \<forall>y \<in> set (keys r). x < y"
    using l r by (meson lt order.strict_trans)
  show ?case
    using Br m cm lc cr lr by (auto simp: sorted_wrt_append)
qed simp

lemma distinct_keys: "bst t \<Longrightarrow> distinct (keys t)"
  using sorted_keys strict_sorted_iff by blast

section \<open>Insertion\<close>

fun ins :: "unit tst \<Rightarrow> cstr \<Rightarrow> u64 \<Rightarrow> unit tst" where
  "ins t [] v = t"
| "ins Lf (k # ks) v =
     (if ks = [] then Br () k v Lf Lf Lf else Br () k 0 Lf (ins Lf ks v) Lf)"
| "ins (Br a c x l m r) (k # ks) v =
     (if k < c then Br a c x (ins l (k # ks) v) m r
      else if c < k then Br a c x l m (ins r (k # ks) v)
      else if ks = [] then Br a c v l m r
      else Br a c x l (ins m ks v) r)"

lemma ins_not_Lf [simp]: "ks \<noteq> [] \<Longrightarrow> ins t ks v \<noteq> Lf"
  by (induction t ks v rule: ins.induct) auto

lemma heads_ins [simp]: "heads (ins t (k # ks) v) = insert k (heads t)"
  by (induction t "k # ks" v rule: ins.induct) auto

lemma bst_ins: "bst t \<Longrightarrow> bst (ins t ks v)"
  by (induction t ks v rule: ins.induct) auto

lemma all_chars_ins: "all_chars P t \<Longrightarrow> list_all P ks \<Longrightarrow> all_chars P (ins t ks v)"
  by (induction t ks v rule: ins.induct) auto

lemma depth_ins: "depth (ins t ks v) = max (depth t) (length ks)"
  by (induction t ks v rule: ins.induct) auto

lemma tlookup_ins:
  "ks \<noteq> [] \<Longrightarrow> tlookup (ins t ks v) = (tlookup t)(ks := v)"
proof
  fix ks'
  assume "ks \<noteq> []"
  then show "tlookup (ins t ks v) ks' = ((tlookup t)(ks := v)) ks'"
  proof (induction t ks v arbitrary: ks' rule: ins.induct)
    case (2 k ks v)
    then show ?case by (cases ks'; cases "ks = []") auto
  next
    case (3 a c x l m r k ks v)
    then show ?case by (cases ks'; cases "ks = []") auto
  qed simp
qed

section \<open>Deletion\<close>

text \<open>
  \<open>hang l r\<close> puts \<open>r\<close> under the rightmost node of \<open>l\<close>; \<open>prune\<close> takes a root that
  carries neither a value nor longer keys out of the tree. \<open>del\<close> clears the value of a key
  and prunes every node on its path, from the bottom up.
\<close>

fun hang :: "'a tst \<Rightarrow> 'a tst \<Rightarrow> 'a tst" where
  "hang Lf t = t"
| "hang (Br a c v l m r) t = Br a c v l m (hang r t)"

fun prune :: "'a tst \<Rightarrow> 'a tst" where
  "prune Lf = Lf"
| "prune (Br a c v l m r) = (if m = Lf \<and> v = 0 then hang l r else Br a c v l m r)"

fun found :: "'a tst \<Rightarrow> cstr \<Rightarrow> bool" where
  "found t [] = False"
| "found Lf (k # ks) = False"
| "found (Br a c v l m r) (k # ks) =
     (if k < c then found l (k # ks)
      else if c < k then found r (k # ks)
      else if ks = [] then True else found m ks)"

fun del :: "'a tst \<Rightarrow> cstr \<Rightarrow> 'a tst" where
  "del t [] = t"
| "del Lf (k # ks) = Lf"
| "del (Br a c v l m r) (k # ks) =
     prune
       (if k < c then Br a c v (del l (k # ks)) m r
        else if c < k then Br a c v l m (del r (k # ks))
        else if ks = [] then Br a c 0 l m r
        else Br a c v l (del m ks) r)"

lemma found_sub: "found t ks \<longleftrightarrow> sub t ks \<noteq> Lf"
  by (induction t ks rule: sub.induct) auto

definition delete_key :: "'a tst \<Rightarrow> cstr \<Rightarrow> 'a tst" where
  "delete_key t ks = (if found t ks then del t ks else t)"

lemma hang_Lf [simp]: "hang t Lf = t"
  by (induction t) auto

lemma heads_hang [simp]: "heads (hang l r) = heads l \<union> heads r"
  by (induction l) auto

lemma heads_prune: "heads (prune t) \<subseteq> heads t"
  by (cases t) auto

lemma heads_del: "heads (del t ks) \<subseteq> heads t"
proof (induction t ks rule: del.induct)
  case (3 a c v l m r k ks)
  then show ?case
    by (auto split: if_splits)
qed auto

lemma bst_hang:
  "bst l \<Longrightarrow> bst r \<Longrightarrow> \<forall>x \<in> heads l. \<forall>y \<in> heads r. x < y \<Longrightarrow> bst (hang l r)"
  by (induction l) auto

lemma bst_prune: "bst t \<Longrightarrow> bst (prune t)"
proof (cases t)
  case (Br a c v l m r)
  assume "bst t"
  with Br have "\<forall>x \<in> heads l. \<forall>y \<in> heads r. x < y"
    by (auto intro: order.strict_trans)
  with Br \<open>bst t\<close> show ?thesis
    by (auto intro: bst_hang)
qed simp

lemma bst_del: "bst t \<Longrightarrow> bst (del t ks)"
proof (induction t ks rule: del.induct)
  case (3 a c v l m r k ks)
  then show ?case
    by (auto simp del: prune.simps intro!: bst_prune) (meson heads_del in_mono)+
qed auto

lemma all_chars_hang [simp]: "all_chars P (hang l r) \<longleftrightarrow> all_chars P l \<and> all_chars P r"
  by (induction l) auto

lemma all_chars_prune: "all_chars P t \<Longrightarrow> all_chars P (prune t)"
  by (cases t) auto

lemma all_chars_del: "all_chars P t \<Longrightarrow> all_chars P (del t ks)"
  by (induction t ks rule: del.induct) auto

lemma depth_hang [simp]: "depth (hang l r) = max (depth l) (depth r)"
  by (induction l) auto

lemma depth_del: "depth (del t ks) \<le> depth t"
  by (induction t ks rule: del.induct) auto

lemma tlookup_hang:
  "\<forall>x \<in> heads l. \<forall>y \<in> heads r. x < y \<Longrightarrow> bst l \<Longrightarrow>
   tlookup (hang l r) (k # ks) = (if k \<in> heads l then tlookup l (k # ks) else tlookup r (k # ks))"
proof (induction l)
  case (Br a c v l m x)
  have "k \<notin> heads l \<Longrightarrow> k < c \<Longrightarrow> k \<notin> heads r" using Br.prems by auto
  with Br show ?case
    by (auto simp: tlookup_notin_heads)
qed simp

lemma tlookup_prune: "bst t \<Longrightarrow> tlookup (prune t) ks = tlookup t ks"
proof (cases t)
  case (Br a c v l m r)
  assume "bst t"
  then have lr: "\<forall>x \<in> heads l. \<forall>y \<in> heads r. x < y"
    using Br by (auto intro: order.strict_trans)
  show ?thesis
  proof (cases ks)
    case (Cons k ks')
    have "k < c \<Longrightarrow> k \<notin> heads r" and "c \<le> k \<Longrightarrow> k \<notin> heads l"
      using Br \<open>bst t\<close> by auto
    then show ?thesis
      using Br Cons \<open>bst t\<close> lr by (auto simp: tlookup_hang tlookup_notin_heads)
  qed simp
qed simp

lemma tlookup_not_found: "\<not> found t ks \<Longrightarrow> tlookup t ks = 0"
  by (induction t ks rule: found.induct) (auto split: if_splits)

lemma tlookup_del:
  "bst t \<Longrightarrow> ks \<noteq> [] \<Longrightarrow> tlookup (del t ks) = (tlookup t)(ks := 0)"
proof
  fix ks'
  assume "bst t" and "ks \<noteq> []"
  then show "tlookup (del t ks) ks' = ((tlookup t)(ks := 0)) ks'"
  proof (induction t ks arbitrary: ks' rule: del.induct)
    case (3 a c v l m r k ks)
    have b: "bst (if k < c then Br a c v (del l (k # ks)) m r
        else if c < k then Br a c v l m (del r (k # ks))
        else if ks = [] then Br a c 0 l m r
        else Br a c v l (del m ks) r)"
      using "3.prems" heads_del [of l "k # ks"] heads_del [of r "k # ks"]
      by (auto simp: bst_del)
    show ?case
      unfolding del.simps tlookup_prune [OF b]
      using "3" by (cases ks'; cases "ks = []") auto
  qed auto
qed

lemma tlookup_delete_key:
  "bst t \<Longrightarrow> tlookup (delete_key t ks) = (tlookup t)(ks := 0)"
proof (cases "found t ks")
  case True
  assume "bst t"
  from True have "ks \<noteq> []" by auto
  with True \<open>bst t\<close> show ?thesis by (simp add: delete_key_def tlookup_del)
next
  case False
  then show ?thesis by (auto simp: delete_key_def tlookup_not_found)
qed

lemma bst_delete_key: "bst t \<Longrightarrow> bst (delete_key t ks)"
  by (simp add: delete_key_def bst_del)

lemma all_chars_delete_key: "all_chars P t \<Longrightarrow> all_chars P (delete_key t ks)"
  by (simp add: delete_key_def all_chars_del)

lemma depth_delete_key: "depth (delete_key t ks) \<le> depth t"
  by (simp add: delete_key_def depth_del)

end
