(* ===== verification/Tst_Heap.thy ===== *)
theory Tst_Heap
  imports Tst_Tree
begin

text \<open>
  The node array of \<open>v2/src/tst.c\<close> and its allocator: \<open>tst_node\<close> and \<open>tst_db\<close>
  (\<open>tst.h\<close>), \<open>new_tst_db\<close>, \<open>ensure_enough_space\<close>, \<open>new_node\<close> and
  \<open>free_node\<close>. Slots of the array are named by 32-bit indices, 0 being the null link. The
  second half relates the array to the trees of Tst_Tree (\<open>repr\<close>), to the list of reusable
  nodes (\<open>flist\<close>), and states the ownership invariant of the allocator (\<open>heap_inv\<close>):
  every slot from 1 to \<open>size\<close> is either in use or on the free list, never both.
\<close>

section \<open>Data model\<close>

record tst_node =
  nd_c :: cchar
  nd_left :: u32
  nd_mid :: u32
  nd_right :: u32
  nd_parent :: u32
  nd_value :: u64

text \<open>
  \<open>db_data\<close> is the memory block behind \<open>data\<close>: the first \<open>db_cap\<close> slots are the
  allocated array, the contents of the slots beyond are whatever a later \<open>realloc\<close> finds
  there. Every access is checked against \<open>db_cap\<close>.
\<close>

record tst_db =
  db_root :: u32
  db_size :: u32
  db_cap :: u32
  db_f_head :: u32
  db_data :: "u32 \<Rightarrow> tst_node"

text \<open>The result of \<open>memset(&data[i], 0, sizeof(tst_node))\<close>.\<close>

definition zero_node :: tst_node where
  "zero_node = \<lparr>nd_c = 0, nd_left = 0, nd_mid = 0, nd_right = 0, nd_parent = 0, nd_value = 0\<rparr>"

text \<open>
  \<open>memset(&data[0], 0, sizeof(db->data))\<close> clears as many bytes as a pointer has, 8 on the
  platform of the Makefile. In the packed \<open>tst_node\<close> these are \<open>c\<close> (1 byte), \<open>left\<close>
  (4 bytes) and the three low bytes of \<open>mid\<close>.
\<close>

definition clear_pointer_bytes :: "tst_node \<Rightarrow> tst_node" where
  "clear_pointer_bytes n =
     n\<lparr>nd_c := 0, nd_left := 0, nd_mid := push_bit 24 (drop_bit 24 (nd_mid n))\<rparr>"

text \<open>\<open>mem\<close> is the content of the block \<open>malloc\<close> returns.\<close>

definition new_tst_db :: "(u32 \<Rightarrow> tst_node) \<Rightarrow> u32 \<Rightarrow> tst_db" where
  "new_tst_db mem cap =
     \<lparr>db_root = 0, db_size = 0, db_cap = cap, db_f_head = 0,
      db_data = mem(0 := clear_pointer_bytes (mem 0))\<rparr>"

definition create_tst_db :: "(u32 \<Rightarrow> tst_node) \<Rightarrow> tst_db" where
  "create_tst_db mem = new_tst_db mem 409600"

definition get_node :: "tst_db \<Rightarrow> u32 \<Rightarrow> tst_node run" where
  "get_node db x = (if x < db_cap db then ret (db_data db x) else abort_with Undefined)"

definition set_node :: "tst_db \<Rightarrow> u32 \<Rightarrow> (tst_node \<Rightarrow> tst_node) \<Rightarrow> tst_db run" where
  "set_node db x f =
     (if x < db_cap db then ret (db\<lparr>db_data := (db_data db)(x := f (db_data db x))\<rparr>)
      else abort_with Undefined)"

section \<open>The allocator\<close>

text \<open>
  \<open>rl bytes\<close> says whether \<open>realloc\<close> finds that many bytes. The multiplication of the
  byte count is done in \<open>size_t\<close>, the one of \<open>cap\<close> in 32 bits.
\<close>

definition ensure_enough_space :: "(u64 \<Rightarrow> bool) \<Rightarrow> tst_db \<Rightarrow> tst_db run" where
  "ensure_enough_space rl db =
     (if db_cap db - 1 \<le> db_size db
      then (if \<not> rl (25 * ucast (db_cap db) * 2) then abort_with (Exit 1)
            else ret (db\<lparr>db_cap := db_cap db * 2\<rparr>))
      else ret db)"

definition free_node :: "tst_db \<Rightarrow> u32 \<Rightarrow> tst_db run" where
  "free_node db node =
     run_bind (set_node db node (\<lambda>n. n\<lparr>nd_mid := db_f_head db, nd_value := 0\<rparr>))
       (\<lambda>db. ret (db\<lparr>db_f_head := node\<rparr>))"

definition new_node :: "(u64 \<Rightarrow> bool) \<Rightarrow> tst_db \<Rightarrow> (tst_db \<times> u32) run" where
  "new_node rl db =
     (if db_f_head db = 0
      then run_bind (ensure_enough_space rl db) (\<lambda>db.
           let db = db\<lparr>db_size := db_size db + 1\<rparr> in
           run_bind (set_node db (db_size db) (\<lambda>_. zero_node)) (\<lambda>db.
           run_bind (set_node db (db_size db) (\<lambda>n. n\<lparr>nd_value := 0\<rparr>)) (\<lambda>db.
           ret (db, db_size db))))
      else let tmp = db_f_head db in
           run_bind (get_node db tmp) (\<lambda>n.
           let db = db\<lparr>db_f_head := nd_mid n\<rparr> in
           run_bind (set_node db tmp (\<lambda>_. zero_node)) (\<lambda>db.
           ret (db, tmp))))"

section \<open>Trees and the free list in the array\<close>

text \<open>\<open>repr h p t\<close>: the link \<open>p\<close> leads to a layout of \<open>t\<close>, labelled with its slots.\<close>

fun repr :: "(u32 \<Rightarrow> tst_node) \<Rightarrow> u32 \<Rightarrow> u32 tst \<Rightarrow> bool" where
  "repr h p Lf = (p = 0)"
| "repr h p (Br a c v l m r) =
     (p = a \<and> a \<noteq> 0 \<and> nd_c (h a) = c \<and> nd_value (h a) = v \<and>
      repr h (nd_left (h a)) l \<and> repr h (nd_mid (h a)) m \<and> repr h (nd_right (h a)) r)"

fun root_of :: "u32 tst \<Rightarrow> u32" where
  "root_of Lf = 0"
| "root_of (Br a c v l m r) = a"

text \<open>No slot occurs twice in the tree.\<close>

fun separate :: "'a tst \<Rightarrow> bool" where
  "separate Lf = True"
| "separate (Br a c v l m r) =
     (a \<notin> addrs l \<and> a \<notin> addrs m \<and> a \<notin> addrs r \<and>
      addrs l \<inter> addrs m = {} \<and> addrs l \<inter> addrs r = {} \<and> addrs m \<inter> addrs r = {} \<and>
      separate l \<and> separate m \<and> separate r)"

text \<open>\<open>parents h q t\<close>: the root's parent link is \<open>q\<close>, every other one names the parent.\<close>

fun parents :: "(u32 \<Rightarrow> tst_node) \<Rightarrow> u32 \<Rightarrow> u32 tst \<Rightarrow> bool" where
  "parents h q Lf = True"
| "parents h q (Br a c v l m r) =
     (nd_parent (h a) = q \<and> parents h a l \<and> parents h a m \<and> parents h a r)"

fun kids :: "(u32 \<Rightarrow> tst_node) \<Rightarrow> u32 tst \<Rightarrow> bool" where
  "kids h Lf = True"
| "kids h (Br a c v l m r) = (parents h a l \<and> parents h a m \<and> parents h a r)"

text \<open>The list of reusable nodes, linked through \<open>mid\<close>.\<close>

fun flist :: "(u32 \<Rightarrow> tst_node) \<Rightarrow> u32 \<Rightarrow> u32 list \<Rightarrow> bool" where
  "flist h p [] = (p = 0)"
| "flist h p (x # xs) = (p = x \<and> x \<noteq> 0 \<and> flist h (nd_mid (h x)) xs)"

text \<open>\<open>heap_inv db fs A\<close>: the slots up to \<open>size\<close> are the ones in use (\<open>A\<close>) and the free ones.\<close>

definition heap_inv :: "tst_db \<Rightarrow> u32 list \<Rightarrow> u32 set \<Rightarrow> bool" where
  "heap_inv db fs A \<longleftrightarrow>
     flist (db_data db) (db_f_head db) fs \<and> distinct fs \<and> set fs \<inter> A = {} \<and>
     set fs \<union> A = {1..db_size db} \<and> db_size db < db_cap db \<and> 2 \<le> db_cap db"

text \<open>\<open>room rl db n\<close>: \<open>n\<close> more nodes fit without the 32-bit capacity wrapping around.\<close>

definition room :: "(u64 \<Rightarrow> bool) \<Rightarrow> tst_db \<Rightarrow> nat \<Rightarrow> bool" where
  "room rl db n \<longleftrightarrow> (\<forall>b. rl b) \<and> unat (db_size db) + n < 2 ^ 31"

lemma parents_kids: "parents h q t \<Longrightarrow> kids h t"
  by (cases t) auto

lemma repr_cong:
  "(\<And>a. a \<in> addrs t \<Longrightarrow> h' a = h a) \<Longrightarrow> repr h' p t = repr h p t"
  by (induction t arbitrary: p) auto

lemma parents_cong:
  "(\<And>a. a \<in> addrs t \<Longrightarrow> h' a = h a) \<Longrightarrow> parents h' q t = parents h q t"
  by (induction t arbitrary: q) auto

lemma flist_cong:
  "(\<And>a. a \<in> set fs \<Longrightarrow> h' a = h a) \<Longrightarrow> flist h' p fs = flist h p fs"
  by (induction fs arbitrary: p) auto

lemma repr_agree: "\<forall>a \<in> addrs t. h' a = h a \<Longrightarrow> repr h' p t = repr h p t"
  by (rule repr_cong) auto

lemma parents_agree:
  "\<forall>a \<in> addrs t. nd_parent (h' a) = nd_parent (h a) \<Longrightarrow> parents h' q t = parents h q t"
  by (induction t arbitrary: q) auto

lemma repr_upd [simp]: "a \<notin> addrs t \<Longrightarrow> repr (h(a := n)) p t = repr h p t"
  by (rule repr_cong) auto

lemma parents_upd [simp]: "a \<notin> addrs t \<Longrightarrow> parents (h(a := n)) q t = parents h q t"
  by (rule parents_cong) auto

lemma flist_upd [simp]: "a \<notin> set fs \<Longrightarrow> flist (h(a := n)) p fs = flist h p fs"
  by (rule flist_cong) auto

lemma repr_0 [simp]: "repr h 0 t \<longleftrightarrow> t = Lf"
  by (cases t) auto

lemma repr_root_of: "repr h p t \<Longrightarrow> p = root_of t"
  by (cases t) auto

lemma repr_at_root: "repr h p t \<Longrightarrow> repr h (root_of t) t"
  by (cases t) auto

lemma repr_sub: "repr h p t \<Longrightarrow> repr h (root_of (sub t ks)) (sub t ks)"
  by (induction t ks arbitrary: p rule: sub.induct) auto

lemma repr_nonzero: "repr h p t \<Longrightarrow> p \<noteq> 0 \<Longrightarrow> \<exists>c v l m r. t = Br p c v l m r"
  by (cases t) auto

lemma repr_link_0: "repr h p t \<Longrightarrow> p = 0 \<longleftrightarrow> t = Lf"
  by (cases t) auto

lemma repr_unique: "repr h p t \<Longrightarrow> repr h p t' \<Longrightarrow> t = t'"
proof (induction t arbitrary: p t')
  case Lf
  then show ?case by simp
next
  case (Br a c v l m r)
  then show ?case by (cases t') auto
qed

lemma flist_unique: "flist h p xs \<Longrightarrow> flist h p ys \<Longrightarrow> xs = ys"
proof (induction xs arbitrary: p ys)
  case (Cons x xs)
  then show ?case by (cases ys) auto
qed (metis flist.elims(2) flist.simps(1))

lemma flist_0 [simp]: "flist h 0 fs \<longleftrightarrow> fs = []"
  by (cases fs) auto

lemma repr_addrs_nonzero: "repr h p t \<Longrightarrow> 0 \<notin> addrs t"
  by (induction t arbitrary: p) auto

lemma heap_inv_in_use:
  assumes "heap_inv db fs A" and "a \<in> A"
  shows "a < db_cap db" and "a \<noteq> 0" and "a \<notin> set fs"
proof -
  have "a \<in> {1..db_size db}"
    using assms by (auto simp: heap_inv_def)
  then show "a < db_cap db" and "a \<noteq> 0"
    using assms(1) by (auto simp: heap_inv_def)
  show "a \<notin> set fs"
    using assms by (auto simp: heap_inv_def)
qed

lemma heap_inv_free:
  assumes "heap_inv db fs A" and "a \<in> set fs"
  shows "a < db_cap db" and "a \<noteq> 0" and "a \<notin> A"
proof -
  have "a \<in> {1..db_size db}"
    using assms by (auto simp: heap_inv_def)
  then show "a < db_cap db" and "a \<noteq> 0"
    using assms(1) by (auto simp: heap_inv_def)
  show "a \<notin> A"
    using assms by (auto simp: heap_inv_def)
qed

lemma get_node_in_use [simp]:
  "heap_inv db fs A \<Longrightarrow> a \<in> A \<Longrightarrow> get_node db a = ret (db_data db a)"
  by (simp add: get_node_def heap_inv_in_use)

lemma set_node_in_use [simp]:
  "heap_inv db fs A \<Longrightarrow> a \<in> A \<Longrightarrow>
   set_node db a f = ret (db\<lparr>db_data := (db_data db)(a := f (db_data db a))\<rparr>)"
  by (simp add: set_node_def heap_inv_in_use)

text \<open>Writing a slot in use, or moving the root, does not disturb the allocator.\<close>

lemma heap_inv_write [simp]:
  "heap_inv db fs A \<Longrightarrow> a \<in> A \<Longrightarrow> heap_inv (db\<lparr>db_data := (db_data db)(a := n)\<rparr>) fs A"
  using heap_inv_in_use(3) by (fastforce simp: heap_inv_def)

lemma heap_inv_ex_write:
  "\<exists>fs. heap_inv db fs A \<Longrightarrow> a \<in> A \<Longrightarrow>
   \<exists>fs. heap_inv (db\<lparr>db_data := (db_data db)(a := n)\<rparr>) fs A"
  using heap_inv_write by blast

lemma heap_inv_write_0:
  assumes "heap_inv db fs A"
  shows "heap_inv (db\<lparr>db_data := (db_data db)(0 := n)\<rparr>) fs A"
proof -
  have "0 \<notin> set fs"
    using heap_inv_free(2) [OF assms] by blast
  then show ?thesis
    using assms by (simp add: heap_inv_def)
qed

lemma heap_inv_root [simp]: "heap_inv (db\<lparr>db_root := x\<rparr>) fs A = heap_inv db fs A"
  by (simp add: heap_inv_def)

lemma heap_inv_zero_cap: "heap_inv db fs A \<Longrightarrow> 0 < db_cap db"
  by (auto simp: heap_inv_def word_gt_0)

section \<open>Correctness of the allocator\<close>

lemma ensure_enough_space_ok:
  assumes inv: "heap_inv db fs A" and room: "room rl db (Suc n)"
  obtains cap where "ensure_enough_space rl db = ret (db\<lparr>db_cap := cap\<rparr>)"
    and "2 \<le> cap" and "db_size db + 1 < cap"
proof -
  have sz: "unat (db_size db) < 2 ^ 31 - 1" and lt: "unat (db_size db) < unat (db_cap db)"
    and cap2: "2 \<le> unat (db_cap db)"
    using room inv by (auto simp: room_def heap_inv_def word_less_nat_alt word_le_nat_alt)
  have m1: "unat (db_cap db - 1) = unat (db_cap db) - 1"
    using cap2 by (simp add: unat_sub word_le_nat_alt)
  have s1: "unat (db_size db + 1) = unat (db_size db) + 1"
    using sz by (simp add: unat_word_ariths)
  show thesis
  proof (cases "db_cap db - 1 \<le> db_size db")
    case True
    then have "unat (db_cap db) \<le> unat (db_size db) + 1"
      using m1 by (simp add: word_le_nat_alt)
    then have "unat (db_cap db * 2) = unat (db_cap db) * 2"
      using sz by (simp add: unat_word_ariths)
    then show thesis
      using that [of "db_cap db * 2"] True room sz lt cap2 s1
      by (simp add: ensure_enough_space_def room_def word_less_nat_alt word_le_nat_alt)
  next
    case False
    then have "unat (db_size db) + 1 < unat (db_cap db)"
      using m1 by (simp add: word_le_nat_alt)
    then show thesis
      using that [of "db_cap db"] False s1 cap2
      by (simp add: ensure_enough_space_def word_less_nat_alt word_le_nat_alt)
  qed
qed

text \<open>\<open>realloc\<close> failing is the only way \<open>ensure_enough_space\<close> stops the process.\<close>

lemma ensure_enough_space_exit:
  "ensure_enough_space rl db = abort_with (Exit 1) \<longleftrightarrow>
     db_cap db - 1 \<le> db_size db \<and> \<not> rl (25 * ucast (db_cap db) * 2)"
  by (simp add: ensure_enough_space_def)

lemma atLeastAtMost_word_Suc:
  fixes n :: "'a::len word"
  assumes "n + 1 \<noteq> 0"
  shows "{1..n + 1} = insert (n + 1) {1..n}"
proof -
  have u: "unat (n + 1) = Suc (unat n)"
    using assms by (metis add.commute unatSuc)
  have "x \<le> n + 1 \<longleftrightarrow> x \<le> n \<or> x = n + 1" for x
    by (auto simp: word_le_nat_alt u) (metis le_SucE u word_unat_eq_iff)
  moreover have "1 \<le> n + 1"
    by (simp add: word_le_nat_alt u)
  ultimately show ?thesis
    by auto
qed

lemma new_node_ok:
  assumes inv: "heap_inv db fs A" and room: "room rl db (Suc n)"
  obtains db' x fs' where "new_node rl db = ret (db', x)"
    and "x \<notin> A" and "x \<noteq> 0" and "heap_inv db' fs' (insert x A)"
    and "db_data db' = (db_data db)(x := zero_node)" and "db_root db' = db_root db"
    and "room rl db' n" and "unat (db_size db') \<le> unat (db_size db) + 1"
proof (cases "db_f_head db = 0")
  case True
  obtain cap where e: "ensure_enough_space rl db = ret (db\<lparr>db_cap := cap\<rparr>)"
    and cap: "2 \<le> cap" "db_size db + 1 < cap"
    using ensure_enough_space_ok [OF inv room] by blast
  let ?x = "db_size db + 1"
  let ?db = "db\<lparr>db_cap := cap, db_size := ?x, db_data := (db_data db)(?x := zero_node)\<rparr>"
  have sz: "unat ?x = unat (db_size db) + 1"
    using room by (simp add: room_def unat_word_ariths)
  then have nz: "?x \<noteq> 0"
    by (metis Suc_eq_plus1 nat.simps(3) unat_0)
  have fs: "fs = []" and A: "A = {1..db_size db}"
    using inv True by (auto simp: heap_inv_def)
  have "?x \<notin> A"
    using A sz by (auto simp: word_le_nat_alt)
  moreover have "heap_inv ?db [] (insert ?x A)"
    using inv True cap A nz fs by (simp add: heap_inv_def atLeastAtMost_word_Suc)
  moreover have "new_node rl db = ret (?db, ?x)"
    using True cap e by (simp add: new_node_def set_node_def Let_def zero_node_def)
  moreover have "room rl ?db n"
    using room sz by (auto simp: room_def)
  ultimately show thesis
    using that [of ?db ?x "[]"] nz sz by simp
next
  case False
  then obtain y fs' where fs: "fs = db_f_head db # fs'"
    and fl: "flist (db_data db) (nd_mid (db_data db (db_f_head db))) fs'"
    using inv by (cases fs) (auto simp: heap_inv_def)
  let ?x = "db_f_head db"
  let ?db = "db\<lparr>db_f_head := nd_mid (db_data db ?x), db_data := (db_data db)(?x := zero_node)\<rparr>"
  have x: "?x \<in> set fs" using fs by simp
  have "heap_inv ?db fs' (insert ?x A)"
    using inv fs fl by (auto simp: heap_inv_def)
  moreover have "new_node rl db = ret (?db, ?x)"
    using False heap_inv_free [OF inv x] by (simp add: new_node_def get_node_def set_node_def Let_def)
  ultimately show thesis
    using that [of ?db ?x fs'] heap_inv_free [OF inv x] room by (auto simp: room_def)
qed

lemma free_node_ok:
  assumes inv: "heap_inv db fs A" and a: "a \<in> A"
  shows "free_node db a =
      ret (db\<lparr>db_data := (db_data db)(a := (db_data db a)\<lparr>nd_mid := db_f_head db, nd_value := 0\<rparr>),
              db_f_head := a\<rparr>)"
    and "heap_inv (db\<lparr>db_data := (db_data db)(a := (db_data db a)\<lparr>nd_mid := db_f_head db, nd_value := 0\<rparr>),
              db_f_head := a\<rparr>) (a # fs) (A - {a})"
proof -
  have "{1..db_size db} = set (a # fs) \<union> (A - {a})"
    using inv a by (auto simp: heap_inv_def)
  then show "heap_inv (db\<lparr>db_data := (db_data db)(a := (db_data db a)\<lparr>nd_mid := db_f_head db, nd_value := 0\<rparr>),
              db_f_head := a\<rparr>) (a # fs) (A - {a})"
    using inv a heap_inv_in_use [OF inv a] by (auto simp: heap_inv_def)
qed (simp add: free_node_def set_node_in_use [OF inv a])

text \<open>A new database holds no node; the allocator's invariant holds from the start.\<close>

lemma heap_inv_new: "2 \<le> cap \<Longrightarrow> heap_inv (new_tst_db mem cap) [] {}"
  by (auto simp: heap_inv_def new_tst_db_def word_le_nat_alt word_less_nat_alt)

end
