(* ===== verification/Tst_Ops.thy ===== *)
theory Tst_Ops
  imports Tst_Heap
begin

text \<open>
  Insertion and lookup of \<open>v2/src/tst.c\<close>: \<open>insert\<close>, \<open>search\<close>, \<open>search_with_path\<close>,
  \<open>tst_put\<close> and \<open>tst_get\<close>. The loops and the recursion follow links of the node array, so
  they are partial functions: on an array whose links form a cycle they do not end. The lemmas
  show that on an array that lays out a search tree they end, stay inside the array, and do what
  \<open>ins\<close> and \<open>tlookup\<close> say.
\<close>

section \<open>The operations\<close>

partial_function (option) tst_insert ::
  "(u64 \<Rightarrow> bool) \<Rightarrow> tst_db \<Rightarrow> u32 \<Rightarrow> cstr \<Rightarrow> u64 \<Rightarrow> nat \<Rightarrow> nat \<Rightarrow> u32 \<Rightarrow> (tst_db \<times> u32) run"
where
  "tst_insert rl db node s value d len_of_s parent =
     (let c = char_at s d in
      run_bind
        (if node = 0
         then run_bind (new_node rl db) (\<lambda>(db, x).
              run_bind (set_node db x (\<lambda>n. n\<lparr>nd_c := c\<rparr>)) (\<lambda>db. ret (db, x)))
         else ret (db, node)) (\<lambda>(db, x).
      run_bind (get_node db x) (\<lambda>nx.
      run_bind
        (if c < nd_c nx
         then run_bind (tst_insert rl db (nd_left nx) s value d len_of_s x) (\<lambda>(db, no).
              set_node db x (\<lambda>n. n\<lparr>nd_left := no\<rparr>))
         else if nd_c nx < c
         then run_bind (tst_insert rl db (nd_right nx) s value d len_of_s x) (\<lambda>(db, no).
              set_node db x (\<lambda>n. n\<lparr>nd_right := no\<rparr>))
         else if d < len_of_s - 1
         then run_bind (tst_insert rl db (nd_mid nx) s value (d + 1) len_of_s x) (\<lambda>(db, no).
              set_node db x (\<lambda>n. n\<lparr>nd_mid := no\<rparr>))
         else set_node db x (\<lambda>n. n\<lparr>nd_value := value\<rparr>)) (\<lambda>db.
      run_bind (set_node db x (\<lambda>n. n\<lparr>nd_parent := parent\<rparr>)) (\<lambda>db.
      ret (db, x))))))"

partial_function (option) search_loop ::
  "tst_db \<Rightarrow> cstr \<Rightarrow> nat \<Rightarrow> u32 \<Rightarrow> nat \<Rightarrow> u32 run"
where
  "search_loop db key len_of_key node d =
     (if node = 0 then ret 0
      else run_bind (get_node db node) (\<lambda>n.
        let c = char_at key d in
        if c < nd_c n then search_loop db key len_of_key (nd_left n) d
        else if nd_c n < c then search_loop db key len_of_key (nd_right n) d
        else if d < len_of_key - 1 then search_loop db key len_of_key (nd_mid n) (d + 1)
        else ret node))"

definition search :: "tst_db \<Rightarrow> cstr \<Rightarrow> u32 run" where
  "search db key =
     (let len_of_key = length key in
      if len_of_key = 0 then ret 0 else search_loop db key len_of_key (db_root db) 0)"

partial_function (option) search_path_loop ::
  "tst_db \<Rightarrow> cstr \<Rightarrow> nat \<Rightarrow> u32 \<Rightarrow> nat \<Rightarrow> cchar list \<Rightarrow> (u32 \<times> cchar list) run"
where
  "search_path_loop db key len_of_key node d path =
     (if node = 0 then ret (0, path)
      else run_bind (get_node db node) (\<lambda>n.
        let c = char_at key d in
        if c < nd_c n then search_path_loop db key len_of_key (nd_left n) d path
        else if nd_c n < c then search_path_loop db key len_of_key (nd_right n) d path
        else if d < len_of_key - 1
        then run_bind (buf_set path d (nd_c n)) (\<lambda>path.
             search_path_loop db key len_of_key (nd_mid n) (d + 1) path)
        else run_bind (buf_set path d (nd_c n)) (\<lambda>path. ret (node, path))))"

definition search_with_path :: "tst_db \<Rightarrow> cstr \<Rightarrow> cchar list \<Rightarrow> (u32 \<times> cchar list) run" where
  "search_with_path db key path =
     (let len_of_key = length key in
      if len_of_key = 0 then ret (0, path)
      else search_path_loop db key len_of_key (db_root db) 0 path)"

definition tst_put :: "(u64 \<Rightarrow> bool) \<Rightarrow> tst_db \<Rightarrow> cstr \<Rightarrow> u64 \<Rightarrow> tst_db run" where
  "tst_put rl db key value =
     (let len_of_key = length key in
      if len_of_key = 0 then ret db
      else run_bind (tst_insert rl db (db_root db) key value 0 len_of_key 0) (\<lambda>(db, root).
           ret (db\<lparr>db_root := root\<rparr>)))"

definition tst_get :: "tst_db \<Rightarrow> cstr \<Rightarrow> u64 run" where
  "tst_get db key =
     (let len_of_key = length key in
      if len_of_key = 0 then ret 0
      else run_bind (search db key) (\<lambda>node.
           run_bind (get_node db node) (\<lambda>n. ret (nd_value n))))"

section \<open>The representation invariant\<close>

text \<open>
  \<open>tst_inv db t fs\<close>: the array lays out the search tree \<open>t\<close> below \<open>root\<close>, the slots that
  are not in it are the free list \<open>fs\<close>, no key contains NUL, and slot 0, which lookups of absent
  keys read, holds the value 0. \<open>tst_sound\<close> adds that every parent link is right, which
  deletion relies on.
\<close>

definition tst_inv :: "tst_db \<Rightarrow> u32 tst \<Rightarrow> u32 list \<Rightarrow> bool" where
  "tst_inv db t fs \<longleftrightarrow>
     repr (db_data db) (db_root db) t \<and> separate t \<and> bst t \<and> all_chars (\<lambda>c. c \<noteq> 0) t \<and>
     heap_inv db fs (addrs t) \<and> nd_value (db_data db 0) = 0"

definition tst_sound :: "tst_db \<Rightarrow> u32 tst \<Rightarrow> u32 list \<Rightarrow> bool" where
  "tst_sound db t fs \<longleftrightarrow> tst_inv db t fs \<and> parents (db_data db) 0 t"

lemma tst_inv_unique: "tst_inv db t fs \<Longrightarrow> tst_inv db t' fs' \<Longrightarrow> t = t' \<and> fs = fs'"
  by (auto simp: tst_inv_def heap_inv_def dest: repr_unique flist_unique)

section \<open>Lookup\<close>

lemma search_loop_ok:
  assumes "repr (db_data db) node t" and "addrs t \<subseteq> A" and "heap_inv db fs A"
    and "drop d key = ks" and "ks \<noteq> []"
  shows "search_loop db key (length key) node d = ret (root_of (sub t ks))"
  using assms
proof (induction t ks arbitrary: node d rule: sub.induct)
  case (2 k ks)
  then show ?case by (simp add: search_loop.simps)
next
  case (3 a c v l m r k ks)
  note k = char_at_drop [OF "3.prems"(4)] drop_ConsD [OF "3.prems"(4)]
  show ?case
    using "3.prems" "3.IH" k
    by (subst search_loop.simps) (auto simp: Let_def)
qed simp

lemma search_ok:
  assumes "tst_inv db t fs"
  shows "search db key = ret (root_of (sub t key))"
  using assms search_loop_ok [of db "db_root db" t "addrs t" fs 0 key key]
  by (cases "key = []") (auto simp: search_def tst_inv_def)

lemma tst_get_ok:
  assumes inv: "tst_inv db t fs"
  shows "tst_get db key = ret (tlookup t key)"
proof (cases "key = []")
  case True
  then show ?thesis by (simp add: tst_get_def)
next
  case False
  have r: "repr (db_data db) (root_of (sub t key)) (sub t key)"
    using inv repr_sub by (auto simp: tst_inv_def)
  show ?thesis
  proof (cases "sub t key")
    case Lf
    then show ?thesis
      using inv False heap_inv_zero_cap
      by (auto simp: tst_get_def search_ok [OF inv] tlookup_sub get_node_def tst_inv_def)
  next
    case (Br a c v l m r')
    then have "a \<in> addrs t"
      using addrs_sub [of t key] by auto
    then show ?thesis
      using inv False r Br
      by (auto simp: tst_get_def search_ok [OF inv] tlookup_sub tst_inv_def)
  qed
qed

section \<open>Insertion\<close>

text \<open>
  \<open>grafted db A t q db' t'\<close>: \<open>db'\<close> differs from \<open>db\<close> only in that the subtree
  \<open>t\<close> has become \<open>t'\<close>, whose parent is \<open>q\<close>; the slots in use were \<open>A\<close> and
  those of \<open>t'\<close> that are not of \<open>t\<close> are new.
\<close>

definition grafted :: "tst_db \<Rightarrow> u32 set \<Rightarrow> u32 tst \<Rightarrow> u32 \<Rightarrow> tst_db \<Rightarrow> u32 tst \<Rightarrow> bool" where
  "grafted db A t q db' t' \<longleftrightarrow>
     repr (db_data db') (root_of t') t' \<and> separate t' \<and>
     addrs t \<subseteq> addrs t' \<and> (addrs t' - addrs t) \<inter> A = {} \<and>
     (\<exists>fs'. heap_inv db' fs' (A \<union> addrs t')) \<and>
     (\<forall>a. a \<in> A - addrs t \<or> a = 0 \<longrightarrow> db_data db' a = db_data db a) \<and>
     db_root db' = db_root db \<and>
     (kids (db_data db) t \<longrightarrow> parents (db_data db') q t')"

text \<open>A sibling of the subtree is not touched.\<close>

lemma grafted_sibling:
  assumes "grafted db A t q db' t'" and "addrs u \<subseteq> A" and "addrs u \<inter> addrs t = {}"
  shows "addrs u \<inter> addrs t' = {}" and "repr (db_data db') p u = repr (db_data db) p u"
    and "parents (db_data db') p u = parents (db_data db) p u"
proof -
  have "db_data db' b = db_data db b" if "b \<in> addrs u" for b
    using assms that unfolding grafted_def by blast
  note eq = this
  show "repr (db_data db') p u = repr (db_data db) p u"
    by (rule repr_cong) (rule eq)
  show "parents (db_data db') p u = parents (db_data db) p u"
    by (rule parents_cong) (rule eq)
  show "addrs u \<inter> addrs t' = {}"
    using assms unfolding grafted_def by blast
qed

lemma grafted_parent:
  assumes "grafted db A t q db' t'" and "a \<in> A" and "a \<notin> addrs t"
  shows "db_data db' a = db_data db a" and "a \<notin> addrs t'" and "\<exists>fs'. heap_inv db' fs' (A \<union> addrs t')"
  using assms unfolding grafted_def by blast+

text \<open>
  The caller stores the new subtree's root in the link it came from and sets its own parent link;
  \<open>u\<close> is the child inserted into, \<open>f\<close> the write of its link.
\<close>

lemma graft_child:
  assumes g: "grafted db A u a db1 u'" and rep: "repr (db_data db) p (Br a c x l m r)"
    and sep: "separate (Br a c x l m r)" and sub: "addrs (Br a c x l m r) \<subseteq> A"
    and which: "(u, f, t') \<in> {(l, \<lambda>n. n\<lparr>nd_left := root_of u'\<rparr>, Br a c x u' m r),
      (m, \<lambda>n. n\<lparr>nd_mid := root_of u'\<rparr>, Br a c x l u' r),
      (r, \<lambda>n. n\<lparr>nd_right := root_of u'\<rparr>, Br a c x l m u')}"
  shows "grafted db A (Br a c x l m r) q
    (db1\<lparr>db_data := (db_data db1)(a := (f (db_data db1 a))\<lparr>nd_parent := q\<rparr>)\<rparr>) t'"
proof -
  let ?h = "(db_data db1)(a := (f (db_data db1 a))\<lparr>nd_parent := q\<rparr>)"
  note sib = grafted_sibling [OF g]
  have au: "a \<in> A" "a \<notin> addrs u" and in_A: "addrs l \<subseteq> A" "addrs m \<subseteq> A" "addrs r \<subseteq> A"
    using which sep sub by auto
  note pa = grafted_parent [OF g au]
  have rt': "root_of t' = a"
    using which by auto
  have "repr ?h a t'"
    using which g rep sep pa(1,2) in_A unfolding grafted_def [of db A u]
    by (auto simp: sib Int_commute)
  moreover have "separate t'"
  proof -
    have dis: "addrs w \<inter> addrs u' = {}" "addrs u' \<inter> addrs w = {}"
      if "addrs w \<inter> addrs u = {}" "addrs w \<subseteq> A" for w
      using sib(1) [OF that(2,1)] by auto
    have "separate u'"
      using g by (simp add: grafted_def)
    then show ?thesis
      using which sep pa(2) in_A
      by (elim insertE emptyE) (auto simp: dis Int_commute)
  qed
  moreover have "A \<union> addrs t' = A \<union> addrs u'"
    using which sub by auto
  then have "\<exists>fs'. heap_inv (db1\<lparr>db_data := ?h\<rparr>) fs' (A \<union> addrs t')"
    using heap_inv_ex_write [OF pa(3)] au(1) by simp
  moreover have "kids (db_data db) (Br a c x l m r) \<longrightarrow> parents ?h q t'"
    using which g sep pa(2) in_A unfolding grafted_def [of db A u]
    by (auto simp: sib Int_commute dest: parents_kids)
  moreover have "\<forall>b. b \<in> A - addrs (Br a c x l m r) \<or> b = 0 \<longrightarrow> ?h b = db_data db b"
    using which g rep unfolding grafted_def by auto
  moreover have "addrs (Br a c x l m r) \<subseteq> addrs t' \<and> (addrs t' - addrs (Br a c x l m r)) \<inter> A = {}"
    using which g sub unfolding grafted_def by auto
  ultimately show ?thesis
    using g rt' unfolding grafted_def by simp
qed

lemma graft_value:
  assumes "heap_inv db fs A" and "repr (db_data db) p (Br a c x l m r)"
    and "separate (Br a c x l m r)" and "addrs (Br a c x l m r) \<subseteq> A"
  shows "grafted db A (Br a c x l m r) q
    (db\<lparr>db_data := (db_data db)(a := (db_data db a)\<lparr>nd_value := v, nd_parent := q\<rparr>)\<rparr>)
    (Br a c v l m r)"
proof -
  have "A \<union> addrs (Br a c v l m r) = A"
    using assms by auto
  then show ?thesis
    using assms heap_inv_ex_write [of db A a] unfolding grafted_def by auto
qed

text \<open>Inserting below the null link first makes the missing node, then inserts at that node.\<close>

lemma insert_at_null:
  assumes "new_node rl db = ret (db1, x)" and "x \<noteq> 0" and "heap_inv db1 fs A" and "x \<in> A"
  shows "tst_insert rl db 0 s v d n q =
    tst_insert rl (db1\<lparr>db_data := (db_data db1)(x := (db_data db1 x)\<lparr>nd_c := char_at s d\<rparr>)\<rparr>) x s v d n q"
  using assms by (subst (1 2) tst_insert.simps) (simp add: Let_def)

lemma grafted_new:
  assumes x: "x \<notin> A" "x \<noteq> 0" and fresh: "db_data db1 = (db_data db)(x := n)"
    and root: "db_root db1 = db_root db"
    and g: "grafted db1 (insert x A) (Br x k 0 Lf Lf Lf) q db' t'"
  shows "grafted db A Lf q db' t'"
proof -
  have "insert x A \<union> addrs t' = A \<union> addrs t'"
    using g unfolding grafted_def by auto
  then show ?thesis
    using g x root fresh unfolding grafted_def by (auto split: if_splits)
qed

text \<open>One level of the recursion at an existing node, by the branch taken.\<close>

lemma tst_insert_left:
  assumes "heap_inv db fs A" and "a \<in> A" and "a \<noteq> 0" and "char_at s d < nd_c (db_data db a)"
    and "tst_insert rl db (nd_left (db_data db a)) s v d n a = ret (db1, no)"
    and "heap_inv db1 fs1 A1" and "a \<in> A1"
  shows "tst_insert rl db a s v d n q =
    ret (db1\<lparr>db_data := (db_data db1)(a := (db_data db1 a)\<lparr>nd_left := no, nd_parent := q\<rparr>)\<rparr>, a)"
  using assms by (subst tst_insert.simps) (simp add: Let_def set_node_in_use [OF heap_inv_write])

lemma tst_insert_right:
  assumes "heap_inv db fs A" and "a \<in> A" and "a \<noteq> 0" and "nd_c (db_data db a) < char_at s d"
    and "tst_insert rl db (nd_right (db_data db a)) s v d n a = ret (db1, no)"
    and "heap_inv db1 fs1 A1" and "a \<in> A1"
  shows "tst_insert rl db a s v d n q =
    ret (db1\<lparr>db_data := (db_data db1)(a := (db_data db1 a)\<lparr>nd_right := no, nd_parent := q\<rparr>)\<rparr>, a)"
  using assms by (subst tst_insert.simps) (auto simp: Let_def set_node_in_use [OF heap_inv_write])

lemma tst_insert_mid:
  assumes "heap_inv db fs A" and "a \<in> A" and "a \<noteq> 0" and "nd_c (db_data db a) = char_at s d"
    and "d < n - 1"
    and "tst_insert rl db (nd_mid (db_data db a)) s v (Suc d) n a = ret (db1, no)"
    and "heap_inv db1 fs1 A1" and "a \<in> A1"
  shows "tst_insert rl db a s v d n q =
    ret (db1\<lparr>db_data := (db_data db1)(a := (db_data db1 a)\<lparr>nd_mid := no, nd_parent := q\<rparr>)\<rparr>, a)"
  using assms by (subst tst_insert.simps) (simp add: Let_def set_node_in_use [OF heap_inv_write])

lemma tst_insert_here:
  assumes "heap_inv db fs A" and "a \<in> A" and "a \<noteq> 0" and "nd_c (db_data db a) = char_at s d"
    and "\<not> d < n - 1"
  shows "tst_insert rl db a s v d n q =
    ret (db\<lparr>db_data := (db_data db)(a := (db_data db a)\<lparr>nd_value := v, nd_parent := q\<rparr>)\<rparr>, a)"
  using assms by (subst tst_insert.simps) (simp add: Let_def set_node_in_use [OF heap_inv_write])

text \<open>The specification of one call, for the induction.\<close>

definition insert_spec :: "unit tst \<Rightarrow> cstr \<Rightarrow> u64 \<Rightarrow> bool" where
  "insert_spec sh ks v \<longleftrightarrow>
     (\<forall>rl db fs A t node s d q.
        shape t = sh \<and> repr (db_data db) node t \<and> separate t \<and> addrs t \<subseteq> A \<and>
        heap_inv db fs A \<and> room rl db (length ks) \<and> drop d s = ks \<and> ks \<noteq> [] \<longrightarrow>
        (\<exists>db' t'. tst_insert rl db node s v d (length s) q = ret (db', root_of t') \<and>
           grafted db A t q db' t' \<and> shape t' = ins sh ks v \<and>
           unat (db_size db') \<le> unat (db_size db) + length ks))"

lemma insert_specD:
  assumes "insert_spec sh ks v" and "shape t = sh" and "repr (db_data db) node t"
    and "separate t" and "addrs t \<subseteq> A" and "heap_inv db fs A" and "room rl db (length ks)"
    and "drop d s = ks" and "ks \<noteq> []"
  obtains db' t' fs' where "tst_insert rl db node s v d (length s) q = ret (db', root_of t')"
    and "grafted db A t q db' t'" and "shape t' = ins sh ks v"
    and "heap_inv db' fs' (A \<union> addrs t')"
    and "unat (db_size db') \<le> unat (db_size db) + length ks"
proof -
  obtain db' t' where "tst_insert rl db node s v d (length s) q = ret (db', root_of t')"
    "grafted db A t q db' t'" "shape t' = ins sh ks v"
    "unat (db_size db') \<le> unat (db_size db) + length ks"
    using assms unfolding insert_spec_def by metis
  then show thesis
    using that unfolding grafted_def by blast
qed

text \<open>The call at an existing node, given the specification for its children.\<close>

lemma insert_at_node:
  assumes rep: "repr (db_data db) node (Br a c x l m r)" and sep: "separate (Br a c x l m r)"
    and sub: "addrs (Br a c x l m r) \<subseteq> A" and inv: "heap_inv db fs A"
    and room: "room rl db (length (if k = c then ks else k # ks))" and d: "drop d s = k # ks"
    and L: "k < c \<Longrightarrow> insert_spec (shape l) (k # ks) v"
    and R: "c < k \<Longrightarrow> insert_spec (shape r) (k # ks) v"
    and M: "k = c \<Longrightarrow> ks \<noteq> [] \<Longrightarrow> insert_spec (shape m) ks v"
  shows "\<exists>db' t'. tst_insert rl db node s v d (length s) q = ret (db', root_of t') \<and>
    grafted db A (Br a c x l m r) q db' t' \<and>
    shape t' = ins (shape (Br a c x l m r)) (k # ks) v \<and>
    unat (db_size db') \<le> unat (db_size db) + length (if k = c then ks else k # ks)"
proof -
  have a: "a \<in> A" "a \<noteq> 0" "nd_c (db_data db a) = c" "node = a"
    using rep sub by auto
  have k: "char_at s d = k" "drop (Suc d) s = ks" "d < length s - 1 \<longleftrightarrow> ks \<noteq> []"
    using char_at_drop [OF d] drop_ConsD [OF d] by auto
  note gc = graft_child [OF _ rep sep sub, where q = q]
  consider "k < c" | "c < k" | "k = c" "ks \<noteq> []" | "k = c" "ks = []" by fastforce
  then show ?thesis
  proof cases
    case 1
    then have room': "room rl db (length (k # ks))"
      using room by (simp split: if_splits)
    obtain db1 l' fs1 where 
      I: "tst_insert rl db (nd_left (db_data db a)) s v d (length s) a = ret (db1, root_of l')"
        "grafted db A l a db1 l'" "shape l' = ins (shape l) (k # ks) v" "heap_inv db1 fs1 (A \<union> addrs l')"
        "unat (db_size db1) \<le> unat (db_size db) + length (k # ks)"
      by (rule insert_specD [OF L [OF 1] refl, of db _ A fs rl d s a])
        (use rep sep sub inv room' d in auto)
    show ?thesis
      using tst_insert_left [OF inv a(1,2) _ I(1,4), of q] gc [OF I(2), of "\<lambda>n. n\<lparr>nd_left := root_of l'\<rparr>" "Br a c x l' m r"]
        I(3,5) a k 1 by (auto intro!: exI [of _ "Br a c x l' m r"])
  next
    case 2
    then have room': "room rl db (length (k # ks))"
      using room by (simp split: if_splits)
    obtain db1 r' fs1 where 
      I: "tst_insert rl db (nd_right (db_data db a)) s v d (length s) a = ret (db1, root_of r')"
        "grafted db A r a db1 r'" "shape r' = ins (shape r) (k # ks) v" "heap_inv db1 fs1 (A \<union> addrs r')"
        "unat (db_size db1) \<le> unat (db_size db) + length (k # ks)"
      by (rule insert_specD [OF R [OF 2] refl, of db _ A fs rl d s a])
        (use rep sep sub inv room' d in auto)
    show ?thesis
      using tst_insert_right [OF inv a(1,2) _ I(1,4), of q] gc [OF I(2), of "\<lambda>n. n\<lparr>nd_right := root_of r'\<rparr>" "Br a c x l m r'"]
        I(3,5) a k 2 by (auto intro!: exI [of _ "Br a c x l m r'"])
  next
    case 3
    obtain db1 m' fs1 where 
      I: "tst_insert rl db (nd_mid (db_data db a)) s v (Suc d) (length s) a = ret (db1, root_of m')"
        "grafted db A m a db1 m'" "shape m' = ins (shape m) ks v" "heap_inv db1 fs1 (A \<union> addrs m')"
        "unat (db_size db1) \<le> unat (db_size db) + length ks"
      by (rule insert_specD [OF M [OF 3] refl, of db _ A fs rl "Suc d" s a])
        (use rep sep sub inv room k 3 in auto)
    show ?thesis
      using tst_insert_mid [OF inv a(1,2) _ _ I(1,4), of q] gc [OF I(2), of "\<lambda>n. n\<lparr>nd_mid := root_of m'\<rparr>" "Br a c x l m' r"]
        I(3,5) a k 3 by (auto intro!: exI [of _ "Br a c x l m' r"])
  next
    case 4
    then show ?thesis
      using tst_insert_here [OF inv a(1,2), of s d "length s" rl v q] graft_value [OF inv rep sep sub, of q v] a k
      by (auto intro!: exI [of _ "Br a c v l m r"])
  qed
qed

lemma insert_ok: "insert_spec sh ks v"
proof (induction sh ks v rule: ins.induct)
  case (1 t v)
  then show ?case by (simp add: insert_spec_def)
next
  case (2 k ks v)
  show ?case
    unfolding insert_spec_def
  proof (intro allI impI, elim conjE)
    fix rl db fs A and t :: "u32 tst" and node s d q
    assume t: "shape t = Lf" "repr (db_data db) node t" and inv: "heap_inv db fs A"
      and room: "room rl db (length (k # ks))" and d: "drop d s = k # ks"
    obtain db1 x fs1 where N: "new_node rl db = ret (db1, x)" "x \<notin> A" "x \<noteq> 0"
      "heap_inv db1 fs1 (insert x A)" "db_data db1 = (db_data db)(x := zero_node)"
      "db_root db1 = db_root db" "room rl db1 (length ks)"
      "unat (db_size db1) \<le> unat (db_size db) + 1"
      by (rule new_node_ok [OF inv, of rl "length ks"]) (use room in auto)
    let ?db = "db1\<lparr>db_data := (db_data db1)(x := (db_data db1 x)\<lparr>nd_c := char_at s d\<rparr>)\<rparr>"
    have k: "char_at s d = k"
      using d by (rule char_at_drop)
    have H: "heap_inv ?db fs1 (insert x A)"
      by (rule heap_inv_write [OF N(4)]) simp
    have "\<exists>db' t'. tst_insert rl ?db x s v d (length s) q = ret (db', root_of t') \<and>
      grafted ?db (insert x A) (Br x k 0 Lf Lf Lf) q db' t' \<and>
      shape t' = ins (shape (Br x k 0 Lf Lf Lf)) (k # ks) v \<and>
      unat (db_size db') \<le> unat (db_size ?db) + length (if k = k then ks else k # ks)"
      by (rule insert_at_node [OF _ _ _ H]) (use N d k "2.IH" in \<open>auto simp: zero_node_def room_def\<close>)
    then obtain db' t' where I: "tst_insert rl ?db x s v d (length s) q = ret (db', root_of t')"
      "grafted ?db (insert x A) (Br x k 0 Lf Lf Lf) q db' t'"
      "shape t' = ins (shape (Br x k 0 Lf Lf Lf)) (k # ks) v"
      "unat (db_size db') \<le> unat (db_size ?db) + length (if k = k then ks else k # ks)"
      by blast
    have "grafted db A Lf q db' t'"
      by (rule grafted_new [OF N(2,3) _ _ I(2)]) (use N in auto)
    then show "\<exists>db' t'. tst_insert rl db node s v d (length s) q = ret (db', root_of t') \<and>
      grafted db A t q db' t' \<and> shape t' = ins Lf (k # ks) v \<and>
      unat (db_size db') \<le> unat (db_size db) + length (k # ks)"
      using I N(8) insert_at_null [OF N(1,3,4), of s v d "length s" q] t by auto
  qed
next
  case (3 a c x l m r k ks v)
  show ?case
    unfolding insert_spec_def
  proof (intro allI impI, elim conjE)
    fix rl db fs A and t :: "u32 tst" and node s d q
    assume t: "shape t = Br a c x l m r" "repr (db_data db) node t" "separate t" "addrs t \<subseteq> A"
      and inv: "heap_inv db fs A"
      and room: "room rl db (length (k # ks))" and d: "drop d s = k # ks"
    obtain a' l' m' r' where T: "t = Br a' c x l' m' r'" "shape l' = l" "shape m' = m" "shape r' = r"
      using t(1) by (cases t) auto
    show "\<exists>db' t'. tst_insert rl db node s v d (length s) q = ret (db', root_of t') \<and>
      grafted db A t q db' t' \<and> shape t' = ins (Br a c x l m r) (k # ks) v \<and>
      unat (db_size db') \<le> unat (db_size db) + length (k # ks)"
    proof -
      have le: "length (if k = c then ks else k # ks) \<le> length (k # ks)"
        by simp
      have "\<exists>db' t'. tst_insert rl db node s v d (length s) q = ret (db', root_of t') \<and>
        grafted db A t q db' t' \<and> shape t' = ins (Br a c x l m r) (k # ks) v \<and>
        unat (db_size db') \<le> unat (db_size db) + length (if k = c then ks else k # ks)"
        using insert_at_node [OF t(2-4) [unfolded T(1)] inv _ d] room "3.IH" T
        by (auto simp: room_def split: if_splits)
      then show ?thesis
        using le by (meson add_left_mono le_trans)
    qed
  qed
qed

lemma tst_put_ok:
  assumes inv: "tst_inv db t fs" and room: "room rl db (length key)" and nz: "0 \<notin> set key"
  obtains db' t' fs' where "tst_put rl db key v = ret db'" and "tst_inv db' t' fs'"
    and "shape t' = ins (shape t) key v"
    and "parents (db_data db) 0 t \<longrightarrow> parents (db_data db') 0 t'"
    and "unat (db_size db') \<le> unat (db_size db) + length key"
proof (cases "key = []")
  case True
  then show thesis
    using that [of db t fs] inv by (simp add: tst_put_def)
next
  case False
  note I = inv [unfolded tst_inv_def]
  obtain db' t' fs' where R: "tst_insert rl db (db_root db) key v 0 (length key) 0 = ret (db', root_of t')"
    and g: "grafted db (addrs t) t 0 db' t'" and sh: "shape t' = ins (shape t) key v"
    and hi: "heap_inv db' fs' (addrs t \<union> addrs t')"
    and sz: "unat (db_size db') \<le> unat (db_size db) + length key"
    by (rule insert_specD [OF insert_ok refl]) (use I room False in auto)
  have "bst (shape t')" "all_chars (\<lambda>c. c \<noteq> 0) (shape t')"
    using I nz unfolding sh
    by (auto intro!: bst_ins all_chars_ins simp: list_all_iff simp del: bst_shape all_chars_shape)
      (simp_all add: bst_shape all_chars_shape)
  moreover have "addrs t \<union> addrs t' = addrs t'"
    using g by (auto simp: grafted_def)
  ultimately have "tst_inv (db'\<lparr>db_root := root_of t'\<rparr>) t' fs'"
    using g hi I by (auto simp: tst_inv_def grafted_def)
  moreover have "tst_put rl db key v = ret (db'\<lparr>db_root := root_of t'\<rparr>)"
    using False R by (simp add: tst_put_def)
  ultimately show thesis
    using that sh g sz parents_kids by (auto simp: grafted_def)
qed

end
