(* ===== verification/Tst_Delete.thy ===== *)
theory Tst_Delete
  imports Tst_Ops
begin

text \<open>
  Deletion (\<open>remove_node\<close> and \<open>tst_delete\<close> of \<open>v2/src/tst.c\<close>). The code finds the node
  of the key, clears its value and climbs back to the root along the parent links, taking out every
  node that carries neither a value nor longer keys. A path into a tree is a list of frames,
  innermost first, so that the climb is a recursion over that list. Where all parent links are
  right the climb computes \<open>delete_key\<close>; it keeps them right unless it takes out a node with two
  children, whose right child keeps a link to the freed node.
\<close>

section \<open>The operations\<close>

partial_function (option) find_max :: "tst_db \<Rightarrow> u32 \<Rightarrow> u32 run" where
  "find_max db max_p =
     run_bind (get_node db max_p) (\<lambda>n.
     if nd_right n \<noteq> 0 then find_max db (nd_right n) else ret max_p)"

definition remove_node :: "tst_db \<Rightarrow> u32 \<Rightarrow> (tst_db \<times> u32) run" where
  "remove_node db node =
     run_bind (get_node db node) (\<lambda>n.
     let left = nd_left n; right = nd_right n in
     run_bind (free_node db node) (\<lambda>db.
     if left = 0 \<and> right = 0 then ret (db, 0)
     else if 0 < left \<and> right = 0 then ret (db, left)
     else if 0 < right \<and> left = 0 then ret (db, right)
     else run_bind (find_max db left) (\<lambda>max_p.
          run_bind (set_node db max_p (\<lambda>n. n\<lparr>nd_right := right\<rparr>)) (\<lambda>db.
          ret (db, left)))))"

text \<open>The body of the loop for a node that can go: take it out and mend the link to it.\<close>

definition unlink_node :: "tst_db \<Rightarrow> u32 \<Rightarrow> u32 \<Rightarrow> tst_db run" where
  "unlink_node db node myparent =
     (let set_parent = (\<lambda>db new_p.
            if new_p \<noteq> 0 then set_node db new_p (\<lambda>n. n\<lparr>nd_parent := myparent\<rparr>) else ret db) in
      if 0 < myparent
      then run_bind (get_node db myparent) (\<lambda>p.
           if node = nd_left p
           then run_bind (remove_node db node) (\<lambda>(db, new_p).
                run_bind (set_node db myparent (\<lambda>n. n\<lparr>nd_left := new_p\<rparr>)) (\<lambda>db.
                set_parent db new_p))
           else if node = nd_right p
           then run_bind (remove_node db node) (\<lambda>(db, new_p).
                run_bind (set_node db myparent (\<lambda>n. n\<lparr>nd_right := new_p\<rparr>)) (\<lambda>db.
                set_parent db new_p))
           else run_bind (remove_node db node) (\<lambda>(db, new_p).
                run_bind (set_node db myparent (\<lambda>n. n\<lparr>nd_mid := new_p\<rparr>)) (\<lambda>db.
                set_parent db new_p)))
      else run_bind (remove_node db node) (\<lambda>(db, new_p).
           set_node (db\<lparr>db_root := new_p\<rparr>) new_p (\<lambda>n. n\<lparr>nd_parent := myparent\<rparr>)))"

partial_function (option) delete_climb :: "tst_db \<Rightarrow> u32 \<Rightarrow> tst_db run" where
  "delete_climb db node =
     (if node = 0 then ret db
      else run_bind (get_node db node) (\<lambda>n.
        let myparent = nd_parent n in
        run_bind (if nd_mid n = 0 \<and> nd_value n = 0 then unlink_node db node myparent else ret db)
          (\<lambda>db. delete_climb db myparent)))"

text \<open>The loop that looks for the node is, letter for letter, the one of \<open>search\<close>.\<close>

definition tst_delete :: "tst_db \<Rightarrow> cstr \<Rightarrow> tst_db run" where
  "tst_delete db key =
     (let len_of_key = length key in
      if len_of_key = 0 then ret db
      else run_bind (search_loop db key len_of_key (db_root db) 0) (\<lambda>node.
           run_bind (if node \<noteq> 0 then set_node db node (\<lambda>n. n\<lparr>nd_value := 0\<rparr>) else ret db) (\<lambda>db.
           delete_climb db node)))"

section \<open>Paths into a tree\<close>

datatype 'a frame =
    FL 'a cchar u64 "'a tst" "'a tst"
  | FM 'a cchar u64 "'a tst" "'a tst"
  | FR 'a cchar u64 "'a tst" "'a tst"

fun plug1 :: "'a frame \<Rightarrow> 'a tst \<Rightarrow> 'a tst" where
  "plug1 (FL a c v m r) t = Br a c v t m r"
| "plug1 (FM a c v l r) t = Br a c v l t r"
| "plug1 (FR a c v l m) t = Br a c v l m t"

fun plug :: "'a frame list \<Rightarrow> 'a tst \<Rightarrow> 'a tst" where
  "plug [] t = t"
| "plug (f # fs) t = plug fs (plug1 f t)"

fun faddr :: "'a frame \<Rightarrow> 'a" where
  "faddr (FL a c v m r) = a"
| "faddr (FM a c v l r) = a"
| "faddr (FR a c v l m) = a"

fun up_addr :: "u32 frame list \<Rightarrow> u32" where
  "up_addr [] = 0"
| "up_addr (f # fs) = faddr f"

fun zip_path :: "'a tst \<Rightarrow> cstr \<Rightarrow> 'a frame list \<Rightarrow> 'a frame list" where
  "zip_path t [] fs = fs"
| "zip_path Lf (k # ks) fs = fs"
| "zip_path (Br a c v l m r) (k # ks) fs =
     (if k < c then zip_path l (k # ks) (FL a c v m r # fs)
      else if c < k then zip_path r (k # ks) (FR a c v l m # fs)
      else if ks = [] then fs
      else zip_path m ks (FM a c v l r # fs))"

fun clear :: "'a tst \<Rightarrow> 'a tst" where
  "clear Lf = Lf"
| "clear (Br a c v l m r) = Br a c 0 l m r"

fun climb_up :: "'a frame list \<Rightarrow> 'a tst \<Rightarrow> 'a tst" where
  "climb_up [] t = t"
| "climb_up (f # fs) t = climb_up fs (prune (plug1 f t))"

lemma plug_zip_path: "plug (zip_path t ks fs) (sub t ks) = plug fs t" if "found t ks"
  using that by (induction t ks fs rule: zip_path.induct) auto

lemma climb_up_zip_path:
  "found t ks \<Longrightarrow> climb_up (zip_path t ks fs) (prune (clear (sub t ks))) = climb_up fs (del t ks)"
  by (induction t ks fs rule: zip_path.induct) auto

text \<open>\<open>caddrs fs\<close>: the slots of the tree around the hole.\<close>

fun caddrs :: "'a frame list \<Rightarrow> 'a set" where
  "caddrs [] = {}"
| "caddrs (f # fs) = addrs (plug1 f Lf) \<union> caddrs fs"

fun cseparate :: "'a frame list \<Rightarrow> bool" where
  "cseparate [] = True"
| "cseparate (f # fs) =
     (separate (plug1 f Lf) \<and> addrs (plug1 f Lf) \<inter> caddrs fs = {} \<and> cseparate fs)"

lemma addrs_plug1: "addrs (plug1 f t) = addrs (plug1 f Lf) \<union> addrs t"
  by (cases f) auto

lemma separate_plug1:
  "separate (plug1 f t) \<longleftrightarrow> separate (plug1 f Lf) \<and> separate t \<and> addrs (plug1 f Lf) \<inter> addrs t = {}"
  by (cases f) auto

lemma addrs_plug: "addrs (plug fs t) = caddrs fs \<union> addrs t"
proof (induction fs arbitrary: t)
  case (Cons f fs)
  then show ?case using addrs_plug1 [of f t] by auto
qed simp

lemma separate_plug:
  "separate (plug fs t) \<longleftrightarrow> separate t \<and> cseparate fs \<and> caddrs fs \<inter> addrs t = {}"
proof (induction fs arbitrary: t)
  case (Cons f fs)
  then show ?case
    using separate_plug1 [of f t] addrs_plug1 [of f t] by auto
qed simp

text \<open>The layout of the tree around the hole, whose link is \<open>q\<close>.\<close>

fun frepr :: "(u32 \<Rightarrow> tst_node) \<Rightarrow> u32 frame \<Rightarrow> u32 \<Rightarrow> bool" where
  "frepr h (FL a c v m r) q =
     (a \<noteq> 0 \<and> nd_c (h a) = c \<and> nd_value (h a) = v \<and> nd_left (h a) = q \<and>
      repr h (nd_mid (h a)) m \<and> repr h (nd_right (h a)) r)"
| "frepr h (FM a c v l r) q =
     (a \<noteq> 0 \<and> nd_c (h a) = c \<and> nd_value (h a) = v \<and> nd_mid (h a) = q \<and>
      repr h (nd_left (h a)) l \<and> repr h (nd_right (h a)) r)"
| "frepr h (FR a c v l m) q =
     (a \<noteq> 0 \<and> nd_c (h a) = c \<and> nd_value (h a) = v \<and> nd_right (h a) = q \<and>
      repr h (nd_left (h a)) l \<and> repr h (nd_mid (h a)) m)"

fun crepr :: "(u32 \<Rightarrow> tst_node) \<Rightarrow> u32 \<Rightarrow> u32 frame list \<Rightarrow> u32 \<Rightarrow> bool" where
  "crepr h p [] q = (p = q)"
| "crepr h p (f # fs) q = (frepr h f q \<and> crepr h p fs (faddr f))"

text \<open>The parent links of the nodes on the path.\<close>

fun spine :: "(u32 \<Rightarrow> tst_node) \<Rightarrow> u32 frame list \<Rightarrow> bool" where
  "spine h [] = True"
| "spine h (f # fs) = (nd_parent (h (faddr f)) = up_addr fs \<and> spine h fs)"

lemma root_of_plug1 [simp]: "root_of (plug1 f t) = faddr f"
  by (cases f) auto

lemma repr_plug1: "repr h p (plug1 f t) \<longleftrightarrow> p = faddr f \<and> frepr h f (root_of t) \<and> repr h (root_of t) t"
  by (cases f) (auto dest: repr_root_of repr_at_root)

lemma repr_plug: "repr h p (plug fs t) \<longleftrightarrow> crepr h p fs (root_of t) \<and> repr h (root_of t) t"
proof (induction fs arbitrary: t)
  case Nil
  then show ?case by (auto dest: repr_root_of)
next
  case (Cons f fs)
  then show ?case by (auto simp: repr_plug1)
qed

lemma faddr_in: "faddr f \<in> addrs (plug1 f t)"
  by (cases f) auto

lemma frepr_agree: "\<forall>a \<in> addrs (plug1 f Lf). h' a = h a \<Longrightarrow> frepr h' f q = frepr h f q"
  by (cases f) (simp_all add: repr_agree [of _ h' h] ball_Un)

lemma crepr_agree: "\<forall>a \<in> caddrs fs. h' a = h a \<Longrightarrow> crepr h' p fs q = crepr h p fs q"
  by (induction fs arbitrary: q) (simp_all add: frepr_agree [of _ h' h] ball_Un)

lemma spine_agree:
  "\<forall>a \<in> caddrs fs. nd_parent (h' a) = nd_parent (h a) \<Longrightarrow> spine h' fs = spine h fs"
proof (induction fs)
  case (Cons f fs)
  then show ?case using faddr_in [of f Lf] by auto
qed simp

text \<open>A write of a parent link does not change which tree is laid out.\<close>

lemma repr_parent [simp]: "repr (h(b := (h b)\<lparr>nd_parent := x\<rparr>)) p t = repr h p t"
  by (induction t arbitrary: p) auto

lemma frepr_parent [simp]: "frepr (h(b := (h b)\<lparr>nd_parent := x\<rparr>)) f q = frepr h f q"
  by (cases f) auto

lemma crepr_parent [simp]: "crepr (h(b := (h b)\<lparr>nd_parent := x\<rparr>)) p fs q = crepr h p fs q"
  by (induction fs arbitrary: q) auto

section \<open>Taking out a node\<close>

fun rightmost :: "u32 tst \<Rightarrow> u32" where
  "rightmost Lf = 0"
| "rightmost (Br a c v l m r) = (if r = Lf then a else rightmost r)"

lemma rightmost_in: "t \<noteq> Lf \<Longrightarrow> rightmost t \<in> addrs t"
  by (induction t) auto

lemma addrs_hang [simp]: "addrs (hang l r) = addrs l \<union> addrs r"
  by (induction l) auto

lemma separate_hang:
  "separate l \<Longrightarrow> separate r \<Longrightarrow> addrs l \<inter> addrs r = {} \<Longrightarrow> separate (hang l r)"
  by (induction l) auto

lemma root_of_hang: "root_of (hang l r) = (if l = Lf then root_of r else root_of l)"
  by (cases l) auto

lemma find_max_ok:
  "repr (db_data db) p l \<Longrightarrow> l \<noteq> Lf \<Longrightarrow> addrs l \<subseteq> A \<Longrightarrow> heap_inv db fs A \<Longrightarrow>
   find_max db p = ret (rightmost l)"
proof (induction l arbitrary: p)
  case (Br a c v l m r)
  then show ?case
    by (subst find_max.simps) (auto simp: repr_link_0)
qed simp

lemma repr_hang:
  "repr h p l \<Longrightarrow> l \<noteq> Lf \<Longrightarrow> separate l \<Longrightarrow> addrs l \<inter> addrs r = {} \<Longrightarrow> repr h q r \<Longrightarrow>
   repr (h(rightmost l := (h (rightmost l))\<lparr>nd_right := q\<rparr>)) p (hang l r)"
proof (induction l arbitrary: p)
  case (Br a c v l m x)
  show ?case
  proof (cases "x = Lf")
    case True
    then have "rightmost (Br a c v l m x) = a" by simp
    with Br.prems True show ?thesis
      by (auto simp: repr_upd [unfolded fun_upd_def] simp del: rightmost.simps)
  next
    case False
    then have x: "rightmost x \<in> addrs x" by (rule rightmost_in)
    then have notin: "rightmost x \<noteq> a" "rightmost x \<notin> addrs l" "rightmost x \<notin> addrs m"
      using Br.prems by auto
    have "repr (h(rightmost x := (h (rightmost x))\<lparr>nd_right := q\<rparr>)) (nd_right (h a)) (hang x r)"
      by (rule Br.IH(3)) (use Br.prems False in auto)
    moreover have "rightmost (Br a c v l m x) = rightmost x"
      using False by simp
    ultimately show ?thesis
      using Br.prems notin by (simp del: rightmost.simps fun_upd_apply add: fun_upd_other)
  qed
qed simp

text \<open>
  \<open>remove_node\<close> joins the two subtrees of the node, frees it, and returns the link to what
  takes its place. It writes no parent link.
\<close>

lemma remove_node_ok:
  assumes rep: "repr (db_data db) a (Br a c v l Lf r)" and sep: "separate (Br a c v l Lf r)"
    and sub: "addrs (Br a c v l Lf r) \<subseteq> A" and inv: "heap_inv db fs A"
  obtains db' where "remove_node db a = ret (db', root_of (hang l r))"
    and "repr (db_data db') (root_of (hang l r)) (hang l r)"
    and "heap_inv db' (a # fs) (A - {a})"
    and "\<forall>b \<in> A - {a} - addrs l. db_data db' b = db_data db b"
    and "\<forall>b. nd_parent (db_data db' b) = nd_parent (db_data db b)"
    and "db_data db' 0 = db_data db 0" and "db_root db' = db_root db"
proof -
  let ?h = "db_data db" and ?n = "(db_data db a)\<lparr>nd_mid := db_f_head db, nd_value := 0\<rparr>"
  let ?db = "db\<lparr>db_data := ?h(a := ?n), db_f_head := a\<rparr>"
  have a: "a \<in> A" "a \<noteq> 0" and l: "repr ?h (nd_left (?h a)) l" and r: "repr ?h (nd_right (?h a)) r"
    using rep sub by auto
  have inv': "heap_inv ?db (a # fs) (A - {a})"
    by (rule free_node_ok(2) [OF inv a(1)])
  have l': "repr (?h(a := ?n)) (nd_left (?h a)) l" and r': "repr (?h(a := ?n)) (nd_right (?h a)) r"
    using l r sep by auto
  have links: "nd_left (?h a) = root_of l" "nd_right (?h a) = root_of r"
    using l r by (auto dest: repr_root_of)
  show thesis
  proof (cases "l \<noteq> Lf \<and> r \<noteq> Lf")
    case False
    then have "remove_node db a = ret (?db, root_of (hang l r))"
      using a inv free_node_ok(1) [OF inv a(1)] repr_link_0 [OF l] repr_link_0 [OF r] links
      by (auto simp: remove_node_def Let_def root_of_hang word_gt_0)
    moreover have "repr (db_data ?db) (root_of (hang l r)) (hang l r)"
      using False l' r' links by (auto simp: root_of_hang)
    ultimately show thesis
      using that [of ?db] inv' a by (auto simp del: fun_upd_apply) (auto)
  next
    case True
    let ?x = "rightmost l"
    have x: "?x \<in> addrs l"
      using True rightmost_in by blast
    then have x': "?x \<in> A - {a}" "?x \<noteq> 0" "?x \<noteq> a"
      using sub sep repr_addrs_nonzero [OF rep] by auto
    let ?db' = "?db\<lparr>db_data := (db_data ?db)(?x := (db_data ?db ?x)\<lparr>nd_right := nd_right (?h a)\<rparr>)\<rparr>"
    have fm: "find_max ?db (nd_left (?h a)) = ret ?x"
      by (rule find_max_ok [OF _ _ _ inv']) (use l' True sub sep in auto)
    have "remove_node db a = ret (?db', root_of (hang l r))"
      using a inv free_node_ok(1) [OF inv a(1)] repr_link_0 [OF l] repr_link_0 [OF r] links True fm
        set_node_in_use [OF inv' x'(1)]
      by (simp add: remove_node_def Let_def root_of_hang)
    moreover have "repr (db_data ?db') (root_of (hang l r)) (hang l r)"
      using repr_hang [OF l' _ _ _ r'] True sep links by (auto simp: root_of_hang)
    moreover have "heap_inv ?db' (a # fs) (A - {a})"
      by (rule heap_inv_write [OF inv' x'(1)])
    ultimately show thesis
      using that [of ?db'] x x' a by auto
  qed
qed

text \<open>The write of the link a frame's hole is reached by.\<close>

fun flink :: "'a frame \<Rightarrow> u32 \<Rightarrow> tst_node \<Rightarrow> tst_node" where
  "flink (FL a c v m r) x n = n\<lparr>nd_left := x\<rparr>"
| "flink (FM a c v l r) x n = n\<lparr>nd_mid := x\<rparr>"
| "flink (FR a c v l m) x n = n\<lparr>nd_right := x\<rparr>"

lemma nd_parent_flink [simp]: "nd_parent (flink f x n) = nd_parent n"
  by (cases f) auto

lemma frepr_flink:
  assumes "frepr h f q" and "separate (plug1 f Lf)"
  shows "frepr (h(faddr f := flink f x (h (faddr f)))) f x"
  using assms by (cases f) auto

text \<open>The branch the loop takes is the one for the link the node hangs on.\<close>

lemma unlink_node_frame:
  assumes f: "frepr (db_data db) f a" and a: "a \<noteq> 0" "a \<notin> addrs (plug1 f Lf)"
    and get: "get_node db (faddr f) = ret (db_data db (faddr f))"
    and rem: "remove_node db a = ret (db1, x)"
    and set1: "\<And>g. set_node db1 (faddr f) g =
      ret (db1\<lparr>db_data := (db_data db1)(faddr f := g (db_data db1 (faddr f)))\<rparr>)"
  shows "unlink_node db a (faddr f) =
    (let db2 = db1\<lparr>db_data := (db_data db1)(faddr f := flink f x (db_data db1 (faddr f)))\<rparr> in
     if x \<noteq> 0 then set_node db2 x (\<lambda>n. n\<lparr>nd_parent := faddr f\<rparr>) else ret db2)"
proof -
  have ne: "repr (db_data db) q t \<Longrightarrow> a \<notin> addrs t \<Longrightarrow> q \<noteq> a" for q t
    using a(1) by (cases t) auto
  show ?thesis
    using assms by (cases f) (auto simp: unlink_node_def Let_def word_gt_0 dest: ne)
qed

text \<open>
  One turn of the loop at a node that goes: the tree loses the node, the path above it and its
  parent links stay.
\<close>

lemma unlink_node_ok:
  assumes rep: "repr (db_data db) (db_root db) (plug fs (Br a c 0 l Lf r))"
    and sep: "separate (plug fs (Br a c 0 l Lf r))"
    and inv: "heap_inv db fl (addrs (plug fs (Br a c 0 l Lf r)))"
  obtains db' where "unlink_node db a (up_addr fs) = ret db'"
    and "repr (db_data db') (db_root db') (plug fs (hang l r))"
    and "separate (plug fs (hang l r))"
    and "heap_inv db' (a # fl) (addrs (plug fs (hang l r)))"
    and "\<forall>b. b \<noteq> root_of (hang l r) \<longrightarrow> nd_parent (db_data db' b) = nd_parent (db_data db b)"
    and "hang l r \<noteq> Lf \<longrightarrow> nd_parent (db_data db' (root_of (hang l r))) = up_addr fs"
    and "nd_value (db_data db' 0) = nd_value (db_data db 0)"
proof -
  let ?t = "Br a c 0 l Lf r" and ?t' = "hang l r"
  let ?A = "addrs (plug fs ?t)"
  have t: "repr (db_data db) a ?t" and st: "separate ?t" and At: "addrs ?t \<subseteq> ?A"
    and cr: "crepr (db_data db) (db_root db) fs a"
    and cs: "cseparate fs" "caddrs fs \<inter> addrs ?t = {}"
    using rep sep by (auto simp: repr_plug separate_plug addrs_plug)
  obtain db1 where R: "remove_node db a = ret (db1, root_of ?t')"
    "repr (db_data db1) (root_of ?t') ?t'" "heap_inv db1 (a # fl) (?A - {a})"
    "\<forall>b \<in> ?A - {a} - addrs l. db_data db1 b = db_data db b"
    "\<forall>b. nd_parent (db_data db1 b) = nd_parent (db_data db b)"
    "db_data db1 0 = db_data db 0" "db_root db1 = db_root db"
    by (rule remove_node_ok [OF t st At inv])
  have A': "?A - {a} = addrs (plug fs ?t')"
    using st cs(2) by (auto simp: addrs_plug)
  have st': "separate (plug fs ?t')"
    using sep by (auto simp: separate_plug intro: separate_hang)
  have agree: "\<forall>b \<in> caddrs fs. db_data db1 b = db_data db b"
    using R(4) cs(2) by (auto simp: addrs_plug)
  have x0: "root_of ?t' = 0 \<longleftrightarrow> ?t' = Lf"
    using repr_link_0 [OF R(2)] .
  have xin: "?t' \<noteq> Lf \<Longrightarrow> root_of ?t' \<in> ?A - {a}"
    unfolding A' by (cases ?t') (auto simp: addrs_plug)
  show thesis
  proof (cases fs)
    case Nil
    let ?db = "db1\<lparr>db_root := root_of ?t',
      db_data := (db_data db1)(root_of ?t' := (db_data db1 (root_of ?t'))\<lparr>nd_parent := 0\<rparr>)\<rparr>"
    have "root_of ?t' < db_cap db1"
      using xin x0 heap_inv_in_use(1) [OF R(3)] heap_inv_zero_cap [OF R(3)] by (cases "?t' = Lf") auto
    then have "unlink_node db a (up_addr fs) = ret ?db"
      using R(1) Nil by (simp add: unlink_node_def set_node_def Let_def)
    moreover have "heap_inv ?db (a # fl) (addrs (plug fs ?t'))"
    proof (cases "?t' = Lf")
      case True
      have "heap_inv (db1\<lparr>db_root := root_of ?t'\<rparr>) (a # fl) (?A - {a})"
        using R(3) by simp
      from heap_inv_write_0 [OF this, of "(db_data db1 0)\<lparr>nd_parent := 0\<rparr>"] True show ?thesis
        unfolding A' by simp
    next
      case False
      then show ?thesis
        using heap_inv_write [OF R(3) xin [OF False]] unfolding A' by (simp add: heap_inv_def)
    qed
    ultimately show thesis
      using that [of ?db] R Nil st' x0 by auto
  next
    case (Cons f fs')
    have fr: "frepr (db_data db) f a" and cr': "crepr (db_data db) (db_root db) fs' (faddr f)"
      and sf: "separate (plug1 f Lf)" "addrs (plug1 f Lf) \<inter> caddrs fs' = {}"
      and af: "a \<notin> addrs (plug1 f Lf)"
      using cr cs Cons by auto
    have fa: "faddr f \<in> ?A - {a}" "faddr f \<in> ?A" "faddr f \<notin> caddrs fs'"
      using Cons af faddr_in [of f] sf(2) by (auto simp: addrs_plug disjoint_iff)
    have "faddr f \<in> caddrs fs"
      using Cons faddr_in [of f Lf] by auto
    then have ft: "faddr f \<notin> addrs ?t'"
      using st' by (auto simp: separate_plug disjoint_iff)
    have "faddr f \<noteq> root_of ?t'"
    proof (cases "?t' = Lf")
      case True
      then show ?thesis
        using heap_inv_in_use(2) [OF R(3) fa(1)] by simp
    next
      case False
      then have "root_of ?t' \<in> addrs ?t'"
        by (cases ?t') auto
      then show ?thesis using ft by metis
    qed
    note ft = ft this
    define h2 where "h2 = (db_data db1)(faddr f := flink f (root_of ?t') (db_data db1 (faddr f)))"
    define h where
      "h = (if ?t' = Lf then h2 else h2(root_of ?t' := (h2 (root_of ?t'))\<lparr>nd_parent := faddr f\<rparr>))"
    let ?db = "db1\<lparr>db_data := h\<rparr>"
    have inv2: "heap_inv (db1\<lparr>db_data := h2\<rparr>) (a # fl) (?A - {a})"
      unfolding h2_def by (rule heap_inv_write [OF R(3) fa(1)])
    have fr1: "frepr (db_data db1) f a"
      using fr agree Cons frepr_agree [of f "db_data db1" "db_data db"] by auto
    have "crepr (db_data db1) (db_root db) fs' (faddr f)"
      using cr' agree Cons crepr_agree [of fs' "db_data db1" "db_data db"] by auto
    then have "crepr h2 (db_root db) fs' (faddr f)"
      using fa(3) crepr_agree [of fs' h2 "db_data db1"] unfolding h2_def by (metis fun_upd_other)
    moreover have "frepr h2 f (root_of ?t')"
      unfolding h2_def by (rule frepr_flink [OF fr1 sf(1)])
    moreover have "repr h2 (root_of ?t') ?t'"
      using R(2) ft(1) unfolding h2_def by simp
    ultimately have "repr h2 (db_root db) (plug fs ?t')"
      using Cons by (simp add: repr_plug repr_plug1)
    then have rep2: "repr h (db_root db) (plug fs ?t')"
      unfolding h_def by (cases "?t' = Lf") auto
    have "unlink_node db a (faddr f) = ret ?db"
      using unlink_node_frame [OF fr _ af get_node_in_use [OF inv fa(2)] R(1) set_node_in_use [OF R(3) fa(1)]]
        set_node_in_use [OF inv2] xin x0 t by (simp add: Let_def h_def flip: h2_def)
    moreover have "heap_inv ?db (a # fl) (addrs (plug fs ?t'))"
      using inv2 heap_inv_write [OF inv2 xin] unfolding A' h_def by (cases "?t' = Lf") auto
    moreover have par: "nd_parent (h2 b) = nd_parent (db_data db b)" for b
      using R(5) by (simp add: h2_def)
    moreover have "h 0 = db_data db 0"
      using R(6) fa(2) xin heap_inv_in_use(2) [OF inv] unfolding h_def h2_def by auto
    ultimately show thesis
      using that [of ?db] rep2 st' R(7) Cons by (simp add: h_def)
  qed
qed

section \<open>The climb\<close>

text \<open>\<open>lone t ks\<close>: no node that deleting \<open>ks\<close> takes out has two children.\<close>

fun lone_root :: "'a tst \<Rightarrow> bool" where
  "lone_root Lf = True"
| "lone_root (Br a c v l m r) = (m = Lf \<and> v = 0 \<longrightarrow> l = Lf \<or> r = Lf)"

fun climb_lone :: "'a frame list \<Rightarrow> 'a tst \<Rightarrow> bool" where
  "climb_lone [] t = True"
| "climb_lone (f # fs) t = (lone_root (plug1 f t) \<and> climb_lone fs (prune (plug1 f t)))"

definition lone :: "'a tst \<Rightarrow> cstr \<Rightarrow> bool" where
  "lone t ks \<longleftrightarrow>
     (found t ks \<longrightarrow> lone_root (clear (sub t ks)) \<and>
        climb_lone (zip_path t ks []) (prune (clear (sub t ks))))"

text \<open>The parent links beside the path.\<close>

fun fparents :: "(u32 \<Rightarrow> tst_node) \<Rightarrow> u32 frame \<Rightarrow> bool" where
  "fparents h (FL a c v m r) = (parents h a m \<and> parents h a r)"
| "fparents h (FM a c v l r) = (parents h a l \<and> parents h a r)"
| "fparents h (FR a c v l m) = (parents h a l \<and> parents h a m)"

lemma parents_plug1:
  "parents h q (plug1 f t) \<longleftrightarrow>
     nd_parent (h (faddr f)) = q \<and> fparents h f \<and> parents h (faddr f) t"
  by (cases f) auto

lemma parents_plug:
  "parents h 0 (plug fs t) \<longleftrightarrow> list_all (fparents h) fs \<and> spine h fs \<and> parents h (up_addr fs) t"
  by (induction fs arbitrary: t) (auto simp: parents_plug1)

lemma fparents_agree:
  "\<forall>a \<in> addrs (plug1 f Lf). nd_parent (h' a) = nd_parent (h a) \<Longrightarrow> fparents h' f = fparents h f"
  by (cases f) (simp_all add: parents_agree [of _ h' h] ball_Un)

lemma fparents_all_agree:
  "\<forall>a \<in> caddrs fs. nd_parent (h' a) = nd_parent (h a) \<Longrightarrow>
   list_all (fparents h') fs = list_all (fparents h) fs"
  by (induction fs) (simp_all add: fparents_agree [of _ h' h] ball_Un)

text \<open>One turn of the loop, whether the node goes or stays.\<close>

lemma climb_turn:
  assumes rep: "repr (db_data db) (db_root db) (plug fs t)" and sep: "separate (plug fs t)"
    and inv: "heap_inv db fl (addrs (plug fs t))" and t: "t \<noteq> Lf"
    and par: "nd_parent (db_data db (root_of t)) = up_addr fs" and sp: "spine (db_data db) fs"
  obtains db1 fl1 where "delete_climb db (root_of t) = delete_climb db1 (up_addr fs)"
    and "repr (db_data db1) (db_root db1) (plug fs (prune t))" and "separate (plug fs (prune t))"
    and "heap_inv db1 fl1 (addrs (plug fs (prune t)))" and "spine (db_data db1) fs"
    and "nd_value (db_data db1 0) = nd_value (db_data db 0)"
    and "parents (db_data db) 0 (plug fs t) \<Longrightarrow> lone_root t \<Longrightarrow>
      parents (db_data db1) 0 (plug fs (prune t))"
proof -
  obtain a c v l m r where T: "t = Br a c v l m r"
    using t by (cases t) auto
  have at: "repr (db_data db) a t" "a \<noteq> 0" "a \<in> addrs (plug fs t)"
    using rep T by (auto simp: repr_plug addrs_plug)
  have nd: "nd_mid (db_data db a) = 0 \<longleftrightarrow> m = Lf" "nd_value (db_data db a) = v"
    "nd_parent (db_data db a) = up_addr fs"
    using at(1) T par repr_link_0 by auto
  have step: "delete_climb db a =
    run_bind (if m = Lf \<and> v = 0 then unlink_node db a (up_addr fs) else ret db)
      (\<lambda>db. delete_climb db (up_addr fs))"
    using at(2,3) nd get_node_in_use [OF inv at(3)]
    by (subst delete_climb.simps) (simp add: Let_def)
  show thesis
  proof (cases "m = Lf \<and> v = 0")
    case False
    then have "prune t = t" using T by auto
    then show thesis
      using that [of db fl] step rep sep inv sp False T by simp
  next
    case True
    then have pt: "prune t = hang l r" and T': "t = Br a c 0 l Lf r"
      using T by auto
    obtain db1 where U: "unlink_node db a (up_addr fs) = ret db1"
      "repr (db_data db1) (db_root db1) (plug fs (hang l r))" "separate (plug fs (hang l r))"
      "heap_inv db1 (a # fl) (addrs (plug fs (hang l r)))"
      "\<forall>b. b \<noteq> root_of (hang l r) \<longrightarrow> nd_parent (db_data db1 b) = nd_parent (db_data db b)"
      "hang l r \<noteq> Lf \<longrightarrow> nd_parent (db_data db1 (root_of (hang l r))) = up_addr fs"
      "nd_value (db_data db1 0) = nd_value (db_data db 0)"
      by (rule unlink_node_ok [OF rep [unfolded T'] sep [unfolded T'] inv [unfolded T']])
    have "root_of (hang l r) \<notin> caddrs fs"
    proof (cases "hang l r")
      case Lf
      then show ?thesis
        using repr_addrs_nonzero [OF U(2)] by (simp add: addrs_plug)
    next
      case Br
      then show ?thesis
        using U(3) by (auto simp: separate_plug)
    qed
    then have ag: "\<forall>b \<in> caddrs fs. nd_parent (db_data db1 b) = nd_parent (db_data db b)"
      using U(5) by metis
    have "parents (db_data db1) (up_addr fs) (hang l r)"
      if pt0: "parents (db_data db) (up_addr fs) t" and one: "l = Lf \<or> r = Lf"
    proof -
      have lr: "hang l r = l \<or> hang l r = r"
        using one by auto
      obtain u where u: "hang l r = u" "parents (db_data db) a u" "separate u"
        using lr pt0 T' sep by (auto simp: separate_plug)
      show ?thesis
      proof (cases u)
        case (Br b c' v' l' m' r')
        then have "\<forall>x \<in> addrs l' \<union> addrs m' \<union> addrs r'.
          nd_parent (db_data db1 x) = nd_parent (db_data db x)"
          using u(1,3) U(5) by auto
        with Br u U(6) show ?thesis
          by (simp add: ball_Un parents_agree [of _ "db_data db1" "db_data db"])
      qed (use u in simp)
    qed
    then show thesis
      using that [of db1 "a # fl"] step True U pt T' spine_agree [OF ag] fparents_all_agree [OF ag] sp
      by (auto simp: parents_plug)
  qed
qed

lemma delete_climb_ok:
  assumes "repr (db_data db) (db_root db) (plug fs t)" and "separate (plug fs t)"
    and "heap_inv db fl (addrs (plug fs t))" and "t \<noteq> Lf"
    and "nd_parent (db_data db (root_of t)) = up_addr fs" and "spine (db_data db) fs"
  shows "\<exists>db' fl'. delete_climb db (root_of t) = ret db' \<and>
    repr (db_data db') (db_root db') (climb_up fs (prune t)) \<and>
    separate (climb_up fs (prune t)) \<and> heap_inv db' fl' (addrs (climb_up fs (prune t))) \<and>
    nd_value (db_data db' 0) = nd_value (db_data db 0) \<and>
    (parents (db_data db) 0 (plug fs t) \<and> lone_root t \<and> climb_lone fs (prune t) \<longrightarrow>
       parents (db_data db') 0 (climb_up fs (prune t)))"
  using assms
proof (induction fs arbitrary: db t fl)
  case Nil
  show ?case
    by (rule climb_turn [OF Nil.prems]) (auto simp: delete_climb.simps)
next
  case (Cons f fs)
  obtain db1 fl1 where D: "delete_climb db (root_of t) = delete_climb db1 (up_addr (f # fs))"
    "repr (db_data db1) (db_root db1) (plug (f # fs) (prune t))" "separate (plug (f # fs) (prune t))"
    "heap_inv db1 fl1 (addrs (plug (f # fs) (prune t)))" "spine (db_data db1) (f # fs)"
    "nd_value (db_data db1 0) = nd_value (db_data db 0)"
    "parents (db_data db) 0 (plug (f # fs) t) \<Longrightarrow> lone_root t \<Longrightarrow>
      parents (db_data db1) 0 (plug (f # fs) (prune t))"
    using climb_turn [OF Cons.prems] by metis
  have "plug1 f (prune t) \<noteq> Lf"
    by (cases f) auto
  then show ?case
    using Cons.IH [of db1 "plug1 f (prune t)" fl1] D by auto
qed

section \<open>Correctness of \<open>tst_delete\<close>\<close>

lemma spine_zip_path:
  "spine h fs \<Longrightarrow> parents h (up_addr fs) t \<Longrightarrow> found t ks \<Longrightarrow>
   spine h (zip_path t ks fs) \<and> nd_parent (h (root_of (sub t ks))) = up_addr (zip_path t ks fs)"
  by (induction t ks fs rule: zip_path.induct) auto

lemma tst_delete_ok:
  assumes sound: "tst_sound db t fs"
  obtains db' fs' where "tst_delete db key = ret db'" and "tst_inv db' (delete_key t key) fs'"
    and "lone t key \<longrightarrow> tst_sound db' (delete_key t key) fs'"
proof (cases "found t key")
  case False
  then have "root_of (sub t key) = 0"
    by (simp add: found_sub)
  then have "tst_delete db key = ret db"
    using sound search_loop_ok [of db "db_root db" t "addrs t" fs 0 key key]
    by (cases "key = []") (auto simp: tst_delete_def tst_sound_def tst_inv_def delete_climb.simps)
  then show thesis
    using that [of db fs] sound False by (simp add: delete_key_def tst_sound_def)
next
  case True
  note I = sound [unfolded tst_sound_def tst_inv_def]
  let ?a = "root_of (sub t key)" and ?fs = "zip_path t key []"
  obtain a c v l m r where S: "sub t key = Br a c v l m r"
    using True by (cases "sub t key") (auto simp: found_sub)
  have key: "key \<noteq> []" using True by auto
  have P: "plug ?fs (sub t key) = t"
    using plug_zip_path [OF True, of "[]"] by simp
  let ?db = "db\<lparr>db_data := (db_data db)(a := (db_data db a)\<lparr>nd_value := 0\<rparr>)\<rparr>"
  have a: "a \<in> addrs t" "a \<noteq> 0"
    using addrs_sub [of t key] S I repr_addrs_nonzero by auto
  have ac: "a \<notin> caddrs ?fs" and sep: "separate (plug ?fs (clear (sub t key)))"
    using I S P separate_plug [of ?fs "sub t key"] by (auto simp: separate_plug)
  have addrs: "addrs (plug ?fs (clear (sub t key))) = addrs t"
    using P S addrs_plug [of ?fs "sub t key"] by (simp add: addrs_plug)
  have cr: "crepr (db_data db) (db_root db) ?fs a" and ra: "repr (db_data db) a (sub t key)"
    using I P S repr_plug [of "db_data db" "db_root db" ?fs "sub t key"] by auto
  have rep: "repr (db_data ?db) (db_root ?db) (plug ?fs (clear (sub t key)))"
    using cr ra S sep crepr_agree [of ?fs "db_data ?db" "db_data db"] ac
    by (auto simp: repr_plug separate_plug)
  have inv: "heap_inv ?db fs (addrs (plug ?fs (clear (sub t key))))"
    unfolding addrs using I a by simp
  have "spine (db_data db) ?fs \<and> nd_parent (db_data db a) = up_addr ?fs"
    using spine_zip_path [of "db_data db" "[]" t key] I True S by simp
  then have sp: "spine (db_data ?db) ?fs" "nd_parent (db_data ?db a) = up_addr ?fs"
    using spine_agree [of ?fs "db_data ?db" "db_data db"] by auto
  have up: "climb_up ?fs (prune (clear (sub t key))) = delete_key t key"
    using climb_up_zip_path [OF True, of "[]"] True by (simp add: delete_key_def)
  have cl: "clear (sub t key) \<noteq> Lf" "root_of (clear (sub t key)) = a"
    using S by auto
  obtain db' fl' where D: "delete_climb ?db a = ret db'"
    "repr (db_data db') (db_root db') (delete_key t key)"
    "separate (delete_key t key)" "heap_inv db' fl' (addrs (delete_key t key))"
    "nd_value (db_data db' 0) = nd_value (db_data ?db 0)"
    "parents (db_data ?db) 0 (plug ?fs (clear (sub t key))) \<and> lone_root (clear (sub t key)) \<and>
       climb_lone ?fs (prune (clear (sub t key))) \<longrightarrow> parents (db_data db') 0 (delete_key t key)"
    using delete_climb_ok [OF rep sep inv cl(1)] cl sp up by auto
  have "tst_delete db key = ret db'"
    using I D(1) S search_loop_ok [of db "db_root db" t "addrs t" fs 0 key key] key a
      set_node_in_use [of db fs "addrs t" a]
    by (simp add: tst_delete_def)
  moreover have T: "tst_inv db' (delete_key t key) fl'"
    using D I a by (auto simp: tst_inv_def bst_delete_key all_chars_delete_key)
  moreover have "parents (db_data ?db) 0 (plug ?fs (clear (sub t key)))"
  proof -
    have "parents (db_data db) 0 (plug ?fs (clear (sub t key)))"
      using I P S parents_plug [of "db_data db" ?fs "sub t key"] by (auto simp: parents_plug)
    then show ?thesis
      using parents_agree [of _ "db_data ?db" "db_data db"] by auto
  qed
  then have "lone t key \<longrightarrow> tst_sound db' (delete_key t key) fl'"
    using D(6) T True by (simp add: lone_def tst_sound_def)
  ultimately show thesis
    using that by blast
qed

end
