(* ===== verification/Index.thy ===== *)
theory Index
  imports Tst_Delete
begin

text \<open>
  What the server relies on when it uses the index of \<open>v2/src/tst.c\<close>: a map from keys to
  64-bit values in which 0 means absent. The contract is stated as locales, what follows from it
  for a sequence of calls is proved once inside them, and the operations of the node array are
  shown to meet it. The last section shows where the array does not: a removal of a node with two
  children leaves a wrong parent link, and a fresh array answers for absent keys with memory that
  was never cleared.
\<close>

section \<open>The contract\<close>

datatype tst_op = Put cstr u64 | Del cstr

text \<open>The map an index stands for.\<close>

definition view :: "('s \<Rightarrow> cstr \<Rightarrow> u64 run) \<Rightarrow> 's \<Rightarrow> cstr \<Rightarrow> u64" where
  "view get s k = (case get s k of Some (Inr v) \<Rightarrow> v | _ \<Rightarrow> 0)"

fun apply_op :: "(cstr \<Rightarrow> u64) \<Rightarrow> tst_op \<Rightarrow> (cstr \<Rightarrow> u64)" where
  "apply_op f (Put k v) = f(k := v)"
| "apply_op f (Del k) = f(k := 0)"

definition apply_ops :: "(cstr \<Rightarrow> u64) \<Rightarrow> tst_op list \<Rightarrow> (cstr \<Rightarrow> u64)" where
  "apply_ops = foldl apply_op"

text \<open>The keys a client may put: not empty, and C strings.\<close>

fun op_ok :: "tst_op \<Rightarrow> bool" where
  "op_ok (Put k v) = (k \<noteq> [] \<and> 0 \<notin> set k)"
| "op_ok (Del k) = True"

fun op_room :: "tst_op \<Rightarrow> nat" where
  "op_room (Put k v) = length k"
| "op_room (Del k) = 0"

fun run_op :: "('s \<Rightarrow> cstr \<Rightarrow> u64 \<Rightarrow> 's run) \<Rightarrow> ('s \<Rightarrow> cstr \<Rightarrow> 's run) \<Rightarrow> 's \<Rightarrow> tst_op \<Rightarrow> 's run" where
  "run_op put rem s (Put k v) = put s k v"
| "run_op put rem s (Del k) = rem s k"

fun run_ops :: "('s \<Rightarrow> cstr \<Rightarrow> u64 \<Rightarrow> 's run) \<Rightarrow> ('s \<Rightarrow> cstr \<Rightarrow> 's run) \<Rightarrow> 's \<Rightarrow> tst_op list \<Rightarrow> 's run" where
  "run_ops put rem s [] = ret s"
| "run_ops put rem s (p # ps) = run_bind (run_op put rem s p) (\<lambda>s. run_ops put rem s ps)"

text \<open>\<open>clean s k\<close>: deleting \<open>k\<close> in \<open>s\<close> is harmless for later deletions.\<close>

fun clean_run :: "('s \<Rightarrow> cstr \<Rightarrow> u64 \<Rightarrow> 's run) \<Rightarrow> ('s \<Rightarrow> cstr \<Rightarrow> 's run) \<Rightarrow>
    ('s \<Rightarrow> cstr \<Rightarrow> bool) \<Rightarrow> 's \<Rightarrow> tst_op list \<Rightarrow> bool" where
  "clean_run put rem clean s [] = True"
| "clean_run put rem clean s (p # ps) =
     ((case p of Put k v \<Rightarrow> True | Del k \<Rightarrow> clean s k) \<and>
      (case run_op put rem s p of Some (Inr s') \<Rightarrow> clean_run put rem clean s' ps | _ \<Rightarrow> True))"

lemma apply_ops_simps [simp]:
  "apply_ops f [] = f" "apply_ops f (p # ps) = apply_ops (apply_op f p) ps"
  by (simp_all add: apply_ops_def)

lemma view_ret: "get s k = ret v \<Longrightarrow> view get s k = v"
  by (simp add: view_def)

lemma run_ops_append:
  "run_ops put rem s (ps @ qs) = run_bind (run_ops put rem s ps) (\<lambda>s. run_ops put rem s qs)"
  by (induction ps arbitrary: s) (simp_all add: run_bind_assoc)

locale index_reader =
  fixes wf :: "'s \<Rightarrow> bool"
    and get :: "'s \<Rightarrow> cstr \<Rightarrow> u64 run"
  assumes get_returns: "wf s \<Longrightarrow> \<exists>v. get s k = ret v"
begin

lemma get_view: "wf s \<Longrightarrow> get s k = ret (view get s k)"
  using get_returns [of s k] by (auto simp: view_def)

end

locale index = index_reader wf get
  for wf :: "'s \<Rightarrow> bool" and get +
  fixes linked :: "'s \<Rightarrow> bool"
    and fits :: "'s \<Rightarrow> nat \<Rightarrow> bool"
    and put :: "'s \<Rightarrow> cstr \<Rightarrow> u64 \<Rightarrow> 's run"
    and rem :: "'s \<Rightarrow> cstr \<Rightarrow> 's run"
    and clean :: "'s \<Rightarrow> cstr \<Rightarrow> bool"
  assumes linked_wf: "linked s \<Longrightarrow> wf s"
    and put_law: "\<lbrakk>wf s; fits s (length k + n); k \<noteq> []; 0 \<notin> set k\<rbrakk> \<Longrightarrow>
      \<exists>s'. put s k v = ret s' \<and> wf s' \<and> view get s' = (view get s)(k := v) \<and> fits s' n \<and>
        (linked s \<longrightarrow> linked s')"
    and rem_law: "linked s \<Longrightarrow>
      \<exists>s'. rem s k = ret s' \<and> wf s' \<and> view get s' = (view get s)(k := 0) \<and>
        (\<forall>n. fits s n \<longrightarrow> fits s' n) \<and> (clean s k \<longrightarrow> linked s')"
begin

lemma run_op_ok:
  assumes "linked s" and "op_ok p" and "fits s (op_room p + n)"
    and "case p of Put k v \<Rightarrow> True | Del k \<Rightarrow> clean s k"
  obtains s' where "run_op put rem s p = ret s'" and "linked s'"
    and "view get s' = apply_op (view get s) p" and "fits s' n"
proof (cases p)
  case (Put k v)
  then show thesis
    using put_law [of s k n v] linked_wf assms that by (auto)
next
  case (Del k)
  then show thesis
    using rem_law [of s k] assms that by auto
qed

lemma run_ops_ok:
  assumes "linked s" and "list_all op_ok ps" and "fits s (sum_list (map op_room ps))"
    and "clean_run put rem clean s ps"
  shows "\<exists>s'. run_ops put rem s ps = ret s' \<and> linked s' \<and> view get s' = apply_ops (view get s) ps"
  using assms
proof (induction ps arbitrary: s)
  case Nil
  then show ?case by simp
next
  case (Cons p ps)
  then obtain s' where s': "run_op put rem s p = ret s'" "linked s'"
    "view get s' = apply_op (view get s) p" "fits s' (sum_list (map op_room ps))"
    by (elim run_op_ok [of s p "sum_list (map op_room ps)"]) auto
  with Cons.IH [of s'] Cons.prems show ?case by auto
qed

text \<open>Without deletions nothing has to be assumed of the parent links.\<close>

lemma run_puts_ok:
  assumes "wf s" and "list_all op_ok ps" and "fits s (sum_list (map op_room ps))"
    and "\<forall>p \<in> set ps. \<exists>k v. p = Put k v"
  shows "\<exists>s'. run_ops put rem s ps = ret s' \<and> wf s' \<and> view get s' = apply_ops (view get s) ps"
  using assms
proof (induction ps arbitrary: s)
  case Nil
  then show ?case by simp
next
  case (Cons p ps)
  then obtain k v where p: "p = Put k v" by auto
  then obtain s' where "put s k v = ret s'" "wf s'" "view get s' = (view get s)(k := v)"
    "fits s' (sum_list (map op_room ps))"
    using put_law [of s k "sum_list (map op_room ps)" v] Cons.prems by (auto)
  with Cons.IH [of s'] Cons.prems p show ?case by (auto simp del: fun_upd_apply)
qed

end

section \<open>Deletion keeps the size of the array\<close>

lemma set_node_size: "set_node db x f = ret db' \<Longrightarrow> db_size db' = db_size db"
  by (auto simp: set_node_def split: if_splits)

lemma remove_node_size: "remove_node db x = ret (db', y) \<Longrightarrow> db_size db' = db_size db"
  by (auto simp: remove_node_def free_node_def Let_def run_bind_eq_ret dest!: set_node_size split: if_splits)

lemma unlink_node_size: "unlink_node db x p = ret db' \<Longrightarrow> db_size db' = db_size db"
  by (auto simp: unlink_node_def Let_def run_bind_eq_ret dest!: set_node_size remove_node_size
      split: if_splits)

lemma delete_climb_size: "delete_climb db x = ret db' \<Longrightarrow> db_size db' = db_size db"
  by (drule delete_climb.raw_induct [where P = "\<lambda>db x r. \<forall>db'. r = Inr db' \<longrightarrow> db_size db' = db_size db", rotated])
    (auto simp: Let_def run_bind_eq_ret dest!: unlink_node_size split: if_splits)

lemma tst_delete_size: "tst_delete db k = ret db' \<Longrightarrow> db_size db' = db_size db"
  by (auto simp: tst_delete_def Let_def run_bind_eq_ret dest!: set_node_size delete_climb_size
      split: if_splits)

section \<open>The node array meets the contract\<close>

definition tst_wf :: "tst_db \<Rightarrow> bool" where
  "tst_wf db \<longleftrightarrow> (\<exists>t fs. tst_inv db t fs)"

definition tst_linked :: "tst_db \<Rightarrow> bool" where
  "tst_linked db \<longleftrightarrow> (\<exists>t fs. tst_sound db t fs)"

text \<open>No node with two children is taken out when \<open>k\<close> is deleted.\<close>

definition tst_clean :: "tst_db \<Rightarrow> cstr \<Rightarrow> bool" where
  "tst_clean db k \<longleftrightarrow> (\<forall>t fs. tst_inv db t fs \<longrightarrow> lone t k)"

lemma tst_view: "tst_inv db t fs \<Longrightarrow> view tst_get db = tlookup t"
  by (auto simp: view_def tst_get_ok)

interpretation node_array: index tst_wf tst_get tst_linked "room rl" "tst_put rl" tst_delete tst_clean
  for rl
proof unfold_locales
  fix s k
  assume "tst_wf s"
  then show "\<exists>v. tst_get s k = ret v"
    by (auto simp: tst_wf_def tst_get_ok)
next
  fix s
  assume "tst_linked s"
  then show "tst_wf s"
    by (auto simp: tst_linked_def tst_sound_def tst_wf_def)
next
  fix s n v and k :: cstr
  assume "tst_wf s" and r: "room rl s (length k + n)" and k: "k \<noteq> []" "0 \<notin> set k"
  then obtain t fs where I: "tst_inv s t fs"
    by (auto simp: tst_wf_def)
  have "room rl s (length k)"
    using r by (simp add: room_def)
  then obtain s' t' fs' where P: "tst_put rl s k v = ret s'" "tst_inv s' t' fs'"
    "shape t' = ins (shape t) k v" "parents (db_data s) 0 t \<longrightarrow> parents (db_data s') 0 t'"
    "unat (db_size s') \<le> unat (db_size s) + length k"
    by (rule tst_put_ok [OF I _ k(2), of rl v])
  have "view tst_get s' = (view tst_get s)(k := v)"
  proof -
    have "tlookup (shape t') = tlookup t'" "tlookup (shape t) = tlookup t"
      by auto
    then show ?thesis
      using tlookup_ins [OF k(1), of "shape t" v] unfolding P(3) tst_view [OF P(2)] tst_view [OF I]
      by simp
  qed
  moreover have "tst_linked s \<longrightarrow> tst_linked s'"
    using P(2,4) by (auto simp: tst_linked_def tst_sound_def dest: tst_inv_unique [OF I])
  ultimately show "\<exists>s'. tst_put rl s k v = ret s' \<and> tst_wf s' \<and>
      view tst_get s' = (view tst_get s)(k := v) \<and> room rl s' n \<and> (tst_linked s \<longrightarrow> tst_linked s')"
    using P r by (auto simp: tst_wf_def room_def)
next
  fix s and k :: cstr
  assume "tst_linked s"
  then obtain t fs where S: "tst_sound s t fs"
    by (auto simp: tst_linked_def)
  then have I: "tst_inv s t fs" by (simp add: tst_sound_def)
  obtain s' fs' where D: "tst_delete s k = ret s'" "tst_inv s' (delete_key t k) fs'"
    "lone t k \<longrightarrow> tst_sound s' (delete_key t k) fs'"
    by (rule tst_delete_ok [OF S])
  have "view tst_get s' = (view tst_get s)(k := 0)"
    unfolding tst_view [OF D(2)] tst_view [OF I]
    by (rule tlookup_delete_key) (use I in \<open>simp add: tst_inv_def\<close>)
  moreover have "tst_clean s k \<longrightarrow> tst_linked s'"
    using D(3) I by (auto simp: tst_clean_def tst_linked_def)
  ultimately show "\<exists>s'. tst_delete s k = ret s' \<and> tst_wf s' \<and>
      view tst_get s' = (view tst_get s)(k := 0) \<and> (\<forall>n. room rl s n \<longrightarrow> room rl s' n) \<and>
      (tst_clean s k \<longrightarrow> tst_linked s')"
    using D tst_delete_size [OF D(1)] by (auto simp: tst_wf_def room_def)
qed

section \<open>Which deletions are clean\<close>

text \<open>
  On the trees themselves the sequences without a harmful deletion can be computed; a tree does
  not depend on the slots its nodes have.
\<close>

fun clean_ops :: "unit tst \<Rightarrow> tst_op list \<Rightarrow> bool" where
  "clean_ops t [] = True"
| "clean_ops t (Put k v # ps) = clean_ops (ins t k v) ps"
| "clean_ops t (Del k # ps) = (lone t k \<and> clean_ops (delete_key t k) ps)"

definition frame_shape :: "'a frame \<Rightarrow> unit frame" where
  "frame_shape f = map_frame (\<lambda>_. ()) f"

lemma frame_shape_simps [simp]:
  "frame_shape (FL a c v m r) = FL () c v (shape m) (shape r)"
  "frame_shape (FM a c v l r) = FM () c v (shape l) (shape r)"
  "frame_shape (FR a c v l m) = FR () c v (shape l) (shape m)"
  by (simp_all add: frame_shape_def shape_def)

lemma shape_plug1 [simp]: "shape (plug1 f t) = plug1 (frame_shape f) (shape t)"
  by (cases f) auto

lemma shape_hang [simp]: "shape (hang l r) = hang (shape l) (shape r)"
  by (induction l) auto

lemma shape_prune [simp]: "shape (prune t) = prune (shape t)"
  by (cases t) auto

lemma shape_clear [simp]: "shape (clear t) = clear (shape t)"
  by (cases t) auto

lemma shape_sub [simp]: "shape (sub t ks) = sub (shape t) ks"
  by (induction t ks rule: sub.induct) auto

lemma found_shape [simp]: "found (shape t) ks = found t ks"
  by (induction t ks rule: found.induct) auto

lemma shape_del [simp]: "shape (del t ks) = del (shape t) ks"
  by (induction t ks rule: del.induct) auto

lemma shape_delete_key [simp]: "shape (delete_key t ks) = delete_key (shape t) ks"
  by (simp add: delete_key_def)

lemma zip_path_shape [simp]:
  "zip_path (shape t) ks (map frame_shape fs) = map frame_shape (zip_path t ks fs)"
  by (induction t ks fs rule: zip_path.induct) auto

lemma lone_root_shape [simp]: "lone_root (shape t) = lone_root t"
  by (cases t) auto

lemma climb_lone_shape [simp]: "climb_lone (map frame_shape fs) (shape t) = climb_lone fs t"
  by (induction fs arbitrary: t) (simp_all del: shape_plug1 shape_prune flip: shape_plug1 shape_prune)

lemma lone_shape [simp]: "lone (shape t) ks = lone t ks"
  using climb_lone_shape [of "zip_path t ks []" "prune (clear (sub t ks))"]
    zip_path_shape [of t ks "[]"] lone_root_shape [of "clear (sub t ks)"]
  by (simp add: lone_def)

lemma clean_ops_run:
  assumes "tst_sound db t fs" and "list_all op_ok ps"
    and "room rl db (sum_list (map op_room ps))" and "clean_ops (shape t) ps"
  shows "clean_run (tst_put rl) tst_delete tst_clean db ps"
  using assms
proof (induction ps arbitrary: db t fs)
  case Nil
  then show ?case by simp
next
  case (Cons p ps)
  then have I: "tst_inv db t fs" by (simp add: tst_sound_def)
  let ?n = "sum_list (map op_room ps)"
  show ?case
  proof (cases p)
    case (Put k v)
    then have r: "room rl db (length k)" and k: "0 \<notin> set k"
      using Cons.prems by (auto simp: room_def)
    obtain db' t' fs' where P: "tst_put rl db k v = ret db'" "tst_inv db' t' fs'"
      "shape t' = ins (shape t) k v" "parents (db_data db) 0 t \<longrightarrow> parents (db_data db') 0 t'"
      "unat (db_size db') \<le> unat (db_size db) + length k"
      by (rule tst_put_ok [OF I r k, of v])
    have "clean_run (tst_put rl) tst_delete tst_clean db' ps"
      by (rule Cons.IH [of db' t' fs']) (use P Put Cons.prems in \<open>auto simp: tst_sound_def room_def\<close>)
    then show ?thesis using P Put by simp
  next
    case (Del k)
    then have l: "lone t k" using Cons.prems by simp
    obtain db' fs' where D: "tst_delete db k = ret db'" "tst_sound db' (delete_key t k) fs'"
      using tst_delete_ok [OF Cons.prems(1), of k] l by metis
    have "clean_run (tst_put rl) tst_delete tst_clean db' ps"
      by (rule Cons.IH [of db' "delete_key t k" fs'])
        (use D Del Cons.prems tst_delete_size [OF D(1)] in \<open>auto simp: room_def\<close>)
    moreover have "tst_clean db k"
      using l by (auto simp: tst_clean_def dest: tst_inv_unique [OF I])
    ultimately show ?thesis using D Del by simp
  qed
qed

fun tree_op :: "unit tst \<Rightarrow> tst_op \<Rightarrow> unit tst" where
  "tree_op t (Put k v) = ins t k v"
| "tree_op t (Del k) = delete_key t k"

lemma run_ops_tree:
  assumes "tst_sound db t fs" and "list_all op_ok ps"
    and "room rl db (sum_list (map op_room ps))" and "clean_ops (shape t) ps"
  shows "\<exists>db' t' fs'. run_ops (tst_put rl) tst_delete db ps = ret db' \<and> tst_sound db' t' fs' \<and>
    shape t' = foldl tree_op (shape t) ps"
  using assms
proof (induction ps arbitrary: db t fs)
  case Nil
  then show ?case by auto
next
  case (Cons p ps)
  then have I: "tst_inv db t fs" by (simp add: tst_sound_def)
  show ?case
  proof (cases p)
    case (Put k v)
    then have r: "room rl db (length k)" and k: "0 \<notin> set k"
      using Cons.prems by (auto simp: room_def)
    obtain db' t' fs' where P: "tst_put rl db k v = ret db'" "tst_inv db' t' fs'"
      "shape t' = ins (shape t) k v" "parents (db_data db) 0 t \<longrightarrow> parents (db_data db') 0 t'"
      "unat (db_size db') \<le> unat (db_size db) + length k"
      by (rule tst_put_ok [OF I r k, of v])
    have "\<exists>db'' t'' fs''. run_ops (tst_put rl) tst_delete db' ps = ret db'' \<and> tst_sound db'' t'' fs'' \<and>
        shape t'' = foldl tree_op (shape t') ps"
      by (rule Cons.IH [of db' t' fs']) (use P Put Cons.prems in \<open>auto simp: tst_sound_def room_def\<close>)
    then show ?thesis using P Put by simp
  next
    case (Del k)
    then obtain db' fs' where D: "tst_delete db k = ret db'" "tst_sound db' (delete_key t k) fs'"
      using tst_delete_ok [OF Cons.prems(1), of k] Cons.prems(4) by (metis clean_ops.simps(3) lone_shape)
    have "\<exists>db'' t'' fs''. run_ops (tst_put rl) tst_delete db' ps = ret db'' \<and> tst_sound db'' t'' fs'' \<and>
        shape t'' = foldl tree_op (shape (delete_key t k)) ps"
      by (rule Cons.IH [of db' "delete_key t k" fs'])
        (use D Del Cons.prems tst_delete_size [OF D(1)] in \<open>auto simp: room_def\<close>)
    then show ?thesis using D Del by simp
  qed
qed

section \<open>A fresh array\<close>

lemma create_tst_db_sound:
  assumes "nd_value (mem 0) = 0"
  shows "tst_sound (create_tst_db mem) Lf []"
  using assms heap_inv_new [of 409600 mem]
  by (simp add: tst_sound_def tst_inv_def create_tst_db_def new_tst_db_def clear_pointer_bytes_def)

lemma create_tst_db_get:
  assumes "key \<noteq> []"
  shows "tst_get (create_tst_db mem) key = ret (nd_value (mem 0))"
  using assms
  by (simp add: tst_get_def search_def search_loop.simps create_tst_db_def new_tst_db_def
      clear_pointer_bytes_def get_node_def)

lemma run_ops_fresh:
  assumes "list_all op_ok ps" and "clean_ops Lf ps" and "sum_list (map op_room ps) < 2 ^ 31"
  obtains db t fs where "run_ops (tst_put (\<lambda>_. True)) tst_delete (create_tst_db (\<lambda>_. zero_node)) ps = ret db"
    and "tst_sound db t fs" and "shape t = foldl tree_op Lf ps"
  using run_ops_tree [OF create_tst_db_sound assms(1), of "\<lambda>_. zero_node" "\<lambda>_. True"] assms
  by (auto simp: zero_node_def room_def create_tst_db_def new_tst_db_def)

text \<open>All keys of the index, in order.\<close>

definition tst_keys :: "tst_db \<Rightarrow> cstr list" where
  "tst_keys db = sorted_list_of_set {k. tst_get db k \<noteq> ret 0}"

lemma tst_keys_inv: "tst_inv db t fs \<Longrightarrow> tst_keys db = keys t"
proof -
  assume I: "tst_inv db t fs"
  then have b: "bst t" by (simp add: tst_inv_def)
  have "{k. tst_get db k \<noteq> ret 0} = set (keys t)"
    using set_keys [OF b] tst_get_ok [OF I] by auto
  then show ?thesis
    using sorted_keys [OF b] by (simp add: tst_keys_def strict_sorted_iff sorted_list_of_set.idem_if_sorted_distinct)
qed

text \<open>The paths of the tree are shorter than the key buffers.\<close>

definition tst_short :: "tst_db \<Rightarrow> nat \<Rightarrow> bool" where
  "tst_short db n \<longleftrightarrow> (\<exists>t fs. tst_inv db t fs \<and> depth t < n)"

lemma tst_short_fresh:
  assumes "list_all op_ok ps" and "clean_ops Lf ps" and "sum_list (map op_room ps) < 2 ^ 31"
    and "depth (foldl tree_op Lf ps) < n"
  obtains db where "run_ops (tst_put (\<lambda>_. True)) tst_delete (create_tst_db (\<lambda>_. zero_node)) ps = ret db"
    and "tst_linked db" and "tst_short db n" and "tst_keys db = keys (foldl tree_op Lf ps)"
proof (rule run_ops_fresh [OF assms(1-3)])
  fix db t fs
  assume r: "run_ops (tst_put (\<lambda>_. True)) tst_delete (create_tst_db (\<lambda>_. zero_node)) ps = ret db"
    "tst_sound db t fs" "shape t = foldl tree_op Lf ps"
  have "keys t = keys (foldl tree_op Lf ps)" "depth t = depth (foldl tree_op Lf ps)"
    by (simp_all flip: r(3))
  moreover have "tst_inv db t fs" using r(2) by (simp add: tst_sound_def)
  moreover have "tst_linked db" "tst_short db n"
    using r(2) assms(4) calculation by (auto simp: tst_linked_def tst_short_def)
  ultimately show thesis
    using that [OF r(1)] tst_keys_inv by simp
qed

section \<open>Properties\<close>

text \<open>
  C5. Putting a key into a well-formed index ends, keeps the index well formed and its parent links
  right if they were, and changes the answer for this key only: the key gets the value, every
  other lookup answers as before.
\<close>

theorem tst_put_updates:
  assumes "tst_wf db" and "key \<noteq> []" and "0 \<notin> set key" and "room rl db (length key)"
  shows "\<exists>db'. tst_put rl db key v = ret db' \<and> tst_wf db' \<and> (tst_linked db \<longrightarrow> tst_linked db') \<and>
    (\<forall>k. tst_get db' k = (if k = key then ret v else tst_get db k))"
proof -
  obtain db' where "tst_put rl db key v = ret db'" "tst_wf db'" "tst_linked db \<longrightarrow> tst_linked db'"
    "view tst_get db' = (view tst_get db)(key := v)"
    using node_array.put_law [of db rl key 0 v] assms by auto
  then show ?thesis
    using assms(1) node_array.get_view by auto
qed

lemma fresh_linked: "tst_linked (create_tst_db (\<lambda>_. zero_node))"
  using create_tst_db_sound [of "\<lambda>_. zero_node"] by (auto simp: tst_linked_def zero_node_def)

lemma fresh_room: "n < 2 ^ 31 \<Longrightarrow> room (\<lambda>_. True) (create_tst_db mem) n"
  by (simp add: room_def create_tst_db_def new_tst_db_def)

theorem tst_put_updates_witness:
  "\<exists>db'. tst_put (\<lambda>_. True) (create_tst_db (\<lambda>_. zero_node)) [CC 97, CC 98] 5 = ret db' \<and>
    tst_get db' [CC 97, CC 98] = ret 5"
  using tst_put_updates [of "create_tst_db (\<lambda>_. zero_node)" "[CC 97, CC 98]" "\<lambda>_. True" 5]
    node_array.linked_wf [OF fresh_linked] fresh_room [of "Suc (Suc 0)"] by auto

text \<open>
  C6. Deleting a key from an index whose parent links are right ends, keeps the index well formed
  and takes away this key only. The parent links stay right unless the deletion takes a node with
  two children out of the tree.
\<close>

theorem tst_delete_removes:
  assumes "tst_linked db"
  shows "\<exists>db'. tst_delete db key = ret db' \<and> tst_wf db' \<and> (tst_clean db key \<longrightarrow> tst_linked db') \<and>
    (\<forall>k. tst_get db' k = (if k = key then ret 0 else tst_get db k))"
proof -
  obtain db' where "tst_delete db key = ret db'" "tst_wf db'" "tst_clean db key \<longrightarrow> tst_linked db'"
    "view tst_get db' = (view tst_get db)(key := 0)"
    using node_array.rem_law [of db key] assms by auto
  then show ?thesis
    using assms node_array.get_view node_array.linked_wf by auto
qed

theorem tst_delete_removes_witness:
  "\<exists>db db'. tst_put (\<lambda>_. True) (create_tst_db (\<lambda>_. zero_node)) [CC 97] 5 = ret db \<and>
    tst_get db [CC 97] = ret 5 \<and> tst_delete db [CC 97] = ret db' \<and> tst_get db' [CC 97] = ret 0"
proof -
  obtain db where "tst_put (\<lambda>_. True) (create_tst_db (\<lambda>_. zero_node)) [CC 97] 5 = ret db"
    "tst_linked db" "view tst_get db [CC 97] = 5"
    using node_array.put_law [of "create_tst_db (\<lambda>_. zero_node)" "\<lambda>_. True" "[CC 97]" 0 5]
      fresh_linked fresh_room [of 1] node_array.linked_wf by auto
  then show ?thesis
    using tst_delete_removes [of db "[CC 97]"] node_array.get_view [of db "[CC 97]"]
      node_array.linked_wf by auto
qed

text \<open>
  C7. A sequence of puts and deletions on a fresh index, none of which takes a node with two
  children out of the tree, runs to its end, and every lookup then gives what the last operation
  on the key left: the index is the map the sequence describes.
\<close>

theorem tst_run_ops:
  assumes "nd_value (mem 0) = 0" and "list_all op_ok ps" and "clean_ops Lf ps"
    and "\<forall>b. rl b" and "sum_list (map op_room ps) < 2 ^ 31"
  shows "\<exists>db. run_ops (tst_put rl) tst_delete (create_tst_db mem) ps = ret db \<and> tst_linked db \<and>
    (\<forall>k. tst_get db k = ret (apply_ops (\<lambda>_. 0) ps k))"
proof -
  let ?db = "create_tst_db mem"
  have S: "tst_sound ?db Lf []"
    using assms(1) by (rule create_tst_db_sound)
  have r: "room rl ?db (sum_list (map op_room ps))"
    using assms by (simp add: room_def create_tst_db_def new_tst_db_def)
  have "view tst_get ?db = (\<lambda>_. 0)"
    using S tst_view [of ?db Lf "[]"] by (auto simp: tst_sound_def)
  moreover have "tst_linked ?db"
    using S by (auto simp: tst_linked_def)
  ultimately show ?thesis
    using node_array.run_ops_ok [of ?db ps rl] clean_ops_run [OF S assms(2) r] r assms(2,3)
      node_array.get_view node_array.linked_wf by fastforce
qed

theorem tst_run_ops_witness:
  "\<exists>db. run_ops (tst_put (\<lambda>_. True)) tst_delete (create_tst_db (\<lambda>_. zero_node))
      [Put [CC 97, CC 98] 5, Put [CC 97] 7, Del [CC 97, CC 98], Put [CC 99] 8] = ret db \<and>
    tst_get db [CC 97, CC 98] = ret 0 \<and> tst_get db [CC 97] = ret 7"
  using tst_run_ops [of "\<lambda>_. zero_node"
      "[Put [CC 97, CC 98] 5, Put [CC 97] 7, Del [CC 97, CC 98], Put [CC 99] 8]" "\<lambda>_. True"]
  by (auto simp: zero_node_def lone_def)

text \<open>
  C13. A fresh index answers for every key with the value field of the first slot of the memory
  \<open>malloc\<close> returned: the clearing of that slot is as long as a pointer and does not reach it.
\<close>

theorem fresh_index_reads_memory:
  assumes "key \<noteq> []"
  shows "tst_get (create_tst_db mem) key = ret (nd_value (mem 0))"
  using assms by (rule create_tst_db_get)

theorem fresh_index_reads_memory_witness:
  "tst_get (create_tst_db (\<lambda>_. zero_node\<lparr>nd_value := 3\<rparr>)) [CC 97] = ret 3"
  using fresh_index_reads_memory [of "[CC 97]" "\<lambda>_. zero_node\<lparr>nd_value := 3\<rparr>"] by simp

end
