(* ===== verification/Tst_Stale.thy ===== *)
theory Tst_Stale
  imports Index
begin

text \<open>
  What deletion does to the node array when it takes out a node with two children. \<open>remove_node\<close>
  hangs the right child under the left one and leaves its parent link at the freed slot. The
  next deletion that climbs through that child follows the stale link: it takes the freed slot out
  a second time, so the free list names it twice, two live nodes come to share it, and an
  entry is lost or a lookup never ends.
\<close>

section \<open>Evaluating runs of the node array\<close>

lemma run_bind_weak_cong: "m = m' \<Longrightarrow> run_bind m f = run_bind m' f"
  by simp

lemmas array_eval =
  Let_def create_tst_db_def new_tst_db_def clear_pointer_bytes_def zero_node_def get_node_def
  set_node_def ensure_enough_space_def free_node_def new_node_def tst_put_def tst_get_def
  search_def tst_delete_def tst_insert.simps search_loop.simps remove_node_def find_max.simps
  unlink_node_def delete_climb.simps

section \<open>A cycle of right links traps a lookup\<close>

text \<open>A set of slots that every comparison with \<open>c\<close> leaves to the right, into the set.\<close>

definition trapped :: "u32 set \<Rightarrow> tst_db \<Rightarrow> cchar \<Rightarrow> bool" where
  "trapped S db c \<longleftrightarrow>
     (\<forall>x \<in> S. x \<noteq> 0 \<and> x < db_cap db \<and> nd_c (db_data db x) < c \<and> nd_right (db_data db x) \<in> S)"

lemma trappedD:
  "trapped S db c \<Longrightarrow> x \<in> S \<Longrightarrow>
   x \<noteq> 0 \<and> x < db_cap db \<and> nd_c (db_data db x) < c \<and> \<not> c < nd_c (db_data db x) \<and> nd_right (db_data db x) \<in> S"
  by (auto simp: trapped_def dest: order.asym)

lemma search_loop_trapped:
  assumes "trapped S db (char_at key d)" and node: "node \<in> S"
  shows "search_loop db key n node d = None"
proof (cases "search_loop db key n node d")
  case (Some r)
  then have "node \<in> S \<longrightarrow> \<not> trapped S db (char_at key d)"
    by (rule search_loop.raw_induct [where
        P = "\<lambda>db key n node d r. node \<in> S \<longrightarrow> \<not> trapped S db (char_at key d)", rotated])
      (auto simp: get_node_def Let_def dest: trappedD split: if_splits, blast dest: trappedD)
  then show ?thesis using assms by blast
qed

section \<open>The run\<close>

text \<open>The keys b, a, c, then d and e, as one-letter strings.\<close>

definition stale_ops :: "tst_op list" where
  "stale_ops =
     [Put [CC 98] 6, Put [CC 97] 7, Put [CC 99] 8, Del [CC 98], Del [CC 99],
      Put [CC 100] 9, Put [CC 101] 10]"

definition stale_db :: tst_db where
  "stale_db =
     \<lparr>db_root = 2, db_size = 3, db_cap = 409600, db_f_head = 1,
      db_data = (\<lambda>_. zero_node)
        (0 := zero_node,
         1 := \<lparr>nd_c = CC 100, nd_left = 0, nd_mid = 0, nd_right = 3, nd_parent = 3, nd_value = 9\<rparr>,
         3 := \<lparr>nd_c = CC 101, nd_left = 0, nd_mid = 0, nd_right = 1, nd_parent = 2, nd_value = 10\<rparr>,
         2 := \<lparr>nd_c = CC 97, nd_left = 0, nd_mid = 0, nd_right = 3, nd_parent = 0, nd_value = 7\<rparr>)\<rparr>"

lemma stale_run:
  "run_ops (tst_put (\<lambda>_. True)) tst_delete (create_tst_db (\<lambda>_. zero_node)) stale_ops = ret stale_db"
  by (simp add: array_eval stale_ops_def stale_db_def word_le_nat_alt cong: run_bind_weak_cong)

lemma stale_trap: "trapped {1, 3} stale_db (CC 102)"
  by (simp add: trapped_def stale_db_def)

lemma stale_get:
  "tst_get stale_db [CC 100] = ret 0"
  "tst_get stale_db [CC 102] = None"
proof -
  show "tst_get stale_db [CC 100] = ret 0"
    by (simp add: array_eval stale_db_def)
  have "search_loop stale_db [CC 102] 1 2 0 = search_loop stale_db [CC 102] 1 3 0"
    by (subst search_loop.simps) (simp add: get_node_def stale_db_def)
  also have "\<dots> = None"
    by (rule search_loop_trapped [of "{1, 3}"]) (simp_all add: stale_trap)
  finally show "tst_get stale_db [CC 102] = None"
    by (simp add: tst_get_def search_def) (simp add: stale_db_def)
qed

section \<open>Properties\<close>

text \<open>
  C8. After putting b, a, c, deleting b and c, and putting d and e, the lookup of d answers that
  it is absent and the lookup of f never ends, although every call before it ended and the map
  the seven operations describe has 9 at d.
\<close>

theorem stale_parent_loses_entry:
  "\<exists>db. run_ops (tst_put (\<lambda>_. True)) tst_delete (create_tst_db (\<lambda>_. zero_node)) stale_ops = ret db \<and>
    tst_get db [CC 100] = ret 0 \<and> apply_ops (\<lambda>_. 0) stale_ops [CC 100] = 9 \<and>
    tst_get db [CC 102] = None"
  using stale_run stale_get by (simp add: stale_ops_def)

end
