(* ===== verification/Tst_Scan.thy ===== *)
theory Tst_Scan
  imports Tst_Stale
begin

text \<open>
  The range scans of \<open>v2/src/tst.c\<close>: \<open>dfs\<close>, \<open>dfs_less\<close>, \<open>dfs_greater\<close> and the
  public \<open>tst_prefix\<close>, \<open>tst_less\<close>, \<open>tst_greater\<close>. They walk the tree with one key
  buffer of \<open>MAX_KEY_SIZE\<close> bytes that holds the path to the current node, and append the keys they
  find, up to a limit, to one result string. \<open>emit\<close> says what a list of keys adds to the result;
  \<open>scanned\<close> relates a walk to the keys it lists, and composes along the code.
\<close>

section \<open>The scans\<close>

definition max_key_size :: nat where
  "max_key_size = 256"

text \<open>
  The variables the scans share: the string in \<open>result\<close>, \<open>*result_size\<close> and
  \<open>key_buf\<close>. \<open>cap\<close> is the size of the caller's result array.
\<close>

record scan =
  sc_result :: cstr
  sc_size :: int
  sc_key :: "cchar list"

definition set_key :: "scan \<Rightarrow> nat \<Rightarrow> cchar \<Rightarrow> scan run" where
  "set_key st i c = run_bind (buf_set (sc_key st) i c) (\<lambda>b. ret (st\<lparr>sc_key := b\<rparr>))"

definition append_result :: "nat \<Rightarrow> scan \<Rightarrow> scan run" where
  "append_result cap st =
     run_bind (cstr_of (sc_key st)) (\<lambda>key.
     if length (sc_result st) + length key + 2 < cap
     then ret (st\<lparr>sc_result := sc_result st @ key @ crlf, sc_size := sc_size st + 1\<rparr>)
     else abort_with Undefined)"

text \<open>\<open>if (value) { key_buf[d + 1] = 0; append_result(...); }\<close>\<close>

definition emit_value :: "nat \<Rightarrow> tst_node \<Rightarrow> nat \<Rightarrow> scan \<Rightarrow> scan run" where
  "emit_value cap n d st =
     (if nd_value n \<noteq> 0 then run_bind (set_key st (d + 1) 0) (append_result cap) else ret st)"

text \<open>
  \<open>asc\<close> is \<open>sorting_order == ASC\<close>. In the descending branch the code returns at once when the
  limit is reached below \<open>mid\<close>; skipping the value instead is the same, as the next test returns.
\<close>

partial_function (option) dfs ::
  "tst_db \<Rightarrow> nat \<Rightarrow> int \<Rightarrow> bool \<Rightarrow> u32 \<Rightarrow> nat \<Rightarrow> scan \<Rightarrow> scan run"
where
  "dfs db cap limit asc node d st =
     (if node = 0 then ret st
      else if limit \<le> sc_size st then ret st
      else run_bind (get_node db node) (\<lambda>n.
        let first = (if asc then nd_left n else nd_right n);
            second = (if asc then nd_right n else nd_left n) in
        run_bind (dfs db cap limit asc first d st) (\<lambda>st.
        run_bind (set_key st d (nd_c n)) (\<lambda>st.
        if limit \<le> sc_size st then ret st
        else run_bind
          (if asc
           then run_bind (emit_value cap n d st) (\<lambda>st.
                run_bind (dfs db cap limit asc (nd_mid n) (d + 1) st) (\<lambda>st.
                set_key st d (nd_c n)))
           else run_bind (dfs db cap limit asc (nd_mid n) (d + 1) st) (\<lambda>st.
                if limit \<le> sc_size st then ret st else emit_value cap n d st)) (\<lambda>st.
        if limit \<le> sc_size st then ret st
        else run_bind (dfs db cap limit asc second d st) (\<lambda>st.
        set_key st d (nd_c n)))))))"

partial_function (option) dfs_less ::
  "tst_db \<Rightarrow> nat \<Rightarrow> int \<Rightarrow> u32 \<Rightarrow> cstr \<Rightarrow> nat \<Rightarrow> scan \<Rightarrow> scan run"
where
  "dfs_less db cap limit node key d st =
     (if node = 0 then ret st
      else if limit \<le> 0 then ret st
      else run_bind (get_node db node) (\<lambda>n.
        let c = nd_c n in
        run_bind (set_key st d c) (\<lambda>st.
        if char_at key 0 < c then dfs_less db cap limit (nd_left n) key d st
        else if char_at key 0 = c
        then run_bind (dfs_less db cap limit (nd_mid n) (drop 1 key) (d + 1) st) (\<lambda>st.
             run_bind (if sc_size st < limit then emit_value cap n d st else ret st) (\<lambda>st.
             if sc_size st < limit then dfs db cap limit False (nd_left n) d st else ret st))
        else run_bind (dfs_less db cap limit (nd_right n) key d st) (\<lambda>st.
             run_bind (set_key st d c) (\<lambda>st.
             run_bind (if sc_size st < limit then dfs db cap limit False (nd_mid n) (d + 1) st
                       else ret st) (\<lambda>st.
             run_bind (if sc_size st < limit then emit_value cap n d st else ret st) (\<lambda>st.
             if sc_size st < limit then dfs db cap limit False (nd_left n) d st else ret st)))))))"

partial_function (option) dfs_greater ::
  "tst_db \<Rightarrow> nat \<Rightarrow> int \<Rightarrow> u32 \<Rightarrow> cstr \<Rightarrow> nat \<Rightarrow> scan \<Rightarrow> scan run"
where
  "dfs_greater db cap limit node key d st =
     (if node = 0 then ret st
      else if limit \<le> 0 then ret st
      else run_bind (get_node db node) (\<lambda>n.
        let c = nd_c n in
        run_bind (set_key st d c) (\<lambda>st.
        if c < char_at key 0 then dfs_greater db cap limit (nd_right n) key d st
        else if char_at key 0 = c
        then run_bind (if sc_size st < limit
                       then (if char_at key 1 = 0 \<and> nd_value n \<noteq> 0 then append_result cap st else ret st)
                       else ret st) (\<lambda>st.
             run_bind (if sc_size st < limit
                       then dfs_greater db cap limit (nd_mid n) (drop 1 key) (d + 1) st
                       else ret st) (\<lambda>st.
             if sc_size st < limit then dfs db cap limit True (nd_right n) d st else ret st))
        else run_bind (dfs_greater db cap limit (nd_left n) key d st) (\<lambda>st.
             run_bind (set_key st d c) (\<lambda>st.
             run_bind (if sc_size st < limit then emit_value cap n d st else ret st) (\<lambda>st.
             run_bind (if sc_size st < limit then dfs db cap limit True (nd_mid n) (d + 1) st
                       else ret st) (\<lambda>st.
             if sc_size st < limit then dfs db cap limit True (nd_right n) d st else ret st)))))))"

text \<open>
  The public functions return the new content of \<open>result\<close> and \<open>*result_size\<close>; \<open>out\<close> is
  what the caller had there.
\<close>

definition new_scan :: "cchar list \<Rightarrow> scan" where
  "new_scan base_key = \<lparr>sc_result = [], sc_size = 0, sc_key = base_key\<rparr>"

definition scan_out :: "scan \<Rightarrow> (cstr \<times> int) run" where
  "scan_out st = ret (sc_result st, sc_size st)"

definition tst_less :: "tst_db \<Rightarrow> nat \<Rightarrow> cstr \<Rightarrow> cstr \<times> int \<Rightarrow> int \<Rightarrow> (cstr \<times> int) run" where
  "tst_less db cap key out limit =
     (let base_key = replicate max_key_size 0; root = db_root db in
      if length key = 0 then ret out
      else if root = 0 then ret out
      else run_bind (dfs_less db cap limit root key 0 (new_scan base_key)) scan_out)"

definition tst_greater :: "tst_db \<Rightarrow> nat \<Rightarrow> cstr \<Rightarrow> cstr \<times> int \<Rightarrow> int \<Rightarrow> (cstr \<times> int) run" where
  "tst_greater db cap key out limit =
     (let base_key = replicate max_key_size 0; root = db_root db in
      if length key = 0 then ret out
      else if root = 0 then ret out
      else run_bind (dfs_greater db cap limit root key 0 (new_scan base_key)) scan_out)"

definition tst_prefix ::
  "tst_db \<Rightarrow> nat \<Rightarrow> cstr \<Rightarrow> cstr \<times> int \<Rightarrow> int \<Rightarrow> bool \<Rightarrow> (cstr \<times> int) run"
where
  "tst_prefix db cap pref out limit asc =
     (let base_key = replicate max_key_size 0 in
      if length pref = 0 then ret out
      else run_bind (search_with_path db pref base_key) (\<lambda>(node, base_key).
        if node = 0 then ret out
        else run_bind (get_node db node) (\<lambda>n.
          let st = new_scan base_key;
              append = (\<lambda>st. if nd_value n \<noteq> 0 \<and> sc_size st < limit then append_result cap st else ret st) in
          run_bind (if asc then append st else ret st) (\<lambda>st.
          run_bind (if sc_size st < limit
                    then run_bind (cstr_of (sc_key st)) (\<lambda>base.
                         dfs db cap limit asc (nd_mid n) (length base) st)
                    else ret st) (\<lambda>st.
          run_bind (if \<not> asc then append st else ret st) scan_out)))))"

section \<open>What a list of keys adds to the result\<close>

fun emit :: "nat \<Rightarrow> int \<Rightarrow> cstr list \<Rightarrow> cstr \<times> int \<Rightarrow> (cstr \<times> int) run" where
  "emit cap limit [] out = ret out"
| "emit cap limit (k # ks) (r, n) =
     (if limit \<le> n then ret (r, n)
      else if length r + length k + 2 < cap then emit cap limit ks (r @ k @ crlf, n + 1)
      else abort_with Undefined)"

lemma emit_full [simp]: "limit \<le> n \<Longrightarrow> emit cap limit ks (r, n) = ret (r, n)"
  by (cases ks) auto

lemma emit_append: "emit cap limit (xs @ ys) out = run_bind (emit cap limit xs out) (emit cap limit ys)"
  by (induction cap limit xs out rule: emit.induct) auto

definition lines :: "cstr list \<Rightarrow> cstr" where
  "lines ks = concat (map (\<lambda>k. k @ crlf) ks)"

lemma lines_simps [simp]: "lines [] = []" "lines (k # ks) = k @ crlf @ lines ks"
  by (simp_all add: lines_def)

text \<open>With room for them, the keys up to the limit go one per line to the end of the result.\<close>

lemma emit_ok:
  assumes "length r + length (lines (take (nat (limit - n)) ks)) < cap"
  shows "emit cap limit ks (r, n) =
    ret (r @ lines (take (nat (limit - n)) ks), n + int (length (take (nat (limit - n)) ks)))"
  using assms
proof (induction ks arbitrary: r n)
  case (Cons k ks)
  show ?case
  proof (cases "limit \<le> n")
    case False
    then obtain j where j: "nat (limit - n) = Suc j" "nat (limit - (n + 1)) = j"
      by (intro that [of "nat (limit - n) - 1"]) auto
    then show ?thesis
      using Cons.IH [of "r @ k @ crlf" "n + 1"] Cons.prems False by (auto simp: crlf_def)
  qed simp
qed simp

text \<open>Without it, \<open>strcat\<close> writes beyond the result array.\<close>

lemma emit_overflow:
  assumes "cap \<le> length r + length (lines (take (nat (limit - n)) ks))" and "length r < cap"
  shows "emit cap limit ks (r, n) = abort_with Undefined"
  using assms
proof (induction ks arbitrary: r n)
  case (Cons k ks)
  show ?case
  proof (cases "limit \<le> n")
    case False
    then obtain j where j: "nat (limit - n) = Suc j" "nat (limit - (n + 1)) = j"
      by (intro that [of "nat (limit - n) - 1"]) auto
    then show ?thesis
      using Cons.IH [of "r @ k @ crlf" "n + 1"] Cons.prems False by (auto simp: crlf_def)
  qed (use Cons.prems in auto)
qed simp

section \<open>Walks and the keys they list\<close>

text \<open>
  \<open>scanned cap limit d ks st r\<close>: the walk with outcome \<open>r\<close>, started in \<open>st\<close> below the path
  in the first \<open>d\<close> bytes of the key buffer, lists the keys \<open>ks\<close> below that path and leaves
  the path alone.
\<close>

definition scanned :: "nat \<Rightarrow> int \<Rightarrow> nat \<Rightarrow> cstr list \<Rightarrow> scan \<Rightarrow> scan run \<Rightarrow> bool" where
  "scanned cap limit d ks st r \<longleftrightarrow>
     (\<exists>b. length b = length (sc_key st) \<and> take d b = take d (sc_key st) \<and>
        r = run_bind (emit cap limit (map ((@) (take d (sc_key st))) ks) (sc_result st, sc_size st))
              (\<lambda>(res, n). ret \<lparr>sc_result = res, sc_size = n, sc_key = b\<rparr>))"

text \<open>The buffer below position \<open>d\<close>, the part later writes may not disturb.\<close>

definition same_path :: "nat \<Rightarrow> scan \<Rightarrow> scan \<Rightarrow> bool" where
  "same_path d st st' \<longleftrightarrow>
     length (sc_key st') = length (sc_key st) \<and> take d (sc_key st') = take d (sc_key st)"

lemma scanned_nil: "scanned cap limit d [] st (ret st)"
  by (auto simp: scanned_def)

lemma scanned_full: "limit \<le> sc_size st \<Longrightarrow> scanned cap limit d ks st (ret st)"
  by (auto simp: scanned_def)

lemma scanned_guard:
  assumes "scanned cap limit d ks st r"
  shows "scanned cap limit d ks st (if limit \<le> sc_size st then ret st else r)"
    and "scanned cap limit d ks st (if sc_size st < limit then r else ret st)"
  using assms by (simp_all add: scanned_full)

lemma scanned_ret: "scanned cap limit d ks st (ret st') \<Longrightarrow> same_path d st st'"
  by (auto simp: scanned_def same_path_def run_bind_eq_ret eq_commute [of "ret st'"])

lemma scanned_bind_ret:
  assumes "scanned cap limit d xs st r"
    and "\<And>st'. same_path d st st' \<Longrightarrow> r = ret st' \<Longrightarrow> scanned cap limit d ys st' (f st')"
  shows "scanned cap limit d (xs @ ys) st (run_bind r f)"
proof -
  let ?p = "take d (sc_key st)"
  obtain b where b: "length b = length (sc_key st)" "take d b = ?p"
    "r = run_bind (emit cap limit (map ((@) ?p) xs) (sc_result st, sc_size st))
           (\<lambda>(res, n). ret \<lparr>sc_result = res, sc_size = n, sc_key = b\<rparr>)"
    using assms(1) by (auto simp: scanned_def)
  show ?thesis
  proof (cases "\<exists>res n. emit cap limit (map ((@) ?p) xs) (sc_result st, sc_size st) = ret (res, n)")
    case True
    then obtain res n where e: "emit cap limit (map ((@) ?p) xs) (sc_result st, sc_size st) = ret (res, n)"
      by blast
    let ?st = "\<lparr>sc_result = res, sc_size = n, sc_key = b\<rparr>"
    have "scanned cap limit d ys ?st (f ?st)"
      by (rule assms(2)) (use b e in \<open>simp_all add: same_path_def\<close>)
    then show ?thesis
      using b e by (auto simp: scanned_def emit_append)
  next
    case False
    then have skip: "run_bind (emit cap limit (map ((@) ?p) xs) (sc_result st, sc_size st)) g =
        run_bind (emit cap limit (map ((@) ?p) xs) (sc_result st, sc_size st)) h" for g h :: "_ \<Rightarrow> scan run"
      by (auto simp: run_bind_def split: Option.bind_split sum.split)
    have split: "run_bind (emit cap limit (map ((@) ?p) (xs @ ys)) (sc_result st, sc_size st)) g =
        run_bind (emit cap limit (map ((@) ?p) xs) (sc_result st, sc_size st))
          (\<lambda>out. run_bind (emit cap limit (map ((@) ?p) ys) out) g)" for g :: "_ \<Rightarrow> scan run"
      by (simp add: emit_append run_bind_assoc)
    have "run_bind r f = run_bind (emit cap limit (map ((@) ?p) (xs @ ys)) (sc_result st, sc_size st))
        (\<lambda>(res, n). ret \<lparr>sc_result = res, sc_size = n, sc_key = b\<rparr>)"
      unfolding b(3) run_bind_assoc split by (rule skip)
    then show ?thesis
      unfolding scanned_def using b(1,2) by blast
  qed
qed

lemma scanned_bind:
  assumes "scanned cap limit d xs st r"
    and "\<And>st'. same_path d st st' \<Longrightarrow> scanned cap limit d ys st' (f st')"
  shows "scanned cap limit d (xs @ ys) st (run_bind r f)"
  using assms by (rule scanned_bind_ret)

lemma scanned_lower:
  assumes "scanned cap limit (Suc d) ks st r" and "take (Suc d) (sc_key st) = take d (sc_key st) @ [c]"
  shows "scanned cap limit d (map (Cons c) ks) st r"
proof -
  have "map ((@) (take (Suc d) (sc_key st))) ks = map ((@) (take d (sc_key st))) (map (Cons c) ks)"
    by (simp add: assms(2))
  then show ?thesis
    using assms(1) unfolding scanned_def by (metis take_Suc_eqD)
qed

lemma same_path_lower: "same_path (Suc d) st st' \<Longrightarrow> same_path d st st'"
  by (auto simp: same_path_def dest: take_Suc_eqD)

lemma scanned_set_key:
  assumes "d < length (sc_key st)"
    and "\<And>st'. same_path d st st' \<Longrightarrow> take (Suc d) (sc_key st') = take d (sc_key st') @ [c] \<Longrightarrow>
      st' = st\<lparr>sc_key := (sc_key st)[d := c]\<rparr> \<Longrightarrow> scanned cap limit d ks st' (f st')"
  shows "scanned cap limit d ks st (run_bind (set_key st d c) f)"
proof -
  let ?st = "st\<lparr>sc_key := (sc_key st)[d := c]\<rparr>"
  have "scanned cap limit d ks ?st (f ?st)"
    by (rule assms(2)) (use assms(1) in \<open>simp_all add: same_path_def take_list_update_last\<close>)
  then show ?thesis
    using assms(1) by (simp add: set_key_def scanned_def)
qed

lemma scanned_set_key_last: "d < length (sc_key st) \<Longrightarrow> scanned cap limit d [] st (set_key st d c)"
  using scanned_set_key [of d st c cap limit "[]" ret] scanned_nil [of cap limit d]
  by (simp add: set_key_def)

lemma scanned_append_result:
  assumes "d < length (sc_key st)" and "0 \<notin> set (take d (sc_key st))" and "sc_key st ! d = 0"
    and "sc_size st < limit"
  shows "scanned cap limit d [[]] st (append_result cap st)"
proof -
  have "cstr_of (sc_key st) = ret (take d (sc_key st))"
    using assms(1-3) by (intro cstr_of_terminated) (auto simp: in_set_conv_nth)
  then show ?thesis
    using assms(4) by (auto simp: append_result_def scanned_def)
qed

lemma scanned_emit_value:
  assumes "Suc d < length (sc_key st)" and "0 \<notin> set (take (Suc d) (sc_key st))"
    and "sc_size st < limit"
  shows "scanned cap limit (Suc d) (if nd_value n \<noteq> 0 then [[]] else []) st (emit_value cap n d st)"
proof (cases "nd_value n = 0")
  case False
  have "scanned cap limit (Suc d) [[]] st (run_bind (set_key st (Suc d) 0) (append_result cap))"
    by (rule scanned_set_key) (use assms in \<open>auto intro!: scanned_append_result simp: same_path_def\<close>)
  then show ?thesis
    using False by (simp add: emit_value_def)
qed (simp add: emit_value_def scanned_nil)

lemma scanned_set_key_same:
  assumes "take (Suc d) (sc_key st) = take d (sc_key st) @ [c]"
  shows "scanned cap limit (Suc d) [] st (set_key st d c)"
proof -
  have d: "d < length (sc_key st)"
    using arg_cong [OF assms, of length] by auto
  then have "sc_key st ! d = c"
    using assms by (simp add: take_Suc_conv_app_nth)
  then show ?thesis
    using d by (auto simp: set_key_def scanned_def)
qed

text \<open>The value and the longer keys of one node, in either order.\<close>

abbreviation own :: "tst_node \<Rightarrow> cstr list" where
  "own n \<equiv> (if nd_value n \<noteq> 0 then [[]] else [])"

lemma scanned_own:
  assumes "Suc d < length (sc_key st)" and "0 \<notin> set (take (Suc d) (sc_key st))"
  shows "scanned cap limit (Suc d) (own n) st (if limit \<le> sc_size st then ret st else emit_value cap n d st)"
    and "scanned cap limit (Suc d) (own n) st (if sc_size st < limit then emit_value cap n d st else ret st)"
  using scanned_emit_value [OF assms] by (auto simp: scanned_full not_le)

lemma same_path_own:
  assumes "same_path (Suc d) st st'" and "take (Suc d) (sc_key st) = take d (sc_key st) @ [c]"
  shows "take (Suc d) (sc_key st') = take d (sc_key st') @ [c]" and "take d (sc_key st') = take d (sc_key st)"
    and "length (sc_key st') = length (sc_key st)"
  using assms same_path_lower [OF assms(1)] by (auto simp: same_path_def)

lemma same_path_refl [simp]: "same_path d st st"
  by (simp add: same_path_def)

lemma same_path_trans: "same_path d st st' \<Longrightarrow> same_path d st' st'' \<Longrightarrow> same_path d st st''"
  by (simp add: same_path_def)

lemma scanned_mid:
  assumes f: "\<And>st'. same_path (Suc d) st st' \<Longrightarrow> scanned cap limit (Suc d) ks st' (f st')"
    and len: "Suc d < length (sc_key st)" and nz: "0 \<notin> set (take (Suc d) (sc_key st))"
    and c: "take (Suc d) (sc_key st) = take d (sc_key st) @ [c]"
  shows "sc_size st < limit \<Longrightarrow> scanned cap limit d (map (Cons c) (own n @ ks)) st
      (run_bind (emit_value cap n d st) (\<lambda>st. run_bind (f st) (\<lambda>st. set_key st d c)))"
    and "scanned cap limit d (map (Cons c) (ks @ own n)) st
      (run_bind (f st) (\<lambda>st. if limit \<le> sc_size st then ret st else emit_value cap n d st))"
proof -
  have last: "scanned cap limit (Suc d) [] st' (set_key st' d c)" if "same_path (Suc d) st st'" for st'
    by (rule scanned_set_key_same) (rule same_path_own [OF that c])
  have mid: "scanned cap limit (Suc d) (ks @ []) st' (run_bind (f st') (\<lambda>st. set_key st d c))"
    if "same_path (Suc d) st st'" for st'
    by (rule scanned_bind [OF f [OF that]]) (blast intro: last same_path_trans [OF that])
  assume "sc_size st < limit"
  then have "scanned cap limit (Suc d) (own n @ ks @ []) st
      (run_bind (emit_value cap n d st) (\<lambda>st. run_bind (f st) (\<lambda>st. set_key st d c)))"
    by (intro scanned_bind scanned_emit_value len nz mid)
  from scanned_lower [OF this c]
  show "scanned cap limit d (map (Cons c) (own n @ ks)) st
      (run_bind (emit_value cap n d st) (\<lambda>st. run_bind (f st) (\<lambda>st. set_key st d c)))"
    by (simp only: append_Nil2)
next
  have "scanned cap limit (Suc d) (own n) st' (if limit \<le> sc_size st' then ret st' else emit_value cap n d st')"
    if "same_path (Suc d) st st'" for st'
    by (rule scanned_own) (use that len nz in \<open>auto simp: same_path_def\<close>)
  then show "scanned cap limit d (map (Cons c) (ks @ own n)) st
      (run_bind (f st) (\<lambda>st. if limit \<le> sc_size st then ret st else emit_value cap n d st))"
    by (intro scanned_lower [OF _ c] scanned_bind f same_path_refl)
qed

lemma keys_Br:
  assumes "v = nd_value n"
  shows "keys (Br a c v l m r) = keys l @ map (Cons c) (own n @ keys m) @ keys r"
    and "rev (keys (Br a c v l m r)) = rev (keys r) @ map (Cons c) (rev (keys m) @ own n) @ rev (keys l)"
  using assms by (auto simp: rev_map)

text \<open>A walk that goes on only below the limit.\<close>

lemma scanned_then:
  assumes "scanned cap limit d xs st r"
    and "\<And>st'. same_path d st st' \<Longrightarrow> sc_size st' < limit \<Longrightarrow> scanned cap limit d ys st' (f st')"
  shows "scanned cap limit d (xs @ ys) st (run_bind r (\<lambda>st. if limit \<le> sc_size st then ret st else f st))"
    and "scanned cap limit d (xs @ ys) st (run_bind r (\<lambda>st. if sc_size st < limit then f st else ret st))"
  by (rule scanned_bind [OF assms(1)], use assms(2) in \<open>auto simp: scanned_full not_le\<close>)+

lemma scanned_node:
  assumes first: "scanned cap limit d xs st r"
    and mid: "\<And>st'. \<lbrakk>same_path d st st'; take (Suc d) (sc_key st') = take d (sc_key st') @ [c];
        sc_size st' < limit\<rbrakk> \<Longrightarrow> scanned cap limit d ys st' (g st')"
    and second: "\<And>st'. same_path d st st' \<Longrightarrow> scanned cap limit d zs st' (h st')"
    and len: "d < length (sc_key st)"
  shows "scanned cap limit d (xs @ ys @ zs) st
    (run_bind r (\<lambda>st. run_bind (set_key st d c) (\<lambda>st.
       if limit \<le> sc_size st then ret st
       else run_bind (g st) (\<lambda>st.
         if limit \<le> sc_size st then ret st
         else run_bind (h st) (\<lambda>st. set_key st d c)))))"
proof (rule scanned_bind [OF first])
  have len': "d < length (sc_key st')" if "same_path d st st'" for st'
    using len that by (simp add: same_path_def)
  have last: "scanned cap limit d zs st' (run_bind (h st') (\<lambda>st. set_key st d c))"
    if "same_path d st st'" for st'
    using scanned_bind [OF second [OF that], of "[]" "\<lambda>st. set_key st d c"]
      scanned_set_key_last [OF len'] same_path_trans [OF that] by simp
  fix st1 assume st1: "same_path d st st1"
  show "scanned cap limit d (ys @ zs) st1 (run_bind (set_key st1 d c) (\<lambda>st.
       if limit \<le> sc_size st then ret st
       else run_bind (g st) (\<lambda>st.
         if limit \<le> sc_size st then ret st
         else run_bind (h st) (\<lambda>st. set_key st d c))))"
  proof (rule scanned_set_key [OF len' [OF st1]])
    fix st2 assume st2: "same_path d st1 st2" "take (Suc d) (sc_key st2) = take d (sc_key st2) @ [c]"
    have p: "same_path d st st2" by (rule same_path_trans [OF st1 st2(1)])
    show "scanned cap limit d (ys @ zs) st2
       (if limit \<le> sc_size st2 then ret st2
        else run_bind (g st2) (\<lambda>st.
         if limit \<le> sc_size st then ret st
         else run_bind (h st) (\<lambda>st. set_key st d c)))"
    proof (cases "limit \<le> sc_size st2")
      case False
      then have "scanned cap limit d (ys @ zs) st2 (run_bind (g st2) (\<lambda>st.
         if limit \<le> sc_size st then ret st
         else run_bind (h st) (\<lambda>st. set_key st d c)))"
        by (intro scanned_then(1) mid [OF p st2(2)] last) (auto intro: same_path_trans [OF p])
      then show ?thesis using False by simp
    qed (simp add: scanned_full)
  qed
qed

lemma dfs_ok:
  assumes "repr (db_data db) node t" and "addrs t \<subseteq> A" and "heap_inv db fs A"
    and "all_chars (\<lambda>c. c \<noteq> 0) t" and "d + depth t < length (sc_key st)"
    and "0 \<notin> set (take d (sc_key st))"
  shows "scanned cap limit d (if asc then keys t else rev (keys t)) st (dfs db cap limit asc node d st)"
  using assms
proof (induction t arbitrary: node d st)
  case Lf
  then show ?case by (simp add: dfs.simps scanned_nil)
next
  case (Br a c v l m r)
  let ?n = "db_data db a" and ?ks = "\<lambda>t. if asc then keys t else rev (keys t)"
  have n: "node = a" "a \<noteq> 0" "nd_c ?n = c" "nd_value ?n = v" "get_node db a = ret ?n" "c \<noteq> 0"
    using Br.prems by (auto simp: get_node_in_use)
  have L: "scanned cap limit d (?ks l) st' (dfs db cap limit asc (nd_left ?n) d st')"
    if "same_path d st st'" for st'
    by (rule Br.IH(1)) (use Br.prems that in \<open>auto simp: same_path_def\<close>)
  have R: "scanned cap limit d (?ks r) st' (dfs db cap limit asc (nd_right ?n) d st')"
    if "same_path d st st'" for st'
    by (rule Br.IH(3)) (use Br.prems that in \<open>auto simp: same_path_def\<close>)
  have M: "scanned cap limit (Suc d) (?ks m) st'' (dfs db cap limit asc (nd_mid ?n) (Suc d) st'')"
    if "same_path d st st'" "take (Suc d) (sc_key st') = take d (sc_key st') @ [c]" "same_path (Suc d) st' st''"
    for st' st''
    by (rule Br.IH(2)) (use Br.prems that n in \<open>auto simp: same_path_def\<close>)
  have len: "Suc d < length (sc_key st')" "d < length (sc_key st')" if "same_path d st st'" for st'
    using Br.prems that by (auto simp: same_path_def)
  have nz: "0 \<notin> set (take (Suc d) (sc_key st'))"
    if "same_path d st st'" "take (Suc d) (sc_key st') = take d (sc_key st') @ [c]" for st'
    using that Br.prems n by (auto simp: same_path_def)
  have d: "d < length (sc_key st)"
    by (rule len [OF same_path_refl])
  show ?case
  proof (cases asc)
    case True
    then have asc: "asc = True" by simp
    have "dfs db cap limit True node d st =
      (if limit \<le> sc_size st then ret st
       else run_bind (dfs db cap limit True (nd_left ?n) d st) (\<lambda>st. run_bind (set_key st d c) (\<lambda>st.
         if limit \<le> sc_size st then ret st
         else run_bind (run_bind (emit_value cap ?n d st) (\<lambda>st.
                run_bind (dfs db cap limit True (nd_mid ?n) (Suc d) st) (\<lambda>st. set_key st d c))) (\<lambda>st.
           if limit \<le> sc_size st then ret st
           else run_bind (dfs db cap limit True (nd_right ?n) d st) (\<lambda>st. set_key st d c)))))"
      unfolding dfs.simps [of db cap limit True node] by (simp add: n Let_def cong: if_cong)
    moreover have "scanned cap limit d (keys l @ map (Cons c) (own ?n @ keys m) @ keys r) st \<dots>"
      by (intro scanned_guard(1) scanned_node L [unfolded asc if_True] R [unfolded asc if_True]
          scanned_mid(1) M [unfolded asc if_True] same_path_refl len nz d)
    ultimately show ?thesis
      using keys_Br(1) [OF n(4) [symmetric], of a c l m r] by (simp only: asc if_True)
  next
    case False
    then have asc: "asc = False" by simp
    have "dfs db cap limit False node d st =
      (if limit \<le> sc_size st then ret st
       else run_bind (dfs db cap limit False (nd_right ?n) d st) (\<lambda>st. run_bind (set_key st d c) (\<lambda>st.
         if limit \<le> sc_size st then ret st
         else run_bind (run_bind (dfs db cap limit False (nd_mid ?n) (Suc d) st) (\<lambda>st.
                if limit \<le> sc_size st then ret st else emit_value cap ?n d st)) (\<lambda>st.
           if limit \<le> sc_size st then ret st
           else run_bind (dfs db cap limit False (nd_left ?n) d st) (\<lambda>st. set_key st d c)))))"
      unfolding dfs.simps [of db cap limit False node] by (simp add: n Let_def cong: if_cong)
    moreover have "scanned cap limit d (rev (keys r) @ map (Cons c) (rev (keys m) @ own ?n) @ rev (keys l)) st \<dots>"
      by (intro scanned_guard(1) scanned_node L [unfolded asc if_False] R [unfolded asc if_False]
          scanned_mid(2) M [unfolded asc if_False] same_path_refl len nz d)
    ultimately show ?thesis
      using keys_Br(2) [OF n(4) [symmetric], of a c l m r] by (simp only: asc if_False)
  qed
qed

section \<open>Keys up to a bound, keys from a bound\<close>

text \<open>What \<open>dfs_less\<close> and \<open>dfs_greater\<close> list of a tree, in their order.\<close>

fun less_keys :: "'a tst \<Rightarrow> cstr \<Rightarrow> cstr list" where
  "less_keys Lf key = []"
| "less_keys (Br a c v l m r) key =
     (if char_at key 0 < c then less_keys l key
      else if char_at key 0 = c
      then map (Cons c) (less_keys m (drop 1 key) @ (if v \<noteq> 0 then [[]] else [])) @ rev (keys l)
      else less_keys r key @ map (Cons c) (rev (keys m) @ (if v \<noteq> 0 then [[]] else [])) @ rev (keys l))"

fun greater_keys :: "'a tst \<Rightarrow> cstr \<Rightarrow> cstr list" where
  "greater_keys Lf key = []"
| "greater_keys (Br a c v l m r) key =
     (if c < char_at key 0 then greater_keys r key
      else if char_at key 0 = c
      then map (Cons c) ((if char_at key 1 = 0 \<and> v \<noteq> 0 then [[]] else []) @ greater_keys m (drop 1 key)) @ keys r
      else greater_keys l key @ map (Cons c) ((if v \<noteq> 0 then [[]] else []) @ keys m) @ keys r)"

lemma scanned_below:
  assumes "scanned cap limit (Suc d) xs st r"
    and "\<And>st'. same_path (Suc d) st st' \<Longrightarrow> r = ret st' \<Longrightarrow> scanned cap limit (Suc d) ys st' (f st')"
    and "\<And>st'. same_path d st st' \<Longrightarrow> scanned cap limit d zs st' (g st')"
    and "take (Suc d) (sc_key st) = take d (sc_key st) @ [c]"
  shows "scanned cap limit d (map (Cons c) (xs @ ys) @ zs) st (run_bind r (\<lambda>st. run_bind (f st) g))"
  unfolding run_bind_assoc [symmetric]
  by (intro scanned_bind scanned_lower [OF scanned_bind_ret]) (fact assms)+

lemma less_keys_upper:
  assumes "bst t" and "all_chars (\<lambda>c. c \<noteq> 0) t"
  shows "less_keys t key = rev (filter (\<lambda>k. k \<le> key @ [0]) (keys t))"
  using assms
proof (induction t arbitrary: key)
  case (Br a c v l m r)
  have below: "\<And>k k0 ks. k \<in> set (keys l) \<Longrightarrow> c \<le> k0 \<Longrightarrow> k \<le> k0 # ks"
    and above: "\<And>k k0 ks. k \<in> set (keys r) \<Longrightarrow> k0 \<le> c \<Longrightarrow> \<not> k \<le> k0 # ks"
  proof -
    fix k ks and k0 :: cchar
    show "k \<in> set (keys l) \<Longrightarrow> c \<le> k0 \<Longrightarrow> k \<le> k0 # ks"
      using Br.prems by (cases k) (auto dest!: hd_keys)
    show "k \<in> set (keys r) \<Longrightarrow> k0 \<le> c \<Longrightarrow> \<not> k \<le> k0 # ks"
      using Br.prems by (cases k) (auto dest!: hd_keys)
  qed
  obtain k0 ks where key: "key @ [0] = k0 # ks" "char_at key 0 = k0" "k0 = c \<Longrightarrow> ks = drop 1 key @ [0]"
    using Br.prems by (cases key) auto
  have l: "k0 < c \<Longrightarrow> filter (\<lambda>k. k \<le> k0 # ks) (keys l) = rev (less_keys l key)"
    and r: "c < k0 \<Longrightarrow> filter (\<lambda>k. k \<le> k0 # ks) (keys r) = rev (less_keys r key)"
    using Br key by (simp_all flip: key(1))
  have m: "k0 = c \<Longrightarrow> filter (\<lambda>k. k \<le> ks) (keys m) = rev (less_keys m (drop 1 key))"
    using Br key by simp
  show ?case
    unfolding key(1)
    using l m r key(2) below above
    by (auto simp: filter_empty_conv filter_map o_def rev_map not_less intro: filter_True)
qed simp

lemma greater_keys_lower:
  assumes "bst t" and "all_chars (\<lambda>c. c \<noteq> 0) t" and "0 \<notin> set key"
  shows "greater_keys t key = filter (\<lambda>k. k = key \<or> key @ [0] < k) (keys t)"
  using assms
proof (induction t arbitrary: key)
  case (Br a c v l m r)
  obtain k0 ks where key: "key @ [0] = k0 # ks" "char_at key 0 = k0" "k0 = c \<Longrightarrow> key = c # drop 1 key"
    "k0 = c \<Longrightarrow> ks = drop 1 key @ [0]" "key \<noteq> [] \<Longrightarrow> k0 = hd key"
    using Br.prems by (cases key) auto
  have below: "\<not> (k = key \<or> k0 # ks < k)" if "k \<in> set (keys l)" "c \<le> k0" for k
    using Br.prems that key(5) by (cases k; cases "key = []") (auto dest!: hd_keys)
  have above: "k0 # ks < k" if "k \<in> set (keys r)" "k0 \<le> c" for k
    using Br.prems that by (cases k) (auto dest!: hd_keys)
  have l: "k0 < c \<Longrightarrow> filter (\<lambda>k. k = key \<or> k0 # ks < k) (keys l) = greater_keys l key"
    and r: "c < k0 \<Longrightarrow> filter (\<lambda>k. k = key \<or> k0 # ks < k) (keys r) = greater_keys r key"
    using Br key(1) by (simp_all flip: key(1))
  have z: "0 \<notin> set (drop 1 key)"
    using Br.prems(3) by (auto dest: in_set_dropD)
  have m: "k0 = c \<Longrightarrow> filter (\<lambda>k. k = drop 1 key \<or> ks < k) (keys m) = greater_keys m (drop 1 key)"
    using Br key(4) z by simp
  have one: "char_at key 1 = 0 \<longleftrightarrow> drop 1 key = []"
    using Br.prems(3) by (cases key; cases "drop 1 key") (auto simp: char_at_def)
  show ?case
  proof (cases "k0 = c")
    case True
    then obtain key' where key': "key = c # key'" using key(3) by blast
    then have "filter (\<lambda>k. k = key \<or> k0 # ks < k) (map (Cons c) xs) =
        map (Cons c) (filter (\<lambda>k. k = key' \<or> ks < k) xs)" for xs
      using True by (simp add: filter_map o_def)
    moreover have "key' @ [0] = ks"
      using key(4) True key' by simp
    ultimately show ?thesis
      unfolding key(1) using True m key(2) below above one key'
      by (auto simp: filter_empty_conv intro: filter_True)
  next
    case False
    then consider "k0 < c" | "c < k0" by fastforce
    then show ?thesis
    proof cases
      case 1
      then have "k0 # ks < c # k" "c # k \<noteq> key" for k
        using key(2) by auto
      then show ?thesis
        unfolding key(1) using 1 l key(2) above by (auto simp: filter_map o_def intro: filter_True)
    next
      case 2
      then have "\<not> k0 # ks < c # k" "c # k \<noteq> key" for k
        using key(2) by auto
      then show ?thesis
        unfolding key(1) using 2 r key(2) below by (auto simp: filter_empty_conv filter_map o_def)
    qed
  qed
qed simp

lemma dfs_less_ok:
  assumes "repr (db_data db) node t" and "addrs t \<subseteq> A" and "heap_inv db fs A"
    and "all_chars (\<lambda>c. c \<noteq> 0) t" and "d + depth t < length (sc_key st)"
    and "0 \<notin> set (take d (sc_key st))" and "0 < limit"
  shows "scanned cap limit d (less_keys t key) st (dfs_less db cap limit node key d st)"
  using assms
proof (induction t arbitrary: node d st key)
  case Lf
  then show ?case by (simp add: dfs_less.simps scanned_nil)
next
  case (Br a c v l m r)
  let ?n = "db_data db a"
  have n: "node = a" "a \<noteq> 0" "nd_c ?n = c" "nd_value ?n = v" "get_node db a = ret ?n" "c \<noteq> 0" "\<not> limit \<le> 0"
    using Br.prems by auto
  have L: "scanned cap limit d (less_keys l key) st' (dfs_less db cap limit (nd_left ?n) key d st')"
    and R: "scanned cap limit d (less_keys r key) st' (dfs_less db cap limit (nd_right ?n) key d st')"
    and D: "scanned cap limit d (rev (keys l)) st'
      (if sc_size st' < limit then dfs db cap limit False (nd_left ?n) d st' else ret st')"
    if "same_path d st st'" for st'
  proof -
    show "scanned cap limit d (less_keys l key) st' (dfs_less db cap limit (nd_left ?n) key d st')"
      by (rule Br.IH(1)) (use Br.prems that in \<open>auto simp: same_path_def\<close>)
    show "scanned cap limit d (less_keys r key) st' (dfs_less db cap limit (nd_right ?n) key d st')"
      by (rule Br.IH(3)) (use Br.prems that in \<open>auto simp: same_path_def\<close>)
    show "scanned cap limit d (rev (keys l)) st'
      (if sc_size st' < limit then dfs db cap limit False (nd_left ?n) d st' else ret st')"
      by (rule scanned_guard(2), rule dfs_ok [where asc = False, simplified])
        (use Br.prems that in \<open>auto simp: same_path_def\<close>)
  qed
  have M: "scanned cap limit (Suc d) (less_keys m key') st' (dfs_less db cap limit (nd_mid ?n) key' (Suc d) st')"
    and E: "scanned cap limit (Suc d) (rev (keys m)) st'
      (if sc_size st' < limit then dfs db cap limit False (nd_mid ?n) (Suc d) st' else ret st')"
    and O: "scanned cap limit (Suc d) (own ?n) st' (if sc_size st' < limit then emit_value cap ?n d st' else ret st')"
    if "same_path d st st'" "take (Suc d) (sc_key st') = take d (sc_key st') @ [c]" for st' key'
  proof -
    show "scanned cap limit (Suc d) (less_keys m key') st' (dfs_less db cap limit (nd_mid ?n) key' (Suc d) st')"
      by (rule Br.IH(2)) (use Br.prems that n in \<open>auto simp: same_path_def\<close>)
    show "scanned cap limit (Suc d) (rev (keys m)) st'
      (if sc_size st' < limit then dfs db cap limit False (nd_mid ?n) (Suc d) st' else ret st')"
      by (rule scanned_guard(2), rule dfs_ok [where asc = False, simplified])
        (use Br.prems that n in \<open>auto simp: same_path_def\<close>)
    show "scanned cap limit (Suc d) (own ?n) st' (if sc_size st' < limit then emit_value cap ?n d st' else ret st')"
      by (rule scanned_own) (use Br.prems that n in \<open>auto simp: same_path_def\<close>)
  qed
  have eq: "dfs_less db cap limit node key d st = run_bind (set_key st d c) (\<lambda>st.
      if char_at key 0 < c then dfs_less db cap limit (nd_left ?n) key d st
      else if char_at key 0 = c
      then run_bind (dfs_less db cap limit (nd_mid ?n) (drop 1 key) (Suc d) st) (\<lambda>st.
           run_bind (if sc_size st < limit then emit_value cap ?n d st else ret st) (\<lambda>st.
           if sc_size st < limit then dfs db cap limit False (nd_left ?n) d st else ret st))
      else run_bind (dfs_less db cap limit (nd_right ?n) key d st) (\<lambda>st.
           run_bind (set_key st d c) (\<lambda>st.
           run_bind (if sc_size st < limit then dfs db cap limit False (nd_mid ?n) (Suc d) st
                     else ret st) (\<lambda>st.
           run_bind (if sc_size st < limit then emit_value cap ?n d st else ret st) (\<lambda>st.
           if sc_size st < limit then dfs db cap limit False (nd_left ?n) d st else ret st)))))"
    unfolding dfs_less.simps [of db cap limit node] by (simp add: n Let_def cong: if_cong)
  have len: "d < length (sc_key st')" if "same_path d st st'" for st'
    using Br.prems that by (auto simp: same_path_def)
  have v: "(if v \<noteq> 0 then [[]] else []) = own ?n"
    by (simp add: n(4))
  show ?case
    unfolding eq
  proof (rule scanned_set_key [OF len [OF same_path_refl]], goal_cases)
    case (1 st1)
    note p1 = 1(1)
    have below: "same_path d st st'" "take (Suc d) (sc_key st') = take d (sc_key st') @ [c]"
      if "same_path (Suc d) st2 st'" "same_path d st st2" "take (Suc d) (sc_key st2) = take d (sc_key st2) @ [c]" for st2 st'
      using same_path_own [OF that(1,3)] that(2) by (auto simp: same_path_def)
    consider "char_at key 0 < c" | "char_at key 0 = c" | "c < char_at key 0" by fastforce
    then show ?case
    proof cases
      case 1
      then show ?thesis using L [OF p1] by simp
    next
      case 2
      have "scanned cap limit d (map (Cons c) (less_keys m (drop 1 key) @ own ?n) @ rev (keys l)) st1
        (run_bind (dfs_less db cap limit (nd_mid ?n) (drop 1 key) (Suc d) st1) (\<lambda>st.
           run_bind (if sc_size st < limit then emit_value cap ?n d st else ret st) (\<lambda>st.
           if sc_size st < limit then dfs db cap limit False (nd_left ?n) d st else ret st)))"
        by (rule scanned_below [OF M O D]) (use p1 \<open>take (Suc d) (sc_key st1) = _\<close> below same_path_trans in blast)+
      then show ?thesis using 2 v by simp
    next
      case 3
      have "scanned cap limit d (less_keys r key @ map (Cons c) (rev (keys m) @ own ?n) @ rev (keys l)) st1
        (run_bind (dfs_less db cap limit (nd_right ?n) key d st1) (\<lambda>st.
           run_bind (set_key st d c) (\<lambda>st.
           run_bind (if sc_size st < limit then dfs db cap limit False (nd_mid ?n) (Suc d) st
                     else ret st) (\<lambda>st.
           run_bind (if sc_size st < limit then emit_value cap ?n d st else ret st) (\<lambda>st.
           if sc_size st < limit then dfs db cap limit False (nd_left ?n) d st else ret st)))))"
      proof (rule scanned_bind [OF R [OF p1]], rule scanned_set_key, goal_cases)
        case (1 st2)
        then show ?case using len same_path_trans [OF p1] by blast
      next
        case (2 st2 st3)
        then have p3: "same_path d st st3"
          using same_path_trans [OF p1] same_path_trans by blast
        show ?case
          by (rule scanned_below [OF E O D]) (use p3 2(3) below same_path_trans in blast)+
      qed
      moreover have "\<not> char_at key 0 < c" "char_at key 0 \<noteq> c"
        using 3 by auto
      ultimately show ?thesis using v by simp
    qed
  qed
qed

text \<open>
  \<open>dfs_greater\<close> appends the bound itself without terminating the key buffer; the buffer is
  still zero beyond the path then.
\<close>

lemma append_result_key: "append_result cap st = ret st' \<Longrightarrow> sc_key st' = sc_key st"
  by (auto simp: append_result_def run_bind_eq_ret split: if_splits)

definition clean_beyond :: "nat \<Rightarrow> scan \<Rightarrow> bool" where
  "clean_beyond d st \<longleftrightarrow> (\<forall>i. d < i \<and> i < length (sc_key st) \<longrightarrow> sc_key st ! i = 0)"

lemma dfs_greater_ok:
  assumes "repr (db_data db) node t" and "addrs t \<subseteq> A" and "heap_inv db fs A"
    and "all_chars (\<lambda>c. c \<noteq> 0) t" and "d + depth t < length (sc_key st)"
    and "0 \<notin> set (take d (sc_key st))" and "0 < limit" and "clean_beyond d st"
  shows "scanned cap limit d (greater_keys t key) st (dfs_greater db cap limit node key d st)"
  using assms
proof (induction t arbitrary: node d st key)
  case Lf
  then show ?case by (simp add: dfs_greater.simps scanned_nil)
next
  case (Br a c v l m r)
  let ?n = "db_data db a" and ?own = "\<lambda>b. if b \<and> v \<noteq> 0 then [[]] else []"
  have n: "node = a" "a \<noteq> 0" "nd_c ?n = c" "nd_value ?n = v" "get_node db a = ret ?n" "c \<noteq> 0" "\<not> limit \<le> 0"
    using Br.prems by auto
  have L: "scanned cap limit d (greater_keys l key) st' (dfs_greater db cap limit (nd_left ?n) key d st')"
    if "same_path d st st'" "clean_beyond d st'" for st'
    by (rule Br.IH(1)) (use Br.prems that in \<open>auto simp: same_path_def\<close>)
  have R: "scanned cap limit d (greater_keys r key) st' (dfs_greater db cap limit (nd_right ?n) key d st')"
    if "same_path d st st'" "clean_beyond d st'" for st'
    by (rule Br.IH(3)) (use Br.prems that in \<open>auto simp: same_path_def\<close>)
  have D: "scanned cap limit d (keys r) st'
      (if sc_size st' < limit then dfs db cap limit True (nd_right ?n) d st' else ret st')"
    if "same_path d st st'" for st'
    by (rule scanned_guard(2), rule dfs_ok [where asc = True, simplified])
      (use Br.prems that in \<open>auto simp: same_path_def\<close>)
  have M: "scanned cap limit (Suc d) (greater_keys m key') st'
      (if sc_size st' < limit then dfs_greater db cap limit (nd_mid ?n) key' (Suc d) st' else ret st')"
    if "same_path d st st'" "take (Suc d) (sc_key st') = take d (sc_key st') @ [c]" "clean_beyond d st'"
    for st' key'
    by (rule scanned_guard(2), rule Br.IH(2))
      (use Br.prems that n in \<open>auto simp: same_path_def clean_beyond_def\<close>)
  have E: "scanned cap limit (Suc d) (keys m) st'
      (if sc_size st' < limit then dfs db cap limit True (nd_mid ?n) (Suc d) st' else ret st')"
    if "same_path d st st'" "take (Suc d) (sc_key st') = take d (sc_key st') @ [c]" for st'
    by (rule scanned_guard(2), rule dfs_ok [where asc = True, simplified])
      (use Br.prems that n in \<open>auto simp: same_path_def\<close>)
  have O: "scanned cap limit (Suc d) (own ?n) st' (if sc_size st' < limit then emit_value cap ?n d st' else ret st')"
    if "same_path d st st'" "take (Suc d) (sc_key st') = take d (sc_key st') @ [c]" for st'
    by (rule scanned_own) (use Br.prems that n in \<open>auto simp: same_path_def\<close>)
  have B: "scanned cap limit (Suc d) (?own (char_at key 1 = 0)) st'
      (if sc_size st' < limit
       then (if char_at key 1 = 0 \<and> nd_value ?n \<noteq> 0 then append_result cap st' else ret st')
       else ret st')"
    if "same_path d st st'" "take (Suc d) (sc_key st') = take d (sc_key st') @ [c]" "clean_beyond d st'" for st'
  proof (cases "sc_size st' < limit \<and> char_at key 1 = 0 \<and> nd_value ?n \<noteq> 0")
    case True
    then have "scanned cap limit (Suc d) [[]] st' (append_result cap st')"
      by (intro scanned_append_result) (use Br.prems that n in \<open>auto simp: same_path_def clean_beyond_def\<close>)
    then show ?thesis using True n(4) by auto
  next
    case False
    then show ?thesis using n(4) by (auto simp: scanned_full scanned_nil)
  qed
  have eq: "dfs_greater db cap limit node key d st = run_bind (set_key st d c) (\<lambda>st.
      if c < char_at key 0 then dfs_greater db cap limit (nd_right ?n) key d st
      else if char_at key 0 = c
      then run_bind (if sc_size st < limit
                     then (if char_at key 1 = 0 \<and> nd_value ?n \<noteq> 0 then append_result cap st else ret st)
                     else ret st) (\<lambda>st.
           run_bind (if sc_size st < limit then dfs_greater db cap limit (nd_mid ?n) (drop 1 key) (Suc d) st
                     else ret st) (\<lambda>st.
           if sc_size st < limit then dfs db cap limit True (nd_right ?n) d st else ret st))
      else run_bind (dfs_greater db cap limit (nd_left ?n) key d st) (\<lambda>st.
           run_bind (set_key st d c) (\<lambda>st.
           run_bind (if sc_size st < limit then emit_value cap ?n d st else ret st) (\<lambda>st.
           run_bind (if sc_size st < limit then dfs db cap limit True (nd_mid ?n) (Suc d) st
                     else ret st) (\<lambda>st.
           if sc_size st < limit then dfs db cap limit True (nd_right ?n) d st else ret st)))))"
    unfolding dfs_greater.simps [of db cap limit node] by (simp add: n Let_def cong: if_cong)
  have len: "d < length (sc_key st')" if "same_path d st st'" for st'
    using Br.prems that by (auto simp: same_path_def)
  have v: "(if v \<noteq> 0 then [[]] else []) = own ?n"
    by (simp add: n(4))
  show ?case
    unfolding eq
  proof (rule scanned_set_key [OF len [OF same_path_refl]], goal_cases)
    case (1 st1)
    note p1 = 1(1,2)
    have clean: "clean_beyond d st1"
      using Br.prems(8) by (auto simp: 1(3) clean_beyond_def)
    have below: "same_path d st st'" "take (Suc d) (sc_key st') = take d (sc_key st') @ [c]"
      if "same_path (Suc d) st2 st'" "same_path d st st2" "take (Suc d) (sc_key st2) = take d (sc_key st2) @ [c]" for st2 st'
      using same_path_own [OF that(1,3)] that(2) by (auto simp: same_path_def)
    consider "c < char_at key 0" | "char_at key 0 = c" | "char_at key 0 < c" by fastforce
    then show ?case
    proof cases
      case 1
      then show ?thesis using R [OF p1(1) clean] by simp
    next
      case 2
      have "scanned cap limit d (map (Cons c) (?own (char_at key 1 = 0) @ greater_keys m (drop 1 key)) @ keys r) st1
        (run_bind (if sc_size st1 < limit
                     then (if char_at key 1 = 0 \<and> nd_value ?n \<noteq> 0 then append_result cap st1 else ret st1)
                     else ret st1) (\<lambda>st.
           run_bind (if sc_size st < limit then dfs_greater db cap limit (nd_mid ?n) (drop 1 key) (Suc d) st
                     else ret st) (\<lambda>st.
           if sc_size st < limit then dfs db cap limit True (nd_right ?n) d st else ret st)))"
      proof (rule scanned_below [OF B [OF p1 clean] _ D p1(2)], goal_cases)
        case (1 st')
        have "sc_key st' = sc_key st1"
          using 1(2) by (auto split: if_splits dest: append_result_key)
        then have "clean_beyond d st'" using clean by (simp add: clean_beyond_def)
        then show ?case using M below [OF 1(1) p1] by blast
      next
        case (2 st')
        then show ?case using same_path_trans [OF p1(1)] by blast
      qed
      then show ?thesis using 2 by simp
    next
      case 3
      have "scanned cap limit d (greater_keys l key @ map (Cons c) (own ?n @ keys m) @ keys r) st1
        (run_bind (dfs_greater db cap limit (nd_left ?n) key d st1) (\<lambda>st.
           run_bind (set_key st d c) (\<lambda>st.
           run_bind (if sc_size st < limit then emit_value cap ?n d st else ret st) (\<lambda>st.
           run_bind (if sc_size st < limit then dfs db cap limit True (nd_mid ?n) (Suc d) st
                     else ret st) (\<lambda>st.
           if sc_size st < limit then dfs db cap limit True (nd_right ?n) d st else ret st)))))"
      proof (rule scanned_bind [OF L [OF p1(1) clean]], rule scanned_set_key, goal_cases)
        case (1 st2)
        then show ?case using len same_path_trans [OF p1(1)] by blast
      next
        case (2 st2 st3)
        then have p3: "same_path d st st3"
          using same_path_trans [OF p1(1)] same_path_trans by blast
        show ?case
          by (rule scanned_below [OF O E D]) (use p3 2(3) below same_path_trans in blast)+
      qed
      moreover have "\<not> c < char_at key 0" "char_at key 0 \<noteq> c"
        using 3 by auto
      ultimately show ?thesis using v by simp
    qed
  qed
qed

section \<open>The public scans\<close>

lemma map_append_Nil [simp]: "map ((@) []) ks = ks"
  by (simp add: map_idI)

lemma scan_out_run:
  assumes "scanned cap limit d ks (new_scan b) r"
  shows "run_bind r scan_out = emit cap limit (map ((@) (take d b)) ks) ([], 0)"
proof -
  have id: "run_bind m ret = m" for m :: "(cstr \<times> int) run"
    by (simp add: run_bind_def split: Option.bind_split sum.split)
  show ?thesis
    using assms by (auto simp: scanned_def new_scan_def scan_out_def run_bind_assoc id case_prod_unfold)
qed

lemma tst_less_ok:
  assumes inv: "tst_inv db t fs" and d: "depth t < max_key_size" and key: "key \<noteq> []"
  shows "tst_less db cap key ([], 0) limit = emit cap limit (rev (filter (\<lambda>k. k \<le> key @ [0]) (keys t))) ([], 0)"
proof -
  note I = inv [unfolded tst_inv_def]
  let ?st = "new_scan (replicate max_key_size 0)"
  have root: "db_root db = 0 \<Longrightarrow> t = Lf" using I by auto
  show ?thesis
  proof (cases "0 < limit")
    case True
    have "scanned cap limit 0 (less_keys t key) ?st (dfs_less db cap limit (db_root db) key 0 ?st)"
      by (rule dfs_less_ok) (use I d True in \<open>auto simp: new_scan_def\<close>)
    then show ?thesis
      using scan_out_run [of cap limit 0] key I root less_keys_upper [of t key] by (auto simp: tst_less_def Let_def)
  next
    case False
    then have "dfs_less db cap limit (db_root db) key 0 ?st = ret ?st" by (simp add: dfs_less.simps)
    then show ?thesis
      using key False by (simp add: tst_less_def Let_def scan_out_def new_scan_def)
  qed
qed

lemma tst_greater_ok:
  assumes inv: "tst_inv db t fs" and d: "depth t < max_key_size" and key: "key \<noteq> []" "0 \<notin> set key"
  shows "tst_greater db cap key ([], 0) limit =
    emit cap limit (filter (\<lambda>k. k = key \<or> key @ [0] < k) (keys t)) ([], 0)"
proof -
  note I = inv [unfolded tst_inv_def]
  let ?st = "new_scan (replicate max_key_size 0)"
  have root: "db_root db = 0 \<Longrightarrow> t = Lf" using I by auto
  show ?thesis
  proof (cases "0 < limit")
    case True
    have "scanned cap limit 0 (greater_keys t key) ?st (dfs_greater db cap limit (db_root db) key 0 ?st)"
      by (rule dfs_greater_ok) (use I d True in \<open>auto simp: new_scan_def clean_beyond_def\<close>)
    then show ?thesis
      using scan_out_run [of cap limit 0] key I root greater_keys_lower [of t key] by (auto simp: tst_greater_def Let_def)
  next
    case False
    then have "dfs_greater db cap limit (db_root db) key 0 ?st = ret ?st" by (simp add: dfs_greater.simps)
    then show ?thesis
      using key False by (simp add: tst_greater_def Let_def scan_out_def new_scan_def)
  qed
qed

lemma search_path_loop_ok:
  assumes "repr (db_data db) node t" and "addrs t \<subseteq> A" and "heap_inv db fs A"
    and "drop d key = ks" and "ks \<noteq> []" and "length key \<le> length path" and "take d path = take d key"
  shows "\<exists>path'. search_path_loop db key (length key) node d path = ret (root_of (sub t ks), path') \<and>
    (sub t ks \<noteq> Lf \<longrightarrow> path' = key @ drop (length key) path)"
  using assms
proof (induction t ks arbitrary: node d path rule: sub.induct)
  case (2 k ks)
  then show ?case by (simp add: search_path_loop.simps)
next
  case (3 a c v l m r k ks)
  note k = char_at_drop [OF "3.prems"(4)] drop_ConsD [OF "3.prems"(4)]
  have d: "d < length key" using "3.prems"(4) by (metis drop_eq_Nil2 leI list.distinct(1))
  have kd: "key ! d = k" using k(1) d by (simp add: char_at_def)
  have p: "k = c \<Longrightarrow> take (Suc d) (path[d := c]) = take (Suc d) key"
    using d "3.prems"(6,7) kd by (simp add: take_list_update_last take_Suc_conv_app_nth)
  have last: "k = c \<Longrightarrow> ks = [] \<Longrightarrow> path[d := c] = key @ drop (length key) path"
    using p arg_cong [OF "3.prems"(4), of length] d append_take_drop_id [of "Suc d" "path[d := c]"]
    by (auto simp: Suc_diff_Suc not_le)
  consider "k < c" | "c < k" | "k = c" "ks \<noteq> []" | "k = c" "ks = []" by fastforce
  then show ?case
  proof cases
    case 3
    have "\<exists>path'. search_path_loop db key (length key) (nd_mid (db_data db a)) (Suc d) (path[d := c]) =
        ret (root_of (sub m ks), path') \<and>
        (sub m ks \<noteq> Lf \<longrightarrow> path' = key @ drop (length key) (path[d := c]))"
      by (rule "3.IH"(3)) (use "3.prems" 3 k p in auto)
    then show ?thesis
      unfolding search_path_loop.simps [of db key "length key" node d path]
      using "3.prems" 3 k d by (auto simp: Let_def)
  next
    case 4
    then show ?thesis
      unfolding search_path_loop.simps [of db key "length key" node d path]
      using "3.prems" k d last by (auto simp: Let_def)
  qed (unfold search_path_loop.simps [of db key "length key" node d path],
      use "3.prems" "3.IH" k in \<open>auto simp: Let_def\<close>)
qed simp

lemma filter_prefix_keys:
  assumes "bst t" and "p \<noteq> []"
  shows "filter (prefix p) (keys t) = (case sub t p of Lf \<Rightarrow> []
    | Br a c v l m r \<Rightarrow> (if v \<noteq> 0 then [p] else []) @ map ((@) p) (keys m))"
  using assms
proof (induction t p rule: sub.induct)
  case (3 a c v l m r k ks)
  have l: "c \<le> k \<Longrightarrow> filter (prefix (k # ks)) (keys l) = []"
    and r: "k \<le> c \<Longrightarrow> filter (prefix (k # ks)) (keys r) = []"
    using "3.prems" by (auto simp: filter_empty_conv prefix_def dest!: hd_keys)
  consider "k < c" | "c < k" | "k = c" by fastforce
  then show ?case
  proof cases
    case 1
    then show ?thesis using 3 r by (auto simp: filter_map o_def filter_empty_conv)
  next
    case 2
    then show ?thesis using 3 l by (auto simp: filter_map o_def filter_empty_conv)
  next
    case 3
    then show ?thesis
      using "3.IH"(3) "3.prems" l r by (cases "ks = []") (auto simp: filter_map o_def split: tst.splits)
  qed
qed auto

text \<open>What \<open>search_with_path\<close> leaves \<open>tst_prefix\<close> with.\<close>

lemma search_with_path_ok:
  assumes inv: "tst_inv db t fs" and p: "p \<noteq> []" "length p < max_key_size"
  obtains b where "search_with_path db p (replicate max_key_size 0) = ret (root_of (sub t p), b)"
    and "sub t p \<noteq> Lf \<longrightarrow> b = p @ replicate (max_key_size - length p) 0"
  using search_path_loop_ok [of db "db_root db" t "addrs t" fs 0 p p "replicate max_key_size 0"] inv p that
  by (auto simp: search_with_path_def tst_inv_def)

lemma scanned_mid_below_path:
  assumes inv: "tst_inv db t fs" and d: "depth t < max_key_size" and p: "p \<noteq> []" "0 \<notin> set p"
    and S: "sub t p = Br a c v l m r" and st: "length (sc_key st) = max_key_size" "take (length p) (sc_key st) = p"
  shows "scanned cap limit (length p) (if asc then keys m else rev (keys m)) st
    (dfs db cap limit asc (nd_mid (db_data db a)) (length p) st)"
proof -
  note I = inv [unfolded tst_inv_def]
  have rs: "repr (db_data db) a (sub t p)" "addrs (sub t p) \<subseteq> addrs t"
    using I repr_sub [of "db_data db" "db_root db" t p] S addrs_sub [of t p] by auto
  have ac: "all_chars (\<lambda>c. c \<noteq> 0) (sub t p) \<and> length p + depth (mid_of (sub t p)) \<le> depth t"
    using I S all_chars_sub [of _ t p] depth_sub [of t p] by auto
  show ?thesis
    by (rule dfs_ok [where A = "addrs t" and fs = fs]) (use I rs ac S d p st in auto)
qed

lemma tst_prefix_ok:
  assumes inv: "tst_inv db t fs" and d: "depth t < max_key_size"
    and p: "p \<noteq> []" "0 \<notin> set p" "length p < max_key_size"
    and order: "asc \<or> tlookup t p = 0"
  shows "tst_prefix db cap p ([], 0) limit asc = emit cap limit
    (if asc then filter (prefix p) (keys t) else rev (filter (prefix p) (keys t))) ([], 0)"
proof -
  note I = inv [unfolded tst_inv_def]
  obtain b where W: "search_with_path db p (replicate max_key_size 0) = ret (root_of (sub t p), b)"
    "sub t p \<noteq> Lf \<longrightarrow> b = p @ replicate (max_key_size - length p) 0"
    by (rule search_with_path_ok [OF inv p(1,3)])
  show ?thesis
  proof (cases "sub t p")
    case Lf
    then show ?thesis
      using W p(1) filter_prefix_keys [of t p] I by (simp add: tst_prefix_def Let_def)
  next
    case (Br a c v l m r)
    let ?n = "db_data db a" and ?L = "length p" and ?st = "new_scan b"
      and ?append = "\<lambda>st. if nd_value (db_data db a) \<noteq> 0 \<and> sc_size st < limit then append_result cap st else ret st"
    have rs: "repr (db_data db) a (sub t p)" "a \<in> addrs t"
      using I repr_sub [of "db_data db" "db_root db" t p] Br addrs_sub [of t p] by auto
    then have n: "nd_value ?n = v" "a \<noteq> 0" "get_node db a = ret ?n" "tlookup t p = v"
      using Br I tlookup_sub [of t p] by auto
    have b: "take ?L b = p" "length b = max_key_size" "?L < length b" "b ! ?L = 0" "cstr_of b = ret p"
    proof -
      have bb: "b = p @ replicate (max_key_size - ?L) 0" using W(2) Br by simp
      show "take ?L b = p" "length b = max_key_size" "?L < length b" "b ! ?L = 0"
        using bb p(3) by (simp_all add: nth_append)
      then show "cstr_of b = ret p"
        using cstr_of_terminated [of ?L b] p(2) bb by (auto simp: nth_append in_set_conv_nth)
    qed
    define go where "go = (\<lambda>st. if sc_size st < limit then run_bind (cstr_of (sc_key st)) (\<lambda>base.
        dfs db cap limit asc (nd_mid ?n) (length base) st) else ret st)"
    have go: "scanned cap limit ?L (if asc then keys m else rev (keys m)) st (go st)" if "sc_key st = b" for st
      unfolding go_def by (rule scanned_guard(2))
        (use that b in \<open>simp add: scanned_mid_below_path [OF inv d p(1,2) Br]\<close>)
    have app: "scanned cap limit ?L (own ?n) ?st (?append ?st)"
    proof (cases "nd_value ?n \<noteq> 0 \<and> 0 < limit")
      case True
      then show ?thesis
        using scanned_append_result [of ?L ?st limit cap] b p by (simp add: new_scan_def)
    qed (auto simp: new_scan_def scanned_nil scanned_full)
    have "tst_prefix db cap p ([], 0) limit asc =
        run_bind (if asc then ?append ?st else ret ?st) (\<lambda>st. run_bind (go st) (\<lambda>st.
          run_bind (if \<not> asc then ?append st else ret st) scan_out))"
      using W(1) p(1) Br n(2,3) by (simp add: tst_prefix_def Let_def go_def)
    also have "\<dots> = emit cap limit (map ((@) p)
        (if asc then own ?n @ keys m else rev (keys m))) ([], 0)"
    proof (cases asc)
      case True
      have "scanned cap limit ?L (own ?n @ (if asc then keys m else rev (keys m))) ?st (run_bind (?append ?st) go)"
        by (rule scanned_bind_ret [OF app])
          (use go in \<open>auto simp: new_scan_def split: if_splits dest!: append_result_key\<close>)
      from scan_out_run [OF this] show ?thesis
        using True b(1) by (simp add: run_bind_assoc)
    next
      case False
      then have "nd_value ?n = 0" using order n by auto
      then show ?thesis
        using False scan_out_run [OF go [of ?st]] b(1) by (simp add: new_scan_def)
    qed
    finally show ?thesis
      using filter_prefix_keys [of t p] Br p(1) I order n by (auto simp: rev_map)
  qed
qed

section \<open>Properties\<close>

text \<open>
  The whole outcome of a scan that finds the keys \<open>ks\<close>: the first \<open>limit\<close> of them, one per
  line, and their number, or a write beyond the result array when they do not fit.
\<close>

definition listing :: "nat \<Rightarrow> int \<Rightarrow> cstr list \<Rightarrow> (cstr \<times> int) run" where
  "listing cap limit ks =
     (let ls = take (nat limit) ks in
      if length (lines ls) < cap then ret (lines ls, int (length ls)) else abort_with Undefined)"

lemma emit_listing: "0 < cap \<Longrightarrow> emit cap limit ks ([], 0) = listing cap limit ks"
  using emit_ok [of "[]" limit 0 ks cap] emit_overflow [of cap "[]" limit 0 ks]
  by (simp add: listing_def Let_def)

lemma le_append_zero:
  fixes k :: cstr
  assumes "list_all (\<lambda>c. 0 < c) k"
  shows "k \<le> key @ [0] \<longleftrightarrow> k \<le> key"
  using assms
proof (induction k arbitrary: key)
  case (Cons c k)
  then have "\<not> c < 0" "c \<noteq> 0" by (auto dest: order.asym)
  with Cons show ?case by (cases key) auto
qed simp

lemma tst_shortE:
  assumes "tst_short db max_key_size"
  obtains t fs where "tst_inv db t fs" and "depth t < max_key_size" and "tst_keys db = keys t"
  using assms by (auto simp: tst_short_def tst_keys_inv)


text \<open>The keys a, ab, abc, b and ca.\<close>

definition sample_ops :: "tst_op list" where
  "sample_ops = [Put (cs ''ab'') 1, Put (cs ''b'') 2, Put (cs ''a'') 3, Put (cs ''ca'') 4, Put (cs ''abc'') 5]"

lemma sample_db:
  obtains db where "run_ops (tst_put (\<lambda>_. True)) tst_delete (create_tst_db (\<lambda>_. zero_node)) sample_ops = ret db"
    and "tst_short db max_key_size"
    and "tst_keys db = [cs ''a'', cs ''ab'', cs ''abc'', cs ''b'', cs ''ca'']"
  by (rule tst_short_fresh [of sample_ops max_key_size])
    (auto simp: sample_ops_def cs_def max_key_size_def)


text \<open>
  C10. In descending order, when the prefix itself is not a key, \<open>tst_prefix\<close> lists the same keys
  from the last to the first.
\<close>

theorem tst_prefix_descending:
  assumes "tst_short db max_key_size" and "p \<noteq> []" and "0 \<notin> set p" and "length p < max_key_size"
    and "0 < cap" and "tst_get db p = ret 0"
  shows "tst_prefix db cap p ([], 0) limit False = listing cap limit (rev (filter (prefix p) (tst_keys db)))"
proof (rule tst_shortE [OF assms(1)])
  fix t fs assume t: "tst_inv db t fs" "depth t < max_key_size" "tst_keys db = keys t"
  have "tlookup t p = 0"
    using assms(6) tst_get_ok [OF t(1), of p] by simp
  then show ?thesis
    using assms t by (simp add: tst_prefix_ok [where asc = False, simplified] emit_listing)
qed

theorem tst_prefix_descending_witness:
  "\<exists>db. run_ops (tst_put (\<lambda>_. True)) tst_delete (create_tst_db (\<lambda>_. zero_node)) (tl sample_ops) = ret db \<and>
    tst_prefix db 100 (cs ''ab'') ([], 0) 2 False = ret (lines [cs ''abc''], 1)"
proof (rule tst_short_fresh [of "tl sample_ops" max_key_size])
  fix db
  assume r: "run_ops (tst_put (\<lambda>_. True)) tst_delete (create_tst_db (\<lambda>_. zero_node)) (tl sample_ops) = ret db"
    "tst_linked db" "tst_short db max_key_size" "tst_keys db = keys (foldl tree_op Lf (tl sample_ops))"
  then have k: "tst_keys db = [cs ''a'', cs ''abc'', cs ''b'', cs ''ca'']"
    by (simp add: sample_ops_def cs_def)
  have "tst_get db (cs ''ab'') = ret 0"
  proof (rule tst_shortE [OF r(3)])
    fix t fs assume t: "tst_inv db t fs" "tst_keys db = keys t"
    have "cs ''ab'' \<notin> set (tst_keys db)" unfolding k by (simp add: cs_def)
    then show ?thesis
      using t set_keys [of t "cs ''ab''"] tst_get_ok [OF t(1)] by (simp add: tst_inv_def)
  qed
  then show ?thesis
    using r(1-3) tst_prefix_descending [of db "cs ''ab''" 100 2] k
    by (simp add: cs_def max_key_size_def listing_def crlf_def)
qed (auto simp: sample_ops_def cs_def max_key_size_def)

lemma key_buffer_start: "replicate 256 (0::cchar) = 0 # 0 # 0 # replicate 253 0"
  by (simp flip: replicate_Suc)


text \<open>
  C11. \<open>tst_less\<close> lists, from the last to the first and up to the limit, the keys up to the bound,
  the bound included; it compares characters as signed bytes, and a key that goes on from the bound
  with a negative one counts as smaller. \<open>tst_greater\<close> lists, from the first to the last and up to
  the limit, the bound, if it is a key, and the keys above it in that order.
\<close>

theorem range_scans_list:
  assumes "tst_short db max_key_size" and "key \<noteq> []" and "0 \<notin> set key" and "0 < cap"
  shows "tst_less db cap key ([], 0) limit =
      listing cap limit (rev (filter (\<lambda>k. k \<le> key @ [0]) (tst_keys db))) \<and>
    tst_greater db cap key ([], 0) limit =
      listing cap limit (filter (\<lambda>k. k = key \<or> key @ [0] < k) (tst_keys db))"
  by (rule tst_shortE [OF assms(1)]) (use assms in \<open>simp add: tst_less_ok tst_greater_ok emit_listing\<close>)

theorem range_scans_list_witness:
  "\<exists>db. run_ops (tst_put (\<lambda>_. True)) tst_delete (create_tst_db (\<lambda>_. zero_node)) sample_ops = ret db \<and>
    tst_less db 100 (cs ''abc'') ([], 0) 2 = ret (lines [cs ''abc'', cs ''ab''], 2) \<and>
    tst_greater db 100 (cs ''ab'') ([], 0) 3 = ret (lines [cs ''ab'', cs ''abc'', cs ''b''], 3)"
proof (rule sample_db)
  fix db
  assume "run_ops (tst_put (\<lambda>_. True)) tst_delete (create_tst_db (\<lambda>_. zero_node)) sample_ops = ret db"
    "tst_short db max_key_size" "tst_keys db = [cs ''a'', cs ''ab'', cs ''abc'', cs ''b'', cs ''ca'']"
  then show ?thesis
    using range_scans_list [of db "cs ''abc''" 100 2] range_scans_list [of db "cs ''ab''" 100 3]
    by (simp add: cs_def listing_def crlf_def)
qed

text \<open>
  On keys of positive characters the two scans split the keys at the bound: \<open>tst_less\<close> lists
  those not above it and \<open>tst_greater\<close> those not below it.
\<close>

theorem scans_split_at_bound:
  assumes "tst_short db max_key_size" and "key \<noteq> []" and "0 < cap"
    and "\<forall>k \<in> set (key # tst_keys db). list_all (\<lambda>c. 0 < c) k"
  shows "tst_less db cap key ([], 0) limit = listing cap limit (rev (filter (\<lambda>k. k \<le> key) (tst_keys db))) \<and>
    tst_greater db cap key ([], 0) limit = listing cap limit (filter (\<lambda>k. key \<le> k) (tst_keys db))"
proof (rule tst_shortE [OF assms(1)])
  fix t fs assume t: "tst_inv db t fs" "depth t < max_key_size" "tst_keys db = keys t"
  have "filter (\<lambda>k. k \<le> key @ [0]) (keys t) = filter (\<lambda>k. k \<le> key) (keys t)"
    by (rule filter_cong) (use assms(4) t in \<open>auto simp: le_append_zero\<close>)
  moreover have "filter (\<lambda>k. k = key \<or> key @ [0] < k) (keys t) = filter (\<lambda>k. key \<le> k) (keys t)"
    by (rule filter_cong) (use assms(4) t le_append_zero in \<open>auto simp flip: not_le\<close>)
  moreover have "0 \<notin> set key"
    using assms(4) by (auto simp: list_all_iff)
  ultimately show ?thesis
    using assms(2,3) t by (simp add: tst_less_ok tst_greater_ok emit_listing)
qed

theorem scans_split_at_bound_witness:
  "\<exists>db. run_ops (tst_put (\<lambda>_. True)) tst_delete (create_tst_db (\<lambda>_. zero_node)) sample_ops = ret db \<and>
    tst_less db 100 (cs ''b'') ([], 0) 1 = ret (lines [cs ''b''], 1) \<and>
    tst_greater db 100 (cs ''b'') ([], 0) 9 = ret (lines [cs ''b'', cs ''ca''], 2)"
proof (rule sample_db)
  fix db
  assume "run_ops (tst_put (\<lambda>_. True)) tst_delete (create_tst_db (\<lambda>_. zero_node)) sample_ops = ret db"
    "tst_short db max_key_size" "tst_keys db = [cs ''a'', cs ''ab'', cs ''abc'', cs ''b'', cs ''ca'']"
  then show ?thesis
    using scans_split_at_bound [of db "cs ''b''" 100 1] scans_split_at_bound [of db "cs ''b''" 100 9]
    by (simp add: cs_def listing_def crlf_def)
qed

end
