(* ===== verification/Buffer_Pool.thy ===== *)
theory Buffer_Pool
  imports Tst_Scan
begin

text \<open>
  The pool of 512-byte buffers of \<open>v2/src/buffer_pool.c\<close>. A \<open>buffer_t *\<close> is the index of the
  buffer in \<open>base\<close>; buffers are linked by index, both on the pool's free list and in the
  queues of a connection. \<open>pool_inv\<close> is the ownership invariant: every buffer is free or in use,
  never both. The contract of an allocator is a locale, met by this pool and by the node array
  of the index.
\<close>

section \<open>The interface of an allocator\<close>

text \<open>
  \<open>inv s A\<close>: the objects in \<open>A\<close> are in use. \<open>can s n\<close>: \<open>n\<close> more can be had.
\<close>

locale allocator =
  fixes inv :: "'s \<Rightarrow> 'a set \<Rightarrow> bool"
    and can :: "'s \<Rightarrow> nat \<Rightarrow> bool"
    and alloc :: "'s \<Rightarrow> ('s \<times> 'a) run"
    and release :: "'s \<Rightarrow> 'a \<Rightarrow> 's run"
  assumes alloc_law: "\<lbrakk>inv s A; can s (Suc n)\<rbrakk> \<Longrightarrow>
      \<exists>s' x. alloc s = ret (s', x) \<and> x \<notin> A \<and> inv s' (insert x A) \<and> can s' n"
    and release_law: "\<lbrakk>inv s A; can s n; x \<in> A\<rbrakk> \<Longrightarrow>
      \<exists>s'. release s x = ret s' \<and> inv s' (A - {x}) \<and> can s' n"

fun alloc_many :: "('s \<Rightarrow> ('s \<times> 'a) run) \<Rightarrow> nat \<Rightarrow> 's \<Rightarrow> ('s \<times> 'a list) run" where
  "alloc_many alloc 0 s = ret (s, [])"
| "alloc_many alloc (Suc n) s =
     run_bind (alloc s) (\<lambda>(s, x). run_bind (alloc_many alloc n s) (\<lambda>(s, xs). ret (s, x # xs)))"

fun release_all :: "('s \<Rightarrow> 'a \<Rightarrow> 's run) \<Rightarrow> 's \<Rightarrow> 'a list \<Rightarrow> 's run" where
  "release_all release s [] = ret s"
| "release_all release s (x # xs) = run_bind (release s x) (\<lambda>s. release_all release s xs)"

context allocator
begin

text \<open>Objects handed out are new and different from each other.\<close>

lemma alloc_many_ok:
  "\<lbrakk>inv s A; can s (n + m)\<rbrakk> \<Longrightarrow>
   \<exists>s' xs. alloc_many alloc n s = ret (s', xs) \<and> length xs = n \<and> distinct xs \<and> set xs \<inter> A = {} \<and>
     inv s' (set xs \<union> A) \<and> can s' m"
proof (induction n arbitrary: s A)
  case 0
  then show ?case by simp
next
  case (Suc n)
  then obtain s1 x where 1: "alloc s = ret (s1, x)" "x \<notin> A" "inv s1 (insert x A)" "can s1 (n + m)"
    using alloc_law [of s A "n + m"] by auto
  from Suc.IH [OF 1(3,4)] obtain s2 xs where "alloc_many alloc n s1 = ret (s2, xs)" "length xs = n"
    "distinct xs" "set xs \<inter> insert x A = {}" "inv s2 (set xs \<union> insert x A)" "can s2 m"
    by blast
  with 1 show ?case by auto
qed

lemma release_all_ok:
  "\<lbrakk>inv s (set xs \<union> A); can s n; distinct xs; set xs \<inter> A = {}\<rbrakk> \<Longrightarrow>
   \<exists>s'. release_all release s xs = ret s' \<and> inv s' A \<and> can s' n"
proof (induction xs arbitrary: s)
  case Nil
  then show ?case by simp
next
  case (Cons x xs)
  then obtain s1 where 1: "release s x = ret s1" "inv s1 (set (x # xs) \<union> A - {x})" "can s1 n"
    using release_law [of s "set (x # xs) \<union> A" n x] by auto
  have "set (x # xs) \<union> A - {x} = set xs \<union> A"
    using Cons.prems by auto
  then have "\<exists>s'. release_all release s1 xs = ret s' \<and> inv s' A \<and> can s' n"
    using Cons.IH [of s1] Cons.prems 1 by simp
  then show ?case using 1(1) by simp
qed

end

text \<open>An allocator whose released objects can be had again, and that refuses when it has no more.\<close>

locale bounded_allocator = allocator inv can alloc release
  for inv :: "'s \<Rightarrow> 'a set \<Rightarrow> bool" and can alloc release +
  fixes refusal :: abort
  assumes refuse_law: "\<lbrakk>inv s A; \<not> can s 1\<rbrakk> \<Longrightarrow> alloc s = abort_with refusal"
    and again_law: "\<lbrakk>inv s A; can s n; x \<in> A; release s x = ret s'\<rbrakk> \<Longrightarrow> can s' (Suc n)"
    and exact: "\<lbrakk>inv s A; can s n; \<not> can s (Suc n); alloc s = ret (s', x)\<rbrakk> \<Longrightarrow> \<not> can s' n"
begin

lemma release_all_again:
  "\<lbrakk>inv s (set xs \<union> A); can s n; distinct xs; set xs \<inter> A = {}\<rbrakk> \<Longrightarrow>
   \<exists>s'. release_all release s xs = ret s' \<and> inv s' A \<and> can s' (n + length xs)"
proof (induction xs arbitrary: s n)
  case Nil
  then show ?case by simp
next
  case (Cons x xs)
  then obtain s1 where 1: "release s x = ret s1" "inv s1 (set (x # xs) \<union> A - {x})" "can s1 (Suc n)"
    using release_law [of s "set (x # xs) \<union> A" n x] again_law [of s "set (x # xs) \<union> A" n x] by auto
  have "set (x # xs) \<union> A - {x} = set xs \<union> A"
    using Cons.prems by auto
  then have "\<exists>s'. release_all release s1 xs = ret s' \<and> inv s' A \<and> can s' (Suc n + length xs)"
    using Cons.IH [of s1 "Suc n"] Cons.prems 1 by simp
  then show ?case using 1(1) by simp
qed

text \<open>Exactly the objects that can be had are handed out; the next request is refused.\<close>

lemma alloc_all_then_refuse:
  "\<lbrakk>inv s A; can s n; \<not> can s (Suc n)\<rbrakk> \<Longrightarrow>
   \<exists>s' xs. alloc_many alloc n s = ret (s', xs) \<and> length xs = n \<and> distinct xs \<and> set xs \<inter> A = {} \<and>
     alloc s' = abort_with refusal"
proof (induction n arbitrary: s A)
  case 0
  then show ?case using refuse_law by simp
next
  case (Suc n)
  obtain s1 x where 1: "alloc s = ret (s1, x)" "x \<notin> A" "inv s1 (insert x A)" "can s1 n"
    using alloc_law [OF Suc.prems(1,2)] by blast
  have "\<not> can s1 (Suc n)"
    using exact [OF Suc.prems 1(1)] .
  from Suc.IH [OF 1(3,4) this] obtain s2 xs where "alloc_many alloc n s1 = ret (s2, xs)" "length xs = n"
    "distinct xs" "set xs \<inter> insert x A = {}" "alloc s2 = abort_with refusal"
    by blast
  with 1 show ?case by auto
qed

end

text \<open>The nodes of the index are such objects.\<close>

definition nodes_inv :: "tst_db \<Rightarrow> u32 set \<Rightarrow> bool" where
  "nodes_inv db A \<longleftrightarrow> (\<exists>fs. heap_inv db fs A)"

interpretation nodes: allocator nodes_inv "room rl" "new_node rl" free_node
  for rl
proof unfold_locales
  fix s A n
  assume "nodes_inv s A" and r: "room rl s (Suc n)"
  then obtain fs where I: "heap_inv s fs A" by (auto simp: nodes_inv_def)
  show "\<exists>s' x. new_node rl s = ret (s', x) \<and> x \<notin> A \<and> nodes_inv s' (insert x A) \<and> room rl s' n"
    by (rule new_node_ok [OF I, of rl n]) (use r in \<open>auto simp: nodes_inv_def\<close>)
next
  fix s A n x
  assume "nodes_inv s A" and r: "room rl s n" and x: "x \<in> A"
  then obtain fs where I: "heap_inv s fs A" by (auto simp: nodes_inv_def)
  show "\<exists>s'. free_node s x = ret s' \<and> nodes_inv s' (A - {x}) \<and> room rl s' n"
    using free_node_ok [OF I x] r by (auto simp: nodes_inv_def room_def)
qed

section \<open>The pool\<close>

definition buf_unit :: nat where
  "buf_unit = 512"

record buffer =
  bf_data :: "cchar list"
  bf_size :: int
  bf_next :: int

record pool =
  bp_base :: "buffer list"
  bp_head :: int

text \<open>\<open>mem\<close>: \<open>malloc\<close> and \<open>calloc\<close> find the memory.\<close>

definition bp_new :: "bool \<Rightarrow> nat \<Rightarrow> pool run" where
  "bp_new mem n_items =
     (if \<not> mem then abort_with Assert_failed
      else if n_items = 0 then abort_with Assert_failed
      else
        let base = map (\<lambda>i. \<lparr>bf_data = replicate buf_unit 0, bf_size = 0, bf_next = int i + 1\<rparr>) [0..<n_items]
        in ret \<lparr>bp_base = base[n_items - 1 := (base ! (n_items - 1))\<lparr>bf_next := -1\<rparr>], bp_head = 0\<rparr>)"

definition buf_get :: "pool \<Rightarrow> nat \<Rightarrow> buffer run" where
  "buf_get p i = (if i < length (bp_base p) then ret (bp_base p ! i) else abort_with Undefined)"

definition buf_upd :: "pool \<Rightarrow> nat \<Rightarrow> (buffer \<Rightarrow> buffer) \<Rightarrow> pool run" where
  "buf_upd p i f =
     (if i < length (bp_base p) then ret (p\<lparr>bp_base := (bp_base p)[i := f (bp_base p ! i)]\<rparr>)
      else abort_with Undefined)"

definition alloc_buf :: "pool \<Rightarrow> (pool \<times> nat) run" where
  "alloc_buf p =
     (if bp_head p < 0 then abort_with Assert_failed
      else
        let buf = nat (bp_head p) in
        run_bind (buf_get p buf) (\<lambda>b.
        let next_head = bf_next b in
        run_bind (buf_upd p buf (\<lambda>b. b\<lparr>bf_size := 0, bf_next := -1\<rparr>)) (\<lambda>p.
        let p = p\<lparr>bp_head := next_head\<rparr> in
        if bp_head p < 0 then abort_with Assert_failed else ret (p, buf))))"

definition get_buf :: "pool \<Rightarrow> nat \<Rightarrow> nat run" where
  "get_buf p n = (if bp_head p < 0 then abort_with Assert_failed else ret n)"

definition free_buf :: "pool \<Rightarrow> nat \<Rightarrow> pool run" where
  "free_buf p buf =
     (let cur_head = bp_head p in
      if cur_head < 0 then abort_with Assert_failed
      else buf_upd (p\<lparr>bp_head := int buf\<rparr>) buf (\<lambda>b. b\<lparr>bf_size := 0, bf_next := cur_head\<rparr>))"

section \<open>Ownership\<close>

text \<open>\<open>chain bs h xs\<close>: the links starting with \<open>h\<close> run through the buffers \<open>xs\<close>.\<close>

fun chain :: "buffer list \<Rightarrow> int \<Rightarrow> nat list \<Rightarrow> bool" where
  "chain bs h [] = (h < 0)"
| "chain bs h (x # xs) = (h = int x \<and> x < length bs \<and> chain bs (bf_next (bs ! x)) xs)"

definition pool_inv :: "pool \<Rightarrow> nat list \<Rightarrow> nat set \<Rightarrow> bool" where
  "pool_inv p fl A \<longleftrightarrow>
     chain (bp_base p) (bp_head p) fl \<and> distinct fl \<and> set fl \<inter> A = {} \<and>
     set fl \<union> A = {..<length (bp_base p)} \<and> (\<forall>b \<in> set (bp_base p). length (bf_data b) = buf_unit)"

lemma chain_agree:
  "\<forall>x \<in> set xs. bs' ! x = bs ! x \<Longrightarrow> length bs' = length bs \<Longrightarrow> chain bs' h xs = chain bs h xs"
  by (induction xs arbitrary: h) auto

lemma chain_next_agree:
  "\<forall>x \<in> set xs. bf_next (bs' ! x) = bf_next (bs ! x) \<Longrightarrow> length bs' = length bs \<Longrightarrow>
   chain bs' h xs = chain bs h xs"
  by (induction xs arbitrary: h) auto

lemma chain_upd [simp]: "x \<notin> set xs \<Longrightarrow> chain (bs[x := b]) h xs = chain bs h xs"
  by (rule chain_agree) (auto, metis nth_list_update_neq)

lemma chain_in: "chain bs h xs \<Longrightarrow> set xs \<subseteq> {..<length bs}"
  by (induction xs arbitrary: h) auto

lemma chain_neg: "chain bs h xs \<Longrightarrow> h < 0 \<longleftrightarrow> xs = []"
  by (cases xs) auto

lemma pool_inv_in_use:
  assumes "pool_inv p fl A" and "x \<in> A"
  shows "x < length (bp_base p)" and "x \<notin> set fl" and "length (bf_data (bp_base p ! x)) = buf_unit"
  using assms by (auto simp: pool_inv_def)

lemma buf_get_in_use [simp]: "pool_inv p fl A \<Longrightarrow> x \<in> A \<Longrightarrow> buf_get p x = ret (bp_base p ! x)"
  using pool_inv_in_use by (auto simp: buf_get_def)

lemma pool_inv_upd:
  assumes "pool_inv p fl A" and "x \<in> A" and "length (bf_data b) = buf_unit"
  shows "pool_inv (p\<lparr>bp_base := (bp_base p)[x := b]\<rparr>) fl A"
  using assms pool_inv_in_use [OF assms(1,2)]
  by (auto simp: pool_inv_def dest: set_update_subset_insert [THEN subsetD])

lemma buf_upd_in_use:
  assumes "pool_inv p fl A" and "x \<in> A" and "length (bf_data (f (bp_base p ! x))) = buf_unit"
  shows "buf_upd p x f = ret (p\<lparr>bp_base := (bp_base p)[x := f (bp_base p ! x)]\<rparr>)"
    and "pool_inv (p\<lparr>bp_base := (bp_base p)[x := f (bp_base p ! x)]\<rparr>) fl A"
  using assms pool_inv_in_use [OF assms(1,2)] pool_inv_upd [OF assms] by (auto simp: buf_upd_def)

lemma alloc_buf_ok:
  assumes "pool_inv p (x # fl) A" and "fl \<noteq> []"
  shows "\<exists>p'. alloc_buf p = ret (p', x) \<and> x \<notin> A \<and> pool_inv p' fl (insert x A) \<and>
    bp_base p' = (bp_base p)[x := (bp_base p ! x)\<lparr>bf_size := 0, bf_next := -1\<rparr>]"
  using assms
  by (cases fl) (auto simp: pool_inv_def alloc_buf_def Let_def buf_get_def buf_upd_def
      dest: set_update_subset_insert [THEN subsetD])

lemma alloc_buf_last:
  assumes "pool_inv p fl A" and "length fl \<le> 1"
  shows "alloc_buf p = abort_with Assert_failed"
  using assms
  by (cases fl) (auto simp: pool_inv_def alloc_buf_def Let_def buf_get_def buf_upd_def)

lemma free_buf_ok:
  assumes "pool_inv p fl A" and "fl \<noteq> []" and "x \<in> A"
  shows "\<exists>p'. free_buf p x = ret p' \<and> pool_inv p' (x # fl) (A - {x}) \<and>
    bp_base p' = (bp_base p)[x := (bp_base p ! x)\<lparr>bf_size := 0, bf_next := bp_head p\<rparr>]"
  using assms pool_inv_in_use [OF assms(1,3)]
  by (cases fl) (auto simp: pool_inv_def free_buf_def Let_def buf_upd_def
      dest: set_update_subset_insert [THEN subsetD])

text \<open>The pool hands out all its buffers but the last.\<close>

definition bufs_inv :: "pool \<Rightarrow> nat set \<Rightarrow> bool" where
  "bufs_inv p A \<longleftrightarrow> (\<exists>fl. pool_inv p fl A)"

definition bufs_can :: "pool \<Rightarrow> nat \<Rightarrow> bool" where
  "bufs_can p n \<longleftrightarrow> (\<exists>fl A. pool_inv p fl A \<and> n < length fl)"

lemma chain_unique: "chain bs h xs \<Longrightarrow> chain bs h ys \<Longrightarrow> xs = ys"
proof (induction xs arbitrary: h ys)
  case Nil
  then show ?case by (cases ys) auto
next
  case (Cons x xs)
  then show ?case by (cases ys) auto
qed

lemma bufs_can_iff: "pool_inv p fl A \<Longrightarrow> bufs_can p n \<longleftrightarrow> n < length fl"
  by (auto simp: bufs_can_def pool_inv_def dest: chain_unique)

interpretation buffers: bounded_allocator bufs_inv bufs_can alloc_buf free_buf Assert_failed
proof unfold_locales
  fix s A n
  assume "bufs_inv s A" and c: "bufs_can s (Suc n)"
  then obtain fl where I: "pool_inv s fl A" "Suc n < length fl"
    using bufs_can_iff by (auto simp: bufs_inv_def)
  then obtain x fl' where fl: "fl = x # fl'" by (cases fl) auto
  then have "fl' \<noteq> []" using I(2) by auto
  with I fl alloc_buf_ok [of s x fl' A] show
    "\<exists>s' x. alloc_buf s = ret (s', x) \<and> x \<notin> A \<and> bufs_inv s' (insert x A) \<and> bufs_can s' n"
    by (auto simp: bufs_inv_def bufs_can_def)
next
  fix s A n x
  assume "bufs_inv s A" and "bufs_can s n" and "x \<in> A"
  then obtain fl where I: "pool_inv s fl A" "n < length fl"
    using bufs_can_iff by (auto simp: bufs_inv_def)
  then have "fl \<noteq> []" by auto
  from free_buf_ok [OF I(1) this \<open>x \<in> A\<close>] I(2) show
    "\<exists>s'. free_buf s x = ret s' \<and> bufs_inv s' (A - {x}) \<and> bufs_can s' n"
    by (auto simp: bufs_inv_def bufs_can_iff)
next
  fix s A
  assume "bufs_inv s A" and "\<not> bufs_can s 1"
  then show "alloc_buf s = abort_with Assert_failed"
    using bufs_can_iff alloc_buf_last by (auto simp: bufs_inv_def not_less)
next
  fix s A n x s'
  assume "bufs_inv s A" and "bufs_can s n" and x: "x \<in> A" and r: "free_buf s x = ret s'"
  then obtain fl where I: "pool_inv s fl A" "n < length fl"
    using bufs_can_iff by (auto simp: bufs_inv_def)
  then have "fl \<noteq> []" by auto
  from free_buf_ok [OF I(1) this x] r I(2) show "bufs_can s' (Suc n)"
    by (auto simp: bufs_can_iff)
next
  fix s A n s' x
  assume "bufs_inv s A" and "bufs_can s n" "\<not> bufs_can s (Suc n)" and r: "alloc_buf s = ret (s', x)"
  then obtain fl where I: "pool_inv s fl A" "length fl = Suc n"
    using bufs_can_iff by (auto simp: bufs_inv_def not_less le_Suc_eq less_Suc_eq)
  then obtain y fl' where fl: "fl = y # fl'" by (cases fl) auto
  show "\<not> bufs_can s' n"
  proof (cases "fl' = []")
    case True
    then show ?thesis using alloc_buf_last [OF I(1)] I(2) fl r by simp
  next
    case False
    then show ?thesis using alloc_buf_ok [of s y fl' A] I fl r by (auto simp: bufs_can_iff)
  qed
qed

lemma bp_new_ok:
  assumes "0 < n"
  obtains p where "bp_new True n = ret p" and "pool_inv p [0..<n] {}" and "length (bp_base p) = n"
proof -
  let ?base = "map (\<lambda>i. \<lparr>bf_data = replicate buf_unit 0, bf_size = 0, bf_next = int i + 1\<rparr>) [0..<n]"
  let ?bs = "?base[n - 1 := (?base ! (n - 1))\<lparr>bf_next := -1\<rparr>]"
  define bs where "bs = ?bs"
  have len: "length bs = n" by (simp add: bs_def)
  have nx: "bf_next (bs ! k) = (if Suc k = n then -1 else int (Suc k))" if "k < n" for k
    using that by (auto simp: bs_def nth_list_update)
  have "chain bs (if k = n then -1 else int k) [k..<n]" if "k \<le> n" for k
    using that
  proof (induction "n - k" arbitrary: k)
    case 0
    then show ?case by simp
  next
    case (Suc d)
    then have k: "k < n" by simp
    have "chain bs (if Suc k = n then -1 else int (Suc k)) [Suc k..<n]"
      using Suc k by (intro Suc(1)) auto
    then show ?case
      using k nx len by (simp add: upt_conv_Cons)
  qed
  from this [of 0] have "chain bs 0 [0..<n]" using assms by simp
  moreover have "\<forall>b \<in> set bs. length (bf_data b) = buf_unit"
    using assms by (auto simp: bs_def dest!: set_update_subset_insert [THEN subsetD])
  ultimately show thesis
    using that [of "\<lparr>bp_base = bs, bp_head = 0\<rparr>"] assms len
    by (auto simp: bp_new_def pool_inv_def Let_def bs_def lessThan_atLeast0)
qed

section \<open>Properties\<close>

text \<open>
  C23. A pool made for \<open>n\<close> buffers hands out \<open>n - 1\<close> different ones; the next request, for the
  one buffer left, stops the process at the assertion after the pop.
\<close>

theorem pool_keeps_last_buffer:
  assumes "0 < n"
  shows "\<exists>p p' xs. bp_new True n = ret p \<and> alloc_many alloc_buf (n - 1) p = ret (p', xs) \<and>
    length xs = n - 1 \<and> distinct xs \<and> alloc_buf p' = abort_with Assert_failed"
proof (rule bp_new_ok [OF assms])
  fix p assume p: "bp_new True n = ret p" "pool_inv p [0..<n] {}"
  then show ?thesis
    using buffers.alloc_all_then_refuse [of p "{}" "n - 1"] bufs_can_iff [OF p(2)] assms
    by (auto simp: bufs_inv_def)
qed

theorem pool_keeps_last_buffer_witness:
  "\<exists>p p' xs. bp_new True 3 = ret p \<and> alloc_many alloc_buf 2 p = ret (p', xs) \<and>
    length xs = 2 \<and> distinct xs \<and> alloc_buf p' = abort_with Assert_failed"
  using pool_keeps_last_buffer [of 3] by simp

text \<open>
  C24. Buffers that are given back can be had again: after any number of buffers is taken and
  released, the pool can hand out as many as before.
\<close>

theorem pool_recycles:
  assumes "bufs_inv p A" and "bufs_can p n"
  shows "\<exists>p1 xs p2. alloc_many alloc_buf n p = ret (p1, xs) \<and> set xs \<inter> A = {} \<and>
    release_all free_buf p1 xs = ret p2 \<and> bufs_inv p2 A \<and> bufs_can p2 n"
proof -
  obtain p1 xs where 1: "alloc_many alloc_buf n p = ret (p1, xs)" "length xs = n" "distinct xs"
    "set xs \<inter> A = {}" "bufs_inv p1 (set xs \<union> A)" "bufs_can p1 0"
    using buffers.alloc_many_ok [of p A n 0] assms by auto
  then show ?thesis
    using buffers.release_all_again [OF 1(5,6,3,4)] by auto
qed

theorem pool_recycles_witness:
  "\<exists>p p1 xs p2. bp_new True 3 = ret p \<and> alloc_many alloc_buf 2 p = ret (p1, xs) \<and>
    release_all free_buf p1 xs = ret p2 \<and> bufs_can p2 2"
proof (rule bp_new_ok [of 3])
  fix p assume "bp_new True 3 = ret p" "pool_inv p [0..<3] {}"
  then show ?thesis
    using pool_recycles [of p "{}" 2] bufs_can_iff [of p "[0..<3]" "{}" 2] by (auto simp: bufs_inv_def)
qed simp

end
