(* ===== verification/Text.thy ===== *)
theory Text
  imports Prelude
begin

text \<open>
  The text side of the protocol, as far as the C library does it for the server: the
  \<open>sscanf\<close> directives its formats use (\<open>%s\<close>, \<open>%d\<close>, \<open>%llu\<close>, literal text, white space),
  \<open>atoi\<close>, and the \<open>%d\<close> and \<open>%llu\<close> conversions of \<open>snprintf\<close>. Out-of-range numbers
  follow glibc: \<open>strtol\<close> and \<open>strtoull\<close> saturate at 64 bits, and \<open>%d\<close> stores the low 32.
  \<open>%s\<close> without a width writes beyond its array when the word does not fit.
\<close>

unbundle bit_operations_syntax

type_synonym i32 = "32 word"

section \<open>Numbers\<close>

definition is_space :: "cchar \<Rightarrow> bool" where
  "is_space c \<longleftrightarrow> cc_byte c = 32 \<or> (9 \<le> cc_byte c \<and> cc_byte c \<le> 13)"

definition is_digit :: "cchar \<Rightarrow> bool" where
  "is_digit c \<longleftrightarrow> 48 \<le> cc_byte c \<and> cc_byte c \<le> 57"

definition digit_val :: "cchar \<Rightarrow> nat" where
  "digit_val c = unat (cc_byte c - 48)"

definition digits_val :: "cstr \<Rightarrow> nat" where
  "digits_val ds = foldl (\<lambda>n d. 10 * n + digit_val d) 0 ds"

text \<open>The sign and the digits a conversion reads, or \<open>None\<close> when there is no digit.\<close>

definition scan_num :: "cstr \<Rightarrow> (int \<times> cstr) option" where
  "scan_num s =
     (let s = dropWhile is_space s;
          (neg, s) = (case s of
              [] \<Rightarrow> (False, s)
            | c # us \<Rightarrow> if c = CC 45 then (True, us) else if c = CC 43 then (False, us) else (False, s));
          ds = takeWhile is_digit s
      in if ds = [] then None
         else Some (if neg then - int (digits_val ds) else int (digits_val ds), dropWhile is_digit s))"

definition long_to_int :: "int \<Rightarrow> i32" where
  "long_to_int z = word_of_int (max (- (2 ^ 63)) (min (2 ^ 63 - 1) z))"

definition to_ull :: "int \<Rightarrow> u64" where
  "to_ull z = (if 2 ^ 64 \<le> \<bar>z\<bar> then - 1 else word_of_int z)"

definition atoi :: "cstr \<Rightarrow> i32" where
  "atoi s = (case scan_num s of None \<Rightarrow> 0 | Some (z, _) \<Rightarrow> long_to_int z)"

fun print_nat :: "nat \<Rightarrow> cstr" where
  "print_nat n = (if n < 10 then [] else print_nat (n div 10)) @ [CC (48 + of_nat (n mod 10))]"

declare print_nat.simps [simp del]

definition print_int :: "int \<Rightarrow> cstr" where
  "print_int z = (if z < 0 then CC 45 # print_nat (nat (- z)) else print_nat (nat z))"

section \<open>\<open>sscanf\<close>\<close>

text \<open>\<open>Str cap\<close> is \<open>%s\<close> into an array of \<open>cap\<close> bytes.\<close>

datatype directive = Lit cstr | Ws | Str nat | Dec | Ull

datatype arg = AStr cstr | AInt i32 | AUll u64

text \<open>The variables that the arguments were stored into.\<close>

fun arg_str :: "arg \<Rightarrow> cstr" where
  "arg_str (AStr w) = w"
| "arg_str _ = []"

fun arg_int :: "arg \<Rightarrow> i32" where
  "arg_int (AInt i) = i"
| "arg_int _ = 0"

fun arg_ull :: "arg \<Rightarrow> u64" where
  "arg_ull (AUll u) = u"
| "arg_ull _ = 0"

fun strip_prefix :: "cstr \<Rightarrow> cstr \<Rightarrow> cstr option" where
  "strip_prefix [] s = Some s"
| "strip_prefix (c # us) [] = None"
| "strip_prefix (c # us) (x # xs) = (if c = x then strip_prefix us xs else None)"

definition cons_arg :: "arg \<Rightarrow> arg list run \<Rightarrow> arg list run" where
  "cons_arg a m = run_bind m (\<lambda>as. ret (a # as))"

fun sscanf :: "directive list \<Rightarrow> cstr \<Rightarrow> arg list run" where
  "sscanf [] s = ret []"
| "sscanf (Lit l # ds) s = (case strip_prefix l s of None \<Rightarrow> ret [] | Some s \<Rightarrow> sscanf ds s)"
| "sscanf (Ws # ds) s = sscanf ds (dropWhile is_space s)"
| "sscanf (Str cap # ds) s =
     (let s = dropWhile is_space s; w = takeWhile (\<lambda>c. \<not> is_space c) s in
      if w = [] then ret []
      else if cap \<le> length w then abort_with Undefined
      else cons_arg (AStr w) (sscanf ds (dropWhile (\<lambda>c. \<not> is_space c) s)))"
| "sscanf (Dec # ds) s =
     (case scan_num s of None \<Rightarrow> ret [] | Some (z, s) \<Rightarrow> cons_arg (AInt (long_to_int z)) (sscanf ds s))"
| "sscanf (Ull # ds) s =
     (case scan_num s of None \<Rightarrow> ret [] | Some (z, s) \<Rightarrow> cons_arg (AUll (to_ull z)) (sscanf ds s))"

section \<open>Printing and reading back\<close>

lemma is_digit_print: "d < 10 \<Longrightarrow> is_digit (CC (48 + of_nat d)) \<and> digit_val (CC (48 + of_nat d)) = d"
  by (auto simp: is_digit_def digit_val_def word_le_nat_alt unat_word_ariths unat_of_nat)

lemma digits_val_snoc: "digits_val (ds @ [d]) = 10 * digits_val ds + digit_val d"
  by (simp add: digits_val_def)

lemma print_nat_digits: "list_all is_digit (print_nat n) \<and> print_nat n \<noteq> [] \<and> digits_val (print_nat n) = n"
proof (induction n rule: print_nat.induct)
  case (1 n)
  show ?case
  proof (cases "n < 10")
    case True
    then show ?thesis
      using is_digit_print [of n] by (subst (1 2 3) print_nat.simps) (simp add: digits_val_def)
  next
    case False
    then show ?thesis
      using 1 is_digit_print [of "n mod 10"] by (subst (1 2 3) print_nat.simps) (auto simp: digits_val_snoc)
  qed
qed

lemma digit_not_space: "is_digit c \<Longrightarrow> \<not> is_space c \<and> c \<noteq> CC 45 \<and> c \<noteq> CC 43 \<and> c \<noteq> 0"
  by (cases c) (auto simp: is_digit_def is_space_def word_le_nat_alt)

lemma takeWhile_digits:
  assumes "list_all is_digit ds" and "rest = [] \<or> \<not> is_digit (hd rest)"
  shows "takeWhile is_digit (ds @ rest) = ds" and "dropWhile is_digit (ds @ rest) = rest"
  using assms by (induction ds) (cases rest, auto)+

lemma scan_num_print:
  assumes "rest = [] \<or> \<not> is_digit (hd rest)"
  shows "scan_num (print_int z @ rest) = Some (z, rest)"
proof -
  have d: "list_all is_digit (print_nat n)" "print_nat n \<noteq> []" "digits_val (print_nat n) = n" for n
    using print_nat_digits by auto
  have sp: "\<not> is_space (CC 45)"
    by (simp add: is_space_def)
  show ?thesis
  proof (cases "z < 0")
    case True
    then show ?thesis
      using d takeWhile_digits [OF d(1) assms] sp by (simp add: scan_num_def print_int_def Let_def)
  next
    case False
    obtain c us where c: "print_nat (nat z) = c # us" using d(2) by (cases "print_nat (nat z)") auto
    then have "is_digit c" using d(1) [of "nat z"] by simp
    moreover have "digits_val (c # us) = nat z" using d(3) [of "nat z"] c by simp
    ultimately show ?thesis
      using False d takeWhile_digits [OF d(1) [of "nat z"] assms] c digit_not_space [of c]
      by (simp add: scan_num_def print_int_def Let_def)
  qed
qed

lemma long_to_int_sint: "long_to_int (sint (w :: i32)) = w"
proof -
  have "sint w < 2 ^ 31" "- (2 ^ 31) \<le> sint w"
    using sint_lt [of w] sint_ge [of w] by simp_all
  then show ?thesis by (simp add: long_to_int_def)
qed

lemma to_ull_uint: "to_ull (uint (w :: u64)) = w"
  using uint_lt2p [of w] by (simp add: to_ull_def)

lemma atoi_print: "atoi (print_int (sint w)) = w"
  using scan_num_print [of "[]" "sint w"] by (simp add: atoi_def long_to_int_sint)

section \<open>Reading words and numbers of a request\<close>

text \<open>A word: not empty, no white space, no NUL.\<close>

definition word_ok :: "cstr \<Rightarrow> bool" where
  "word_ok w \<longleftrightarrow> w \<noteq> [] \<and> list_all (\<lambda>c. \<not> is_space c \<and> c \<noteq> 0) w"

text \<open>What follows a word or a number: nothing, or white space.\<close>

definition spaced :: "cstr \<Rightarrow> bool" where
  "spaced s \<longleftrightarrow> s = [] \<or> is_space (hd s)"

lemma is_space_chars [simp]: "is_space (CC 32)" "is_space (CC 13)" "is_space (CC 10)" "is_space (CC 9)"
  by (simp_all add: is_space_def)

lemma spaced_simps [simp]: "spaced []" "spaced (CC 32 # s)" "spaced (CC 13 # s)"
  by (simp_all add: spaced_def)

lemma sscanf_Str:
  assumes "word_ok w" and "length w < cap" and "spaced rest"
  shows "sscanf (Str cap # ds) (w @ rest) = cons_arg (AStr w) (sscanf ds rest)"
proof -
  obtain c us where w: "w = c # us" using assms(1) by (cases w) (auto simp: word_ok_def)
  have "takeWhile (\<lambda>c. \<not> is_space c) (w @ rest) = w" "dropWhile (\<lambda>c. \<not> is_space c) (w @ rest) = rest"
    using assms(1,3) by (cases rest; auto simp: word_ok_def spaced_def list_all_iff takeWhile_append dropWhile_append3)+
  moreover have "dropWhile is_space (w @ rest) = w @ rest"
    using assms(1) w by (simp add: word_ok_def)
  ultimately show ?thesis
    using assms(2) w by (simp add: Let_def)
qed

lemma sscanf_Ws:
  assumes "s \<noteq> [] \<and> \<not> is_space (hd s)"
  shows "sscanf (Ws # ds) (CC 32 # s) = sscanf ds s" and "sscanf (Ws # ds) s = sscanf ds s"
  using assms by (cases s; simp)+

lemma print_int_not_space: "print_int z @ rest \<noteq> [] \<and> \<not> is_space (hd (print_int z @ rest))"
proof -
  have "print_nat n \<noteq> [] \<and> \<not> is_space (hd (print_nat n))" for n
    using print_nat_digits [of n] digit_not_space by (cases "print_nat n") auto
  then show ?thesis by (auto simp: print_int_def is_space_def)
qed

lemma word_not_space: "word_ok w \<Longrightarrow> w @ rest \<noteq> [] \<and> \<not> is_space (hd (w @ rest))"
  by (cases w) (auto simp: word_ok_def)

lemma not_digit_spaced: "spaced rest \<Longrightarrow> rest = [] \<or> \<not> is_digit (hd rest)"
  by (auto simp: spaced_def dest: digit_not_space)

lemma sscanf_Dec:
  "spaced rest \<Longrightarrow> sscanf (Dec # ds) (print_int (sint w) @ rest) = cons_arg (AInt w) (sscanf ds rest)"
  by (simp add: scan_num_print [OF not_digit_spaced] long_to_int_sint)

lemma sscanf_Ull:
  "spaced rest \<Longrightarrow> sscanf (Ull # ds) (print_int (uint w) @ rest) = cons_arg (AUll w) (sscanf ds rest)"
  by (simp add: scan_num_print [OF not_digit_spaced] to_ull_uint)

lemma sscanf_Lit: "sscanf (Lit l # ds) (l @ s) = sscanf ds s"
proof -
  have "strip_prefix l (l @ s) = Some s" by (induction l) auto
  then show ?thesis by simp
qed

lemma cons_arg_ret [simp]: "cons_arg a (ret as) = ret (a # as)" "cons_arg a (abort_with e) = abort_with e"
  by (simp_all add: cons_arg_def)

lemma cons_arg_length: "cons_arg a m = ret as \<Longrightarrow> \<exists>as'. m = ret as' \<and> as = a # as'"
  by (auto simp: cons_arg_def run_bind_eq_ret)

text \<open>The arguments read fit their directives.\<close>

fun fits_format :: "directive list \<Rightarrow> arg list \<Rightarrow> bool" where
  "fits_format ds [] = True"
| "fits_format [] (a # as) = False"
| "fits_format (Lit l # ds) as = fits_format ds as"
| "fits_format (Ws # ds) as = fits_format ds as"
| "fits_format (Str cap # ds) (AStr w # as) = (word_ok w \<and> length w < cap \<and> fits_format ds as)"
| "fits_format (Dec # ds) (AInt i # as) = fits_format ds as"
| "fits_format (Ull # ds) (AUll u # as) = fits_format ds as"
| "fits_format ds as = False"

lemma set_dropWhile_subset: "set (dropWhile P s) \<subseteq> set s"
  by (auto dest: set_dropWhileD)

lemma scan_num_suffix:
  assumes "scan_num s = Some (z, s')"
  shows "set s' \<subseteq> set s"
proof -
  let ?t = "dropWhile is_space s"
  have "s' = dropWhile is_digit ?t \<or> s' = dropWhile is_digit (tl ?t)"
    using assms by (auto simp: scan_num_def Let_def split: list.splits if_splits)
  moreover have "set (tl ?t) \<subseteq> set ?t"
    using set_drop_subset [of 1 ?t] by (simp add: drop_Suc)
  ultimately have "set s' \<subseteq> set ?t"
    using set_dropWhile_subset [of is_digit "?t"] set_dropWhile_subset [of is_digit "tl ?t"] by auto
  then show ?thesis
    using set_dropWhile_subset [of is_space s] by auto
qed

lemma sscanf_fits:
  assumes "sscanf ds s = ret as" and "0 \<notin> set s"
  shows "fits_format ds as"
  using assms
proof (induction ds s arbitrary: as rule: sscanf.induct)
  case (2 l ds s)
  have "strip_prefix l s = Some t \<Longrightarrow> set t \<subseteq> set s" for t
    by (induction l s rule: strip_prefix.induct) (auto split: if_splits)
  with 2 show ?case
    by (cases as; cases "strip_prefix l s") auto
next
  case (3 ds s)
  moreover have "0 \<notin> set (dropWhile is_space s)"
    using 3(3) set_dropWhile_subset [of is_space s] by blast
  ultimately show ?case by (cases as) auto
next
  case (4 cap ds s)
  let ?s = "dropWhile is_space s"
  let ?w = "takeWhile (\<lambda>c. \<not> is_space c) ?s"
  have s: "0 \<notin> set ?s"
    using 4(3) set_dropWhile_subset [of is_space s] by auto
  then have rest: "0 \<notin> set (dropWhile (\<lambda>c. \<not> is_space c) ?s)"
    using set_dropWhile_subset [of "\<lambda>c. \<not> is_space c" ?s] by auto
  have w: "list_all (\<lambda>c. \<not> is_space c \<and> c \<noteq> 0) ?w"
    using s by (auto simp: list_all_iff dest: set_takeWhileD)
  show ?case
  proof (cases "?w = [] \<or> cap \<le> length ?w")
    case True
    then have "as = []" using 4(2) by (simp add: Let_def split: if_splits)
    then show ?thesis by simp
  next
    case False
    then have "cons_arg (AStr ?w) (sscanf ds (dropWhile (\<lambda>c. \<not> is_space c) ?s)) = ret as"
      using 4(2) by (simp add: Let_def)
    then obtain as' where a: "sscanf ds (dropWhile (\<lambda>c. \<not> is_space c) ?s) = ret as'" "as = AStr ?w # as'"
      by (blast dest: cons_arg_length)
    have "fits_format ds as'"
      by (rule 4(1) [OF refl refl _ _ a(1) rest]) (use False in auto)
    then show ?thesis
      using a(2) w False by (simp add: word_ok_def)
  qed
next
  case (5 ds s)
  then show ?case
    by (auto split: option.splits dest!: cons_arg_length) (metis scan_num_suffix subsetD)
next
  case (6 ds s)
  then show ?case
    by (auto split: option.splits dest!: cons_arg_length) (metis scan_num_suffix subsetD)
qed (auto)

end
