(* ===== verification/Io_Buf.thy ===== *)
theory Io_Buf
  imports Buffer_Pool Text
begin

text \<open>
  The buffer queues of a connection (\<open>struct io_data_t\<close> of \<open>v2/src/tstserver.h\<close> and the
  functions of \<open>v2/src/tstserver.c\<close> on it): what is received and what is to be sent are queues
  of pool buffers linked by index. Requests are cut out of the input queue wherever the network
  cut it into packets. \<open>in_stream\<close> and \<open>out_stream\<close> are the byte streams the queues stand for.
\<close>

section \<open>State\<close>

text \<open>Pointers to buffers are indices into the worker's pool; \<open>None\<close> is \<open>NULL\<close>.\<close>

record io_data =
  io_fd :: int
  io_worker :: nat
  io_header_len :: int
  io_body_len :: int
  io_is_write :: bool
  io_in_head :: "nat option"
  io_in_tail :: "nat option"
  io_out_head :: "nat option"
  io_out_tail :: "nat option"
  io_in_len :: int
  io_out_len :: int

text \<open>
  A connection, the buffer pool of the worker that serves it, and what the worker's \<open>epoll\<close> set
  watches the socket for: input, input and output, or nothing any more.
\<close>

datatype polled = Poll_in | Poll_out | Closed

record conn =
  cn_pool :: pool
  cn_io :: io_data
  cn_poll :: polled

definition upd_io :: "(io_data \<Rightarrow> io_data) \<Rightarrow> conn \<Rightarrow> conn" where
  "upd_io f c = c\<lparr>cn_io := f (cn_io c)\<rparr>"

text \<open>\<open>alloc_io_data\<close> clears a slot of the table; it leaves the two lengths as they are.\<close>

definition alloc_io_data :: "conn \<Rightarrow> int \<Rightarrow> nat \<Rightarrow> conn" where
  "alloc_io_data c client_fd worker_no =
     upd_io (\<lambda>io. io\<lparr>io_fd := client_fd, io_worker := worker_no, io_in_head := None, io_in_tail := None,
       io_out_head := None, io_out_tail := None, io_header_len := 0, io_body_len := -1,
       io_is_write := False\<rparr>) c"

section \<open>Memory\<close>

text \<open>\<open>memcpy\<close> into and out of an array; outside of it the behaviour is undefined.\<close>

definition mem_put :: "cchar list \<Rightarrow> int \<Rightarrow> cchar list \<Rightarrow> cchar list run" where
  "mem_put a off xs =
     (if 0 \<le> off \<and> nat off + length xs \<le> length a
      then ret (take (nat off) a @ xs @ drop (nat off + length xs) a) else abort_with Undefined)"

definition mem_get :: "cchar list \<Rightarrow> int \<Rightarrow> int \<Rightarrow> cchar list run" where
  "mem_get a off n =
     (if 0 \<le> off \<and> 0 \<le> n \<and> nat off + nat n \<le> length a
      then ret (take (nat n) (drop (nat off) a)) else abort_with Undefined)"

text \<open>
  \<open>q->data[i] = c\<close>. For \<open>i\<close> = 512 this is one beyond the array and hits the low byte of the next
  field of the structure, \<open>size\<close>; the code does that for every full buffer.
\<close>

definition poke_data :: "int \<Rightarrow> cchar \<Rightarrow> buffer \<Rightarrow> buffer run" where
  "poke_data i c b =
     (if 0 \<le> i \<and> nat i < buf_unit then ret (b\<lparr>bf_data := (bf_data b)[nat i := c]\<rparr>)
      else if i = int buf_unit
      then ret (b\<lparr>bf_size := 256 * (bf_size b div 256) + uint (cc_byte c)\<rparr>)
      else abort_with Undefined)"

definition buf_upd_run :: "pool \<Rightarrow> nat \<Rightarrow> (buffer \<Rightarrow> buffer run) \<Rightarrow> pool run" where
  "buf_upd_run p i f = run_bind (buf_get p i) (\<lambda>b. run_bind (f b) (\<lambda>b. buf_upd p i (\<lambda>_. b)))"

definition next_buf :: "buffer \<Rightarrow> nat option" where
  "next_buf b = (if 0 \<le> bf_next b then Some (nat (bf_next b)) else None)"

section \<open>Giving buffers back\<close>

partial_function (option) free_bufs :: "pool \<Rightarrow> nat option \<Rightarrow> pool run" where
  "free_bufs p q =
     (case q of None \<Rightarrow> ret p
      | Some tmp \<Rightarrow> run_bind (buf_get p tmp) (\<lambda>b.
          let q = next_buf b in
          run_bind (free_buf p tmp) (\<lambda>p. free_bufs p q)))"

definition free_in_buf_list :: "conn \<Rightarrow> conn run" where
  "free_in_buf_list c =
     run_bind (free_bufs (cn_pool c) (io_in_head (cn_io c))) (\<lambda>p.
     ret (upd_io (\<lambda>io. io\<lparr>io_in_head := None, io_in_len := 0\<rparr>) (c\<lparr>cn_pool := p\<rparr>)))"

definition free_out_buf_list :: "conn \<Rightarrow> conn run" where
  "free_out_buf_list c =
     run_bind (free_bufs (cn_pool c) (io_out_head (cn_io c))) (\<lambda>p.
     ret (upd_io (\<lambda>io. io\<lparr>io_out_head := None, io_out_len := 0\<rparr>) (c\<lparr>cn_pool := p\<rparr>)))"

definition destroy_io_data :: "conn \<Rightarrow> conn run" where
  "destroy_io_data c =
     run_bind (if io_in_head (cn_io c) \<noteq> None then free_in_buf_list c else ret c) (\<lambda>c.
     run_bind (if io_out_head (cn_io c) \<noteq> None then free_out_buf_list c else ret c) (\<lambda>c.
     ret (upd_io (\<lambda>io. io\<lparr>io_in_head := None, io_out_head := None, io_in_tail := None,
       io_out_tail := None\<rparr>) c)))"

section \<open>Receiving and sending\<close>

text \<open>A new buffer at the end of the input queue.\<close>

definition in_enqueue :: "conn \<Rightarrow> (conn \<times> nat) run" where
  "in_enqueue c =
     (case io_in_tail (cn_io c) of
        None \<Rightarrow> run_bind (alloc_buf (cn_pool c)) (\<lambda>(p, a).
          ret (upd_io (\<lambda>io. io\<lparr>io_in_tail := Some a, io_in_head := Some a\<rparr>) (c\<lparr>cn_pool := p\<rparr>), a))
      | Some t \<Rightarrow> run_bind (alloc_buf (cn_pool c)) (\<lambda>(p, a).
          run_bind (buf_upd p t (\<lambda>b. b\<lparr>bf_next := int a\<rparr>)) (\<lambda>p.
          ret (upd_io (\<lambda>io. io\<lparr>io_in_tail := Some a\<rparr>) (c\<lparr>cn_pool := p\<rparr>), a))))"

text \<open>
  \<open>got\<close> is what \<open>recv\<close> stores, at most 512 bytes, or \<open>None\<close> when it fails; the value returned
  is that of \<open>recv\<close>.
\<close>

definition append_recv_data :: "conn \<Rightarrow> cchar list option \<Rightarrow> (conn \<times> int) run" where
  "append_recv_data c got =
     run_bind (in_enqueue c) (\<lambda>(c, a).
     case got of
       None \<Rightarrow> ret (c, -1)
     | Some bs \<Rightarrow>
         let ct = int (length bs) in
         run_bind (buf_upd_run (cn_pool c) a (\<lambda>b.
           run_bind (mem_put (bf_data b) 0 bs) (\<lambda>d. ret (b\<lparr>bf_data := d\<rparr>)))) (\<lambda>p.
         if 0 < ct
         then run_bind (buf_upd p a (\<lambda>b. b\<lparr>bf_size := ct\<rparr>)) (\<lambda>p.
              run_bind (buf_upd_run p a (poke_data ct 0)) (\<lambda>p.
              ret (upd_io (\<lambda>io. io\<lparr>io_in_len := io_in_len io + ct\<rparr>) (c\<lparr>cn_pool := p\<rparr>), ct)))
         else ret (c\<lparr>cn_pool := p\<rparr>, ct)))"

text \<open>Append \<open>k\<close> to the buffer \<open>b\<close>.\<close>

definition buf_append :: "cchar list \<Rightarrow> buffer \<Rightarrow> buffer run" where
  "buf_append k b =
     run_bind (mem_put (bf_data b) (bf_size b) k) (\<lambda>d.
     ret (b\<lparr>bf_data := d, bf_size := bf_size b + int (length k)\<rparr>))"

text \<open>A new buffer at the end of the output queue.\<close>

definition out_enqueue :: "conn \<Rightarrow> (conn \<times> nat) run" where
  "out_enqueue c =
     run_bind (alloc_buf (cn_pool c)) (\<lambda>(p, q).
     let c = c\<lparr>cn_pool := p\<rparr> in
     case io_out_head (cn_io c) of
       None \<Rightarrow> ret (upd_io (\<lambda>io. io\<lparr>io_out_head := Some q, io_out_tail := Some q\<rparr>) c, q)
     | Some _ \<Rightarrow>
       (case io_out_tail (cn_io c) of
          None \<Rightarrow> abort_with Undefined
        | Some t \<Rightarrow> run_bind (buf_upd p t (\<lambda>b. b\<lparr>bf_next := int q\<rparr>)) (\<lambda>p.
            ret (upd_io (\<lambda>io. io\<lparr>io_out_tail := Some q\<rparr>) (c\<lparr>cn_pool := p\<rparr>), q))))"

partial_function (option) send_loop :: "conn \<Rightarrow> cchar list \<Rightarrow> nat option \<Rightarrow> conn run" where
  "send_loop c k q =
     run_bind (case q of Some q \<Rightarrow> ret (c, q) | None \<Rightarrow> out_enqueue c) (\<lambda>(c, q).
     run_bind (buf_get (cn_pool c) q) (\<lambda>b.
     let cap = int buf_unit - bf_size b in
     if int (length k) \<le> cap
     then run_bind (buf_upd_run (cn_pool c) q (buf_append k)) (\<lambda>p. ret (c\<lparr>cn_pool := p\<rparr>))
     else run_bind (buf_upd_run (cn_pool c) q (buf_append (take (nat cap) k))) (\<lambda>p.
          send_loop (c\<lparr>cn_pool := p\<rparr>) (drop (nat cap) k) None)))"

definition append_send_data :: "conn \<Rightarrow> cchar list \<Rightarrow> conn run" where
  "append_send_data c data = send_loop c data (io_out_tail (cn_io c))"

text \<open>
  \<open>sent bs\<close> is the value of \<open>send\<close> for the bytes offered. The result tells
  whether the connection goes back to waiting for input only.
\<close>

definition handle_output :: "(cchar list \<Rightarrow> int) \<Rightarrow> conn \<Rightarrow> (conn \<times> bool) run" where
  "handle_output sent c =
     (case io_out_head (cn_io c) of
        None \<Rightarrow> ret (c, False)
      | Some q \<Rightarrow>
        run_bind (buf_get (cn_pool c) q) (\<lambda>b.
        run_bind (mem_get (bf_data b) 0 (bf_size b)) (\<lambda>offered.
        let ct = sent offered in
        run_bind (mem_get (bf_data b) ct (bf_size b - ct)) (\<lambda>keep.
        run_bind (mem_put (bf_data b) 0 keep) (\<lambda>d.
        let b = b\<lparr>bf_data := d, bf_size := bf_size b - ct\<rparr> in
        run_bind (buf_upd (cn_pool c) q (\<lambda>_. b)) (\<lambda>p.
        let c = c\<lparr>cn_pool := p\<rparr> in
        if bf_size b = 0
        then let (c, can_input) =
               (if 0 \<le> bf_next b then (upd_io (\<lambda>io. io\<lparr>io_out_head := Some (nat (bf_next b))\<rparr>) c, False)
                else (upd_io (\<lambda>io. io\<lparr>io_out_head := None, io_out_tail := None\<rparr>) c, True)) in
             run_bind (free_buf (cn_pool c) q) (\<lambda>p. ret (c\<lparr>cn_pool := p\<rparr>, can_input))
        else ret (c, False)))))))"

section \<open>Cutting requests out of the input\<close>

definition newline :: cchar where
  "newline = CC 10"

text \<open>
  \<open>strstr(q->data, "\n")\<close> sees the bytes up to the first NUL; for a full buffer that is the byte
  after the array.
\<close>

definition find_newline :: "buffer \<Rightarrow> nat option" where
  "find_newline b =
     (let s = takeWhile (\<lambda>c. c \<noteq> 0) (bf_data b); pre = takeWhile (\<lambda>c. c \<noteq> newline) s in
      if length pre < length s then Some (length pre) else None)"

partial_function (option) header_loop :: "pool \<Rightarrow> nat \<Rightarrow> int \<Rightarrow> (pool \<times> int option) run" where
  "header_loop p q hd_len =
     run_bind (buf_get p q) (\<lambda>b.
     run_bind (poke_data (bf_size b) 0 b) (\<lambda>b.
     run_bind (buf_upd p q (\<lambda>_. b)) (\<lambda>p.
     case find_newline b of
       Some pos \<Rightarrow> ret (p, Some (hd_len + int pos))
     | None \<Rightarrow>
         if 0 \<le> bf_next b then header_loop p (nat (bf_next b)) (hd_len + bf_size b)
         else ret (p, None))))"

definition has_header :: "conn \<Rightarrow> (conn \<times> bool) run" where
  "has_header c =
     (case io_in_head (cn_io c) of
        None \<Rightarrow> ret (c, False)
      | Some q \<Rightarrow>
        if 0 < io_header_len (cn_io c) then ret (c, True)
        else run_bind (header_loop (cn_pool c) q 0) (\<lambda>(p, r).
          let c = c\<lparr>cn_pool := p\<rparr> in
          case r of
            None \<Rightarrow> ret (c, False)
          | Some hd_len \<Rightarrow>
              ret (if 0 < hd_len then upd_io (\<lambda>io. io\<lparr>io_header_len := hd_len - 1\<rparr>) c else c, True)))"

text \<open>The head of the input copied to \<open>header_msg\<close>; \<open>start\<close> counts the bytes.\<close>

partial_function (option) copy_header ::
  "pool \<Rightarrow> nat \<Rightarrow> int \<Rightarrow> cchar list \<Rightarrow> int \<Rightarrow> (cchar list \<times> int) run"
where
  "copy_header p q header_len msg start =
     run_bind (buf_get p q) (\<lambda>b.
     run_bind (mem_get (bf_data b) 0 (bf_size b)) (\<lambda>d.
     run_bind (mem_put msg start d) (\<lambda>msg.
     let start = start + bf_size b in
     if header_len \<le> start then ret (msg, start)
     else if 0 \<le> bf_next b then copy_header p (nat (bf_next b)) header_len msg start
     else ret (msg, start))))"

definition value_limit :: int where
  "value_limit = 1000000"

definition clamp_value_len :: "int \<Rightarrow> int" where
  "clamp_value_len value_len =
     (if value_len < 0 then 0 else if value_limit < value_len then value_limit else value_len)"

definition set_format :: "directive list" where
  "set_format = [Lit (cs ''set''), Ws, Str 1024, Ws, Dec, Ws, Dec, Ws, Dec]"

definition cas_format :: "directive list" where
  "cas_format = [Lit (cs ''cas''), Ws, Str 1024, Ws, Dec, Ws, Dec, Ws, Dec, Ws, Ull]"

text \<open>What the header line says of the body: \<open>(is_write_cmd, body_len)\<close>.\<close>

definition header_body :: "cstr \<Rightarrow> (bool \<times> int) run" where
  "header_body header =
     run_bind (sscanf set_format header) (\<lambda>as.
     if length as = 4 then ret (True, clamp_value_len (sint (arg_int (as ! 3))))
     else
       run_bind (sscanf cas_format header) (\<lambda>as.
       if length as = 5 then ret (True, clamp_value_len (sint (arg_int (as ! 3))))
       else ret (False, 0)))"

definition get_body_len :: "conn \<Rightarrow> cchar list \<Rightarrow> (conn \<times> cchar list) run" where
  "get_body_len c header_msg =
     (let io = cn_io c in
      if 0 \<le> io_body_len io then ret (c, header_msg)
      else case io_in_head io of
        None \<Rightarrow> abort_with Undefined
      | Some q \<Rightarrow>
        run_bind (copy_header (cn_pool c) q (io_header_len io) header_msg 0) (\<lambda>(msg, start).
        if io_header_len io \<le> start
        then run_bind (mem_put msg (io_header_len io) [0]) (\<lambda>msg.
             run_bind (cstr_of msg) (\<lambda>s.
             run_bind (header_body s) (\<lambda>(w, n).
             ret (upd_io (\<lambda>io. io\<lparr>io_is_write := w, io_body_len := n\<rparr>) c, msg))))
        else ret (c, msg)))"

definition has_body :: "conn \<Rightarrow> bool" where
  "has_body c =
     (let io = cn_io c in
      if io_body_len io < 0 then False
      else io_header_len io + 4 + io_body_len io \<le> io_in_len io)"

text \<open>
  \<open>read_header\<close> and \<open>read_body\<close> are the same code on \<open>header_len\<close> and \<open>body_len\<close>: move \<open>k\<close>
  bytes from the head of the input to \<open>dst\<close>, giving emptied buffers back.
\<close>

partial_function (option) read_loop ::
  "conn \<Rightarrow> nat \<Rightarrow> int \<Rightarrow> cchar list \<Rightarrow> int \<Rightarrow> (conn \<times> cchar list) run"
where
  "read_loop c q k dst start =
     run_bind (buf_get (cn_pool c) q) (\<lambda>b.
     if bf_size b \<le> k
     then run_bind (mem_get (bf_data b) 0 (bf_size b)) (\<lambda>d.
          run_bind (mem_put dst start d) (\<lambda>dst.
          let k = k - bf_size b; start = start + bf_size b in
          if 0 \<le> bf_next b
          then let c = upd_io (\<lambda>io. io\<lparr>io_in_head := Some (nat (bf_next b))\<rparr>) c in
               run_bind (free_buf (cn_pool c) q) (\<lambda>p.
               read_loop (c\<lparr>cn_pool := p\<rparr>) (nat (bf_next b)) k dst start)
          else let c = upd_io (\<lambda>io. io\<lparr>io_in_head := None, io_in_tail := None\<rparr>) c in
               run_bind (free_buf (cn_pool c) q) (\<lambda>p. ret (c\<lparr>cn_pool := p\<rparr>, dst))))
     else run_bind (mem_get (bf_data b) 0 k) (\<lambda>d.
          run_bind (mem_put dst start d) (\<lambda>dst.
          run_bind (mem_get (bf_data b) k (bf_size b - k)) (\<lambda>keep.
          run_bind (mem_put (bf_data b) 0 keep) (\<lambda>d.
          let b = b\<lparr>bf_data := d, bf_size := bf_size b - k\<rparr> in
          run_bind (buf_upd (cn_pool c) q (\<lambda>_. b)) (\<lambda>p.
          let c = c\<lparr>cn_pool := p\<rparr> in
          if bf_size b = 0
          then let c = (if 0 \<le> bf_next b then upd_io (\<lambda>io. io\<lparr>io_in_head := Some (nat (bf_next b))\<rparr>) c
                        else upd_io (\<lambda>io. io\<lparr>io_in_head := None, io_in_tail := None\<rparr>) c) in
               run_bind (free_buf (cn_pool c) q) (\<lambda>p. ret (c\<lparr>cn_pool := p\<rparr>, dst))
          else ret (c, dst)))))))"

definition read_item :: "conn \<Rightarrow> int \<Rightarrow> cchar list \<Rightarrow> (conn \<times> cchar list) run" where
  "read_item c len dst =
     (if len < 0 then abort_with Assert_failed
      else case io_in_head (cn_io c) of
        None \<Rightarrow> abort_with Assert_failed
      | Some q \<Rightarrow>
        run_bind (read_loop c q (len + 2) dst 0) (\<lambda>(c, dst).
        run_bind (mem_put dst len [0]) (\<lambda>dst. ret (c, dst))))"

definition read_header :: "conn \<Rightarrow> cchar list \<Rightarrow> (conn \<times> cchar list) run" where
  "read_header c header = read_item c (io_header_len (cn_io c)) header"

definition read_body :: "conn \<Rightarrow> cchar list \<Rightarrow> (conn \<times> cchar list) run" where
  "read_body c body = read_item c (io_body_len (cn_io c)) body"

definition fix_buf_len :: "conn \<Rightarrow> conn" where
  "fix_buf_len c =
     upd_io (\<lambda>io.
       let n = (if io_is_write io then io_in_len io - (io_header_len io + io_body_len io + 4)
                else io_in_len io - (io_header_len io + io_body_len io + 2)) in
       io\<lparr>io_in_len := if n < 0 then 0 else n, io_header_len := 0, io_body_len := -1\<rparr>) c"

section \<open>Queues and the streams they hold\<close>

definition link :: "nat option \<Rightarrow> int" where
  "link h = (case h of None \<Rightarrow> -1 | Some i \<Rightarrow> int i)"

definition content :: "buffer \<Rightarrow> cchar list" where
  "content b = take (nat (bf_size b)) (bf_data b)"

definition stream :: "buffer list \<Rightarrow> nat list \<Rightarrow> cchar list" where
  "stream bs xs = concat (map (\<lambda>x. content (bs ! x)) xs)"

definition sized :: "buffer \<Rightarrow> bool" where
  "sized b \<longleftrightarrow> 0 \<le> bf_size b \<and> bf_size b \<le> int buf_unit"

definition queue :: "buffer list \<Rightarrow> nat option \<Rightarrow> nat option \<Rightarrow> nat list \<Rightarrow> bool" where
  "queue bs h t xs \<longleftrightarrow>
     chain bs (link h) xs \<and> t = (if xs = [] then None else Some (last xs)) \<and> (\<forall>x \<in> set xs. sized (bs ! x))"

text \<open>
  \<open>conn_inv c fl qi qo A\<close>: the pool's buffers are the free list \<open>fl\<close>, the two queues of the
  connection and \<open>A\<close>, which other connections own.
\<close>

definition conn_inv :: "conn \<Rightarrow> nat list \<Rightarrow> nat list \<Rightarrow> nat list \<Rightarrow> nat set \<Rightarrow> bool" where
  "conn_inv c fl qi qo A \<longleftrightarrow>
     pool_inv (cn_pool c) fl (set qi \<union> set qo \<union> A) \<and> distinct qi \<and> distinct qo \<and>
     set qi \<inter> set qo = {} \<and> set qi \<inter> A = {} \<and> set qo \<inter> A = {} \<and>
     queue (bp_base (cn_pool c)) (io_in_head (cn_io c)) (io_in_tail (cn_io c)) qi \<and>
     queue (bp_base (cn_pool c)) (io_out_head (cn_io c)) (io_out_tail (cn_io c)) qo"

abbreviation in_stream :: "conn \<Rightarrow> nat list \<Rightarrow> cchar list" where
  "in_stream c qi \<equiv> stream (bp_base (cn_pool c)) qi"

abbreviation out_stream :: "conn \<Rightarrow> nat list \<Rightarrow> cchar list" where
  "out_stream c qo \<equiv> stream (bp_base (cn_pool c)) qo"

text \<open>The buffers of other connections are as they were.\<close>

definition untouched :: "nat set \<Rightarrow> conn \<Rightarrow> conn \<Rightarrow> bool" where
  "untouched A c c' \<longleftrightarrow> (\<forall>x \<in> A. bp_base (cn_pool c') ! x = bp_base (cn_pool c) ! x) \<and>
     length (bp_base (cn_pool c')) = length (bp_base (cn_pool c))"

lemma untouched_refl [simp]: "untouched A c c"
  by (simp add: untouched_def)

lemma untouched_trans: "untouched A c c' \<Longrightarrow> untouched A c' c'' \<Longrightarrow> untouched A c c''"
  by (simp add: untouched_def)

lemma stream_simps [simp]:
  "stream bs [] = []" "stream bs (x # xs) = content (bs ! x) @ stream bs xs"
  "stream bs (xs @ ys) = stream bs xs @ stream bs ys"
  by (simp_all add: stream_def)

lemma stream_agree: "\<forall>x \<in> set xs. content (bs' ! x) = content (bs ! x) \<Longrightarrow> stream bs' xs = stream bs xs"
  by (induction xs) auto

lemma stream_upd [simp]: "x \<notin> set xs \<Longrightarrow> stream (bs[x := b]) xs = stream bs xs"
  by (rule stream_agree) (auto, metis nth_list_update_neq)

lemma link_eq [simp]: "link (Some i) = int i" "link None = -1" "link h < 0 \<longleftrightarrow> h = None"
  by (simp_all add: link_def split: option.split)

lemma chain_link: "chain bs (link h) xs \<Longrightarrow> h = (case xs of [] \<Rightarrow> None | x # _ \<Rightarrow> Some x)"
  by (cases xs; cases h) (auto simp: link_def)

lemma chain_snoc:
  assumes "chain bs h xs" and "xs \<noteq> []" and "distinct xs" and "x \<notin> set xs" and "x < length bs"
    and "bf_next (bs ! x) < 0"
  shows "chain (bs[last xs := (bs ! last xs)\<lparr>bf_next := int x\<rparr>]) h (xs @ [x])"
  using assms
proof (induction xs arbitrary: h)
  case (Cons y ys)
  show ?case
  proof (cases "ys = []")
    case True
    then show ?thesis using Cons.prems by (auto simp: nth_list_update)
  next
    case False
    then have "last ys \<noteq> y" using Cons.prems(3) by auto
    with False Cons show ?thesis by simp
  qed
qed simp

lemma queue_upd [simp]: "x \<notin> set xs \<Longrightarrow> queue (bs[x := b]) h t xs = queue bs h t xs"
  by (auto simp: queue_def) (metis nth_list_update_neq)+

lemma queue_empty: "queue bs h t [] \<longleftrightarrow> h = None \<and> t = None"
  by (auto simp: queue_def)

lemma queue_head: "queue bs h t xs \<Longrightarrow> h = (case xs of [] \<Rightarrow> None | x # _ \<Rightarrow> Some x)"
  by (auto simp: queue_def dest: chain_link)

lemma queue_tail: "queue bs h t xs \<Longrightarrow> t = (if xs = [] then None else Some (last xs))"
  by (auto simp: queue_def)

lemma queue_ConsD:
  assumes "queue bs h t (x # xs)"
  shows "x < length bs" and "sized (bs ! x)" and "0 \<le> bf_next (bs ! x) \<longleftrightarrow> xs \<noteq> []"
    and "xs \<noteq> [] \<Longrightarrow> queue bs (Some (nat (bf_next (bs ! x)))) t xs"
    and "next_buf (bs ! x) = (case xs of [] \<Rightarrow> None | y # _ \<Rightarrow> Some y)"
  using assms by (cases xs; auto simp: queue_def next_buf_def)+

text \<open>A new buffer at the end of a queue.\<close>

lemma queue_snoc:
  assumes q: "queue bs h t xs" and "distinct xs" and x: "x \<notin> set xs" "x < length bs"
    and b: "bf_next (bs ! x) < 0" "bf_size (bs ! x) = 0"
  shows "xs = [] \<Longrightarrow> queue bs (Some x) (Some x) [x]"
    and "xs \<noteq> [] \<Longrightarrow> queue (bs[last xs := (bs ! last xs)\<lparr>bf_next := int x\<rparr>]) h (Some x) (xs @ [x])"
    and "xs \<noteq> [] \<Longrightarrow> stream (bs[last xs := (bs ! last xs)\<lparr>bf_next := int x\<rparr>]) (xs @ [x]) = stream bs xs"
proof -
  show "xs = [] \<Longrightarrow> queue bs (Some x) (Some x) [x]"
    using x b by (simp add: queue_def sized_def)
  assume xs: "xs \<noteq> []"
  then have l: "last xs \<in> set xs" by simp
  let ?bs = "bs[last xs := (bs ! last xs)\<lparr>bf_next := int x\<rparr>]"
  have "chain ?bs (link h) (xs @ [x])"
    by (rule chain_snoc) (use assms xs in \<open>auto simp: queue_def\<close>)
  moreover have "last xs < length bs" "x \<noteq> last xs"
    using l q x chain_in [of bs "link h" xs] by (auto simp: queue_def)
  then have "sized (?bs ! y)" if "y \<in> set (xs @ [x])" for y
    using that q b l by (cases "y = last xs") (auto simp: queue_def sized_def)
  ultimately show "queue ?bs h (Some x) (xs @ [x])"
    by (simp add: queue_def)
  have "stream ?bs xs = stream bs xs"
    by (rule stream_agree) (cases "last xs < length bs"; auto simp: content_def nth_list_update list_update_beyond)
  moreover have "?bs ! x = bs ! x" using x l by (metis nth_list_update_neq)
  ultimately show "stream ?bs (xs @ [x]) = stream bs xs"
    using b by (simp add: content_def)
qed

section \<open>The operations on the streams\<close>

lemma conn_invD:
  assumes "conn_inv c fl qi qo A"
  shows "pool_inv (cn_pool c) fl (set qi \<union> set qo \<union> A)"
    and "queue (bp_base (cn_pool c)) (io_in_head (cn_io c)) (io_in_tail (cn_io c)) qi"
    and "queue (bp_base (cn_pool c)) (io_out_head (cn_io c)) (io_out_tail (cn_io c)) qo"
    and "distinct qi" "distinct qo" "set qi \<inter> set qo = {}" "set qi \<inter> A = {}" "set qo \<inter> A = {}"
  using assms by (simp_all add: conn_inv_def)

lemma conn_sel [simp]:
  "cn_pool (upd_io f c) = cn_pool c" "cn_io (upd_io f c) = f (cn_io c)"
  "upd_io f (c\<lparr>cn_pool := p\<rparr>) = (upd_io f c)\<lparr>cn_pool := p\<rparr>"
  by (simp_all add: upd_io_def)

lemma buf_data_in_use:
  assumes "conn_inv c fl qi qo A" and "x \<in> set qi \<union> set qo"
  shows "length (bf_data (bp_base (cn_pool c) ! x)) = buf_unit" and "x < length (bp_base (cn_pool c))"
    and "buf_get (cn_pool c) x = ret (bp_base (cn_pool c) ! x)" and "sized (bp_base (cn_pool c) ! x)"
  using pool_inv_in_use [OF conn_invD(1) [OF assms(1)], of x] conn_invD(2,3) [OF assms(1)] assms(2)
    buf_get_in_use [OF conn_invD(1) [OF assms(1)]]
  by (auto simp: queue_def)

lemma length_content: "sized b \<Longrightarrow> length (bf_data b) = buf_unit \<Longrightarrow> length (content b) = nat (bf_size b)"
  by (auto simp: content_def sized_def)

text \<open>The buffers that \<open>n\<close> bytes take, at least one.\<close>

definition chunks :: "nat \<Rightarrow> nat" where
  "chunks n = max 1 ((n + (buf_unit - 1)) div buf_unit)"

lemma chunks_rec: "chunks n = (if n \<le> buf_unit then 1 else Suc (chunks (n - buf_unit)))"
proof (cases "n \<le> buf_unit")
  case True
  then have "(n + 511) div 512 \<le> 1"
    by (simp add: buf_unit_def)
  with True show ?thesis by (simp add: chunks_def buf_unit_def)
next
  case False
  then obtain m where m: "n = m + 512" "0 < m"
    by (intro that [of "n - 512"]) (auto simp: buf_unit_def)
  then have "(n + 511) div 512 = Suc ((m + 511) div 512)" "1 \<le> (m + 511) div 512"
    by auto
  with False m show ?thesis by (simp add: chunks_def buf_unit_def)
qed

lemma buf_append_ok:
  assumes "sized b" and "length (bf_data b) = buf_unit" and "bf_size b + int (length k) \<le> int buf_unit"
  shows "\<exists>b'. buf_append k b = ret b' \<and> sized b' \<and> length (bf_data b') = buf_unit \<and>
    content b' = content b @ k \<and> bf_next b' = bf_next b"
proof -
  let ?s = "nat (bf_size b)"
  have s: "0 \<le> bf_size b" "?s + length k \<le> buf_unit" "nat (bf_size b + int (length k)) = ?s + length k"
    using assms by (auto simp: sized_def)
  then show ?thesis
    using assms by (auto simp: buf_append_def mem_put_def sized_def content_def)
qed

text \<open>A change of a queue's buffer that keeps its link.\<close>

lemma queue_upd_link:
  assumes "queue bs h t xs" and "sized b" and "bf_next b = bf_next (bs ! x)"
  shows "queue (bs[x := b]) h t xs"
proof (cases "x < length bs")
  case True
  have "chain (bs[x := b]) (link h) xs = chain bs (link h) xs"
    by (rule chain_next_agree) (use assms True in \<open>auto simp: nth_list_update\<close>)
  with assms True show ?thesis
    by (auto simp: queue_def nth_list_update)
qed (use assms in \<open>simp add: list_update_beyond\<close>)

lemma conn_inv_upd:
  assumes inv: "conn_inv c fl qi qo A" and x: "x \<in> set qi \<union> set qo"
    and b: "sized b" "length (bf_data b) = buf_unit" "bf_next b = bf_next (bp_base (cn_pool c) ! x)"
  shows "conn_inv (c\<lparr>cn_pool := (cn_pool c)\<lparr>bp_base := (bp_base (cn_pool c))[x := b]\<rparr>\<rparr>) fl qi qo A"
proof -
  note I = conn_invD [OF inv]
  have "pool_inv ((cn_pool c)\<lparr>bp_base := (bp_base (cn_pool c))[x := b]\<rparr>) fl (set qi \<union> set qo \<union> A)"
    by (rule pool_inv_upd [OF I(1)]) (use x b in auto)
  then show ?thesis
    using I queue_upd_link [OF I(2) b(1,3)] queue_upd_link [OF I(3) b(1,3)] by (simp add: conn_inv_def)
qed

text \<open>Nothing but the output queue's ends has changed in the connection's record.\<close>

definition only_out :: "conn \<Rightarrow> conn \<Rightarrow> bool" where
  "only_out c c' \<longleftrightarrow> (cn_io c')\<lparr>io_out_head := None, io_out_tail := None\<rparr> =
     (cn_io c)\<lparr>io_out_head := None, io_out_tail := None\<rparr>"

lemma only_out_refl [simp]: "only_out c c"
  by (simp add: only_out_def)

lemma only_out_trans: "only_out c c' \<Longrightarrow> only_out c' c'' \<Longrightarrow> only_out c c''"
  by (simp add: only_out_def)

lemma only_outD:
  assumes "only_out c c'"
  shows "io_in_head (cn_io c') = io_in_head (cn_io c)" "io_in_tail (cn_io c') = io_in_tail (cn_io c)"
    "io_in_len (cn_io c') = io_in_len (cn_io c)" "io_header_len (cn_io c') = io_header_len (cn_io c)"
    "io_body_len (cn_io c') = io_body_len (cn_io c)" "io_is_write (cn_io c') = io_is_write (cn_io c)"
    "io_worker (cn_io c') = io_worker (cn_io c)" "io_fd (cn_io c') = io_fd (cn_io c)"
  using assms by (cases "cn_io c"; cases "cn_io c'"; simp add: only_out_def)+

text \<open>What an allocation does to a connection.\<close>

lemma conn_alloc:
  assumes inv: "conn_inv c (x # fl) qi qo A" and fl: "fl \<noteq> []"
  obtains p' where "alloc_buf (cn_pool c) = ret (p', x)" and "x \<notin> set qi \<union> set qo \<union> A"
    and "pool_inv p' fl (insert x (set qi \<union> set qo \<union> A))"
    and "bp_base p' = (bp_base (cn_pool c))[x := (bp_base (cn_pool c) ! x)\<lparr>bf_size := 0, bf_next := -1\<rparr>]"
    and "x < length (bp_base (cn_pool c))"
    and "queue (bp_base p') (io_in_head (cn_io c)) (io_in_tail (cn_io c)) qi"
    and "queue (bp_base p') (io_out_head (cn_io c)) (io_out_tail (cn_io c)) qo"
    and "stream (bp_base p') qi = in_stream c qi" and "stream (bp_base p') qo = out_stream c qo"
    and "bf_next (bp_base p' ! x) = -1" and "bf_size (bp_base p' ! x) = 0"
    and "\<forall>y \<in> A. bp_base p' ! y = bp_base (cn_pool c) ! y"
proof -
  note I = conn_invD [OF inv]
  have xl: "x < length (bp_base (cn_pool c))"
    using I(1) by (auto simp: pool_inv_def)
  obtain p' where p': "alloc_buf (cn_pool c) = ret (p', x)" "x \<notin> set qi \<union> set qo \<union> A"
    "pool_inv p' fl (insert x (set qi \<union> set qo \<union> A))"
    "bp_base p' = (bp_base (cn_pool c))[x := (bp_base (cn_pool c) ! x)\<lparr>bf_size := 0, bf_next := -1\<rparr>]"
    using alloc_buf_ok [OF I(1) fl] by auto
  then have "x \<notin> set qi" "x \<notin> set qo" "x \<notin> A" by auto
  moreover have "\<forall>y \<in> A. bp_base p' ! y = bp_base (cn_pool c) ! y"
    using \<open>x \<notin> A\<close> p'(4) by (metis nth_list_update_neq)
  ultimately show thesis
    using that [OF p' xl] I p'(4) xl by simp
qed

lemma conn_alloc_last:
  assumes "conn_inv c fl qi qo A" and "length fl \<le> 1"
  shows "alloc_buf (cn_pool c) = abort_with Assert_failed"
  using alloc_buf_last [OF conn_invD(1) [OF assms(1)] assms(2)] .

lemma out_enqueue_ok:
  assumes inv: "conn_inv c (x # fl) qi qo A" and fl: "fl \<noteq> []"
  obtains c' where "out_enqueue c = ret (c', x)" and "conn_inv c' fl qi (qo @ [x]) A"
    and "in_stream c' qi = in_stream c qi" and "out_stream c' (qo @ [x]) = out_stream c qo"
    and "bf_size (bp_base (cn_pool c') ! x) = 0" and "untouched A c c'" and "only_out c c'"
proof -
  obtain p' where p': "alloc_buf (cn_pool c) = ret (p', x)" "x \<notin> set qi \<union> set qo \<union> A"
    "pool_inv p' fl (insert x (set qi \<union> set qo \<union> A))"
    "bp_base p' = (bp_base (cn_pool c))[x := (bp_base (cn_pool c) ! x)\<lparr>bf_size := 0, bf_next := -1\<rparr>]"
    "x < length (bp_base (cn_pool c))"
    and Q: "queue (bp_base p') (io_in_head (cn_io c)) (io_in_tail (cn_io c)) qi"
    "queue (bp_base p') (io_out_head (cn_io c)) (io_out_tail (cn_io c)) qo"
    and S: "stream (bp_base p') qi = in_stream c qi" "stream (bp_base p') qo = out_stream c qo"
    and b: "bf_next (bp_base p' ! x) = -1" "bf_size (bp_base p' ! x) = 0"
    and u: "\<forall>y \<in> A. bp_base p' ! y = bp_base (cn_pool c) ! y"
    by (rule conn_alloc [OF inv fl])
  note I = conn_invD [OF inv]
  have xl: "x < length (bp_base p')" using p'(4,5) by simp
  have set: "insert x (set qi \<union> set qo \<union> A) = set qi \<union> set (qo @ [x]) \<union> A" by auto
  show thesis
  proof (cases "qo = []")
    case True
    let ?c = "(upd_io (\<lambda>io. io\<lparr>io_out_head := Some x, io_out_tail := Some x\<rparr>) c)\<lparr>cn_pool := p'\<rparr>"
    have "out_enqueue c = ret (?c, x)"
      using p'(1) True I(3) by (simp add: out_enqueue_def queue_empty)
    moreover have "conn_inv ?c fl qi (qo @ [x]) A"
      using True Q(1) I p'(2,3) set queue_snoc(1) [OF Q(2) I(5) _ xl] b by (simp add: conn_inv_def)
    moreover have "in_stream ?c qi = in_stream c qi" "out_stream ?c (qo @ [x]) = out_stream c qo"
      "bf_size (bp_base (cn_pool ?c) ! x) = 0" "untouched A c ?c" "only_out c ?c"
      using S b True u p'(4) by (simp_all add: content_def untouched_def only_out_def)
    ultimately show ?thesis by (rule that)
  next
    case False
    let ?t = "last qo"
    let ?bs = "(bp_base p')[?t := (bp_base p' ! ?t)\<lparr>bf_next := int x\<rparr>]"
    let ?c = "(upd_io (\<lambda>io. io\<lparr>io_out_tail := Some x\<rparr>) c)\<lparr>cn_pool := p'\<lparr>bp_base := ?bs\<rparr>\<rparr>"
    have "?t \<in> set qo" using False by simp
    then have t: "?t \<in> set qo" "?t \<notin> set qi" "?t \<notin> A" "?t \<noteq> x"
      using I(6,8) p'(2) by blast+
    then have tl: "?t < length (bp_base p')" "length (bf_data (bp_base p' ! ?t)) = buf_unit"
      using pool_inv_in_use [OF p'(3), of ?t] by auto
    have hd: "io_out_head (cn_io c) \<noteq> None" "io_out_tail (cn_io c) = Some ?t"
      using queue_head [OF I(3)] queue_tail [OF I(3)] False by (auto split: list.splits)
    have "out_enqueue c = ret (?c, x)"
      using p'(1) hd tl by (auto simp: out_enqueue_def buf_upd_def upd_io_def)
    moreover have "conn_inv ?c fl qi (qo @ [x]) A"
      using Q(1) I p'(2) set queue_snoc(2) [OF Q(2) I(5) _ xl _ _ False] b t
        pool_inv_upd [OF p'(3), of ?t "(bp_base p' ! ?t)\<lparr>bf_next := int x\<rparr>"] tl
      by (simp add: conn_inv_def)
    moreover have "out_stream ?c (qo @ [x]) = out_stream c qo"
      using queue_snoc(3) [OF Q(2) I(5) _ xl _ _ False] S(2) b p'(2) by simp
    moreover have "in_stream ?c qi = in_stream c qi"
      using S(1) t(2) by simp
    moreover have "untouched A c ?c"
      using u t(3) p'(4) by (auto simp: untouched_def) (metis nth_list_update_neq)
    moreover have "bf_size (bp_base (cn_pool ?c) ! x) = 0" "only_out c ?c"
      using b t(4) by (simp_all add: only_out_def)
    ultimately show ?thesis using that [of ?c] by blast
  qed
qed

text \<open>\<open>appended A c c' qi qo qo' k\<close>: the bytes \<open>k\<close> went to the end of the output stream.\<close>

definition appended :: "nat set \<Rightarrow> conn \<Rightarrow> conn \<Rightarrow> nat list \<Rightarrow> nat list \<Rightarrow> nat list \<Rightarrow> cchar list \<Rightarrow> bool" where
  "appended A c c' qi qo qo' k \<longleftrightarrow>
     in_stream c' qi = in_stream c qi \<and> out_stream c' qo' = out_stream c qo @ k \<and>
     untouched A c c' \<and> only_out c c'"

lemma appended_trans:
  "appended A c c' qi qo qo' k \<Longrightarrow> appended A c' c'' qi qo' qo'' k' \<Longrightarrow> appended A c c'' qi qo qo'' (k @ k')"
  by (auto simp: appended_def intro: untouched_trans only_out_trans)

lemma appended_nil: "appended A c c qi qo qo []"
  by (simp add: appended_def)

lemma append_in_place:
  assumes inv: "conn_inv c fl qi qo A" and x: "x \<in> set qo" "last qo = x"
    and n: "bf_size (bp_base (cn_pool c) ! x) + int (length k) \<le> int buf_unit"
  obtains p where "buf_upd_run (cn_pool c) x (buf_append k) = ret p"
    and "conn_inv (c\<lparr>cn_pool := p\<rparr>) fl qi qo A" and "appended A c (c\<lparr>cn_pool := p\<rparr>) qi qo qo k"
proof -
  let ?bs = "bp_base (cn_pool c)"
  note I = conn_invD [OF inv] and D = buf_data_in_use [OF inv, of x]
  obtain b' where b': "buf_append k (?bs ! x) = ret b'" "sized b'" "length (bf_data b') = buf_unit"
    "content b' = content (?bs ! x) @ k" "bf_next b' = bf_next (?bs ! x)"
    using buf_append_ok [of "?bs ! x" k] D x(1) n by auto
  let ?p = "(cn_pool c)\<lparr>bp_base := ?bs[x := b']\<rparr>"
  have "buf_upd_run (cn_pool c) x (buf_append k) = ret ?p"
    using b'(1) D x(1) by (simp add: buf_upd_run_def buf_upd_def)
  moreover have "conn_inv (c\<lparr>cn_pool := ?p\<rparr>) fl qi qo A"
    by (rule conn_inv_upd [OF inv]) (use x b' in auto)
  moreover have "stream (?bs[x := b']) qo = stream ?bs qo @ k"
  proof -
    obtain ys where ys: "qo = ys @ [x]" using x by (metis append_butlast_last_id empty_iff list.set(1))
    then have "x \<notin> set ys" using I(5) by auto
    then show ?thesis using ys b'(4) D x(1) by simp
  qed
  moreover have "x \<notin> set qi" "x \<notin> A" using I(6,8) x(1) by auto
  then have "stream (?bs[x := b']) qi = stream ?bs qi" "\<forall>y \<in> A. ?bs[x := b'] ! y = ?bs ! y"
    by (simp, metis nth_list_update_neq)
  ultimately show thesis
    using that [of ?p] by (simp add: appended_def untouched_def only_out_def)
qed

lemma send_loop_new:
  assumes "conn_inv c fl qi qo A"
  shows "(chunks (length k) < length fl \<longrightarrow>
      (\<exists>c' qo'. send_loop c k None = ret c' \<and> conn_inv c' (drop (chunks (length k)) fl) qi qo' A \<and>
        appended A c c' qi qo qo' k \<and> qo' \<noteq> [])) \<and>
    (length fl \<le> chunks (length k) \<longrightarrow> send_loop c k None = abort_with Assert_failed)"
  using assms
proof (induction "length k" arbitrary: c fl qo k rule: less_induct)
  case less
  note inv = less.prems
  show ?case
  proof (cases "length fl \<le> 1")
    case True
    then have "send_loop c k None = abort_with Assert_failed"
      using conn_alloc_last [OF inv] by (subst send_loop.simps) (simp add: out_enqueue_def)
    moreover have "1 \<le> chunks (length k)" by (simp add: chunks_def)
    ultimately show ?thesis using True by auto
  next
    case False
    then obtain x fl' where fl: "fl = x # fl'" "fl' \<noteq> []" by (cases fl) auto
    obtain c1 where c1: "out_enqueue c = ret (c1, x)" "conn_inv c1 fl' qi (qo @ [x]) A"
      "in_stream c1 qi = in_stream c qi" "out_stream c1 (qo @ [x]) = out_stream c qo"
      "bf_size (bp_base (cn_pool c1) ! x) = 0" "untouched A c c1" "only_out c c1"
      by (rule out_enqueue_ok [OF inv [unfolded fl(1)] fl(2)])
    have ap1: "appended A c c1 qi qo (qo @ [x]) []"
      using c1 by (simp add: appended_def)
    have get: "buf_get (cn_pool c1) x = ret (bp_base (cn_pool c1) ! x)"
      using buf_data_in_use(3) [OF c1(2)] by simp
    show ?thesis
    proof (cases "length k \<le> buf_unit")
      case True
      obtain p where p: "buf_upd_run (cn_pool c1) x (buf_append k) = ret p"
        "conn_inv (c1\<lparr>cn_pool := p\<rparr>) fl' qi (qo @ [x]) A"
        "appended A c1 (c1\<lparr>cn_pool := p\<rparr>) qi (qo @ [x]) (qo @ [x]) k"
        by (rule append_in_place [OF c1(2), of x k]) (use True c1(5) in auto)
      have "send_loop c k None = ret (c1\<lparr>cn_pool := p\<rparr>)"
        using c1(1,5) get p(1) True by (subst send_loop.simps) simp
      moreover have "chunks (length k) = 1"
        using True by (subst chunks_rec) simp
      ultimately show ?thesis
        using p(2) appended_trans [OF ap1 p(3)] fl by auto
    next
      case False
      let ?k1 = "take buf_unit k" and ?k2 = "drop buf_unit k"
      obtain p where p: "buf_upd_run (cn_pool c1) x (buf_append ?k1) = ret p"
        "conn_inv (c1\<lparr>cn_pool := p\<rparr>) fl' qi (qo @ [x]) A"
        "appended A c1 (c1\<lparr>cn_pool := p\<rparr>) qi (qo @ [x]) (qo @ [x]) ?k1"
        by (rule append_in_place [OF c1(2), of x ?k1]) (use c1(5) in auto)
      have go: "send_loop c k None = send_loop (c1\<lparr>cn_pool := p\<rparr>) ?k2 None"
        using c1(1,5) get p(1) False by (subst send_loop.simps) simp
      have ch: "chunks (length k) = Suc (chunks (length ?k2))"
        using False by (subst chunks_rec) simp
      have "length ?k2 < length k" using False by (auto simp: buf_unit_def)
      moreover have "appended A c c'' qi qo qo'' k"
        if "appended A (c1\<lparr>cn_pool := p\<rparr>) c'' qi (qo @ [x]) qo'' ?k2" for c'' qo''
        using appended_trans [OF appended_trans [OF ap1 p(3)] that] by simp
      ultimately show ?thesis
        unfolding go ch using less.hyps [of ?k2, OF _ p(2)] fl by fastforce
    qed
  qed
qed

text \<open>The buffers that sending \<open>n\<close> more bytes takes from the pool.\<close>

definition send_need :: "conn \<Rightarrow> nat list \<Rightarrow> nat \<Rightarrow> nat" where
  "send_need c qo n =
     (let r = (if qo = [] then 0 else buf_unit - nat (bf_size (bp_base (cn_pool c) ! last qo))) in
      if qo \<noteq> [] \<and> n \<le> r then 0 else chunks (n - r))"

lemma append_send_data_ok:
  assumes inv: "conn_inv c fl qi qo A"
  shows "(send_need c qo (length k) < length fl \<longrightarrow>
      (\<exists>c' qo'. append_send_data c k = ret c' \<and> conn_inv c' (drop (send_need c qo (length k)) fl) qi qo' A \<and>
        appended A c c' qi qo qo' k \<and> qo' \<noteq> [])) \<and>
    (0 < send_need c qo (length k) \<and> length fl \<le> send_need c qo (length k) \<longrightarrow>
      append_send_data c k = abort_with Assert_failed)"
proof (cases "qo = []")
  case True
  then have "append_send_data c k = send_loop c k None"
    using queue_tail [OF conn_invD(3) [OF inv]] by (simp add: append_send_data_def)
  then show ?thesis
    using send_loop_new [OF inv, of k] True by (simp add: send_need_def)
next
  case False
  let ?t = "last qo"
  let ?b = "bp_base (cn_pool c) ! ?t"
  have t: "?t \<in> set qo" using False by simp
  note D = buf_data_in_use [OF inv, of ?t]
  have tl: "io_out_tail (cn_io c) = Some ?t"
    using queue_tail [OF conn_invD(3) [OF inv]] False by simp
  have sz: "0 \<le> bf_size ?b" "bf_size ?b \<le> int buf_unit" "buf_get (cn_pool c) ?t = ret ?b"
    using D t by (auto simp: sized_def)
  let ?r = "buf_unit - nat (bf_size ?b)"
  have r: "nat (int buf_unit - bf_size ?b) = ?r" "int (length k) \<le> int buf_unit - bf_size ?b \<longleftrightarrow> length k \<le> ?r"
    using sz by auto
  show ?thesis
  proof (cases "length k \<le> ?r")
    case True
    obtain p where p: "buf_upd_run (cn_pool c) ?t (buf_append k) = ret p"
      "conn_inv (c\<lparr>cn_pool := p\<rparr>) fl qi qo A" "appended A c (c\<lparr>cn_pool := p\<rparr>) qi qo qo k"
      by (rule append_in_place [OF inv t refl, of k]) (use True r sz in auto)
    have "append_send_data c k = ret (c\<lparr>cn_pool := p\<rparr>)"
      unfolding append_send_data_def tl by (subst send_loop.simps) (use sz p(1) True r in simp)
    then show ?thesis
      using p(2,3) True False by (auto simp: send_need_def)
  next
    case f: False
    let ?k1 = "take ?r k" and ?k2 = "drop ?r k"
    obtain p where p: "buf_upd_run (cn_pool c) ?t (buf_append ?k1) = ret p"
      "conn_inv (c\<lparr>cn_pool := p\<rparr>) fl qi qo A" "appended A c (c\<lparr>cn_pool := p\<rparr>) qi qo qo ?k1"
      by (rule append_in_place [OF inv t refl, of ?k1]) (use f sz in auto)
    have go: "append_send_data c k = send_loop (c\<lparr>cn_pool := p\<rparr>) ?k2 None"
      unfolding append_send_data_def tl by (subst send_loop.simps) (use sz p(1) f r in simp)
    have "appended A c c'' qi qo qo'' k"
      if "appended A (c\<lparr>cn_pool := p\<rparr>) c'' qi qo qo'' ?k2" for c'' qo''
      using appended_trans [OF p(3) that] by simp
    moreover have "send_need c qo (length k) = chunks (length ?k2)"
      using f False by (simp add: send_need_def)
    ultimately show ?thesis
      unfolding go using send_loop_new [OF p(2), of ?k2] by fastforce
  qed
qed

end
