(* ===== verification/Io_Input.thy ===== *)
theory Io_Input
  imports Io_Buf
begin

text \<open>
  The input side of a connection as operations on its byte stream: what is received goes to the
  end of the stream, a request's header and body are its first bytes however the network cut it
  into packets, and emptied buffers go back to the pool.
\<close>

section \<open>Taking buffers off a queue\<close>

text \<open>Taking the first buffer off a queue and giving it back to the pool.\<close>

lemma queue_tl:
  assumes "queue bs h t (x # xs)"
  shows "queue bs (case xs of [] \<Rightarrow> None | y # _ \<Rightarrow> Some y) (if xs = [] then None else t) xs"
  using assms by (cases xs) (auto simp: queue_def)

lemma conn_free:
  assumes inv: "conn_inv c fl qi qo A" and fl: "fl \<noteq> []" and x: "x \<in> set qi \<union> set qo"
  obtains p where "free_buf (cn_pool c) x = ret p"
    and "pool_inv p (x # fl) (set qi \<union> set qo \<union> A - {x})"
    and "\<And>y. y \<noteq> x \<Longrightarrow> bp_base p ! y = bp_base (cn_pool c) ! y"
    and "length (bp_base p) = length (bp_base (cn_pool c))"
    and "\<And>h t xs. x \<notin> set xs \<Longrightarrow> queue (bp_base p) h t xs = queue (bp_base (cn_pool c)) h t xs"
    and "\<And>xs. x \<notin> set xs \<Longrightarrow> stream (bp_base p) xs = stream (bp_base (cn_pool c)) xs"
proof -
  have "x \<in> set qi \<union> set qo \<union> A" using x by blast
  from free_buf_ok [OF conn_invD(1) [OF inv] fl this] obtain p where p: "free_buf (cn_pool c) x = ret p"
    "pool_inv p (x # fl) (set qi \<union> set qo \<union> A - {x})"
    "bp_base p = (bp_base (cn_pool c))[x := (bp_base (cn_pool c) ! x)\<lparr>bf_size := 0, bf_next := bp_head (cn_pool c)\<rparr>]"
    by blast
  then show thesis
    by (intro that [OF p(1,2)]) simp_all
qed

lemma dequeue_in:
  assumes inv: "conn_inv c fl (x # qi) qo A" and fl: "fl \<noteq> []"
  obtains p where "free_buf (cn_pool c) x = ret p"
    and "\<forall>c'. cn_pool c' = p \<and> io_in_head (cn_io c') = (case qi of [] \<Rightarrow> None | y # _ \<Rightarrow> Some y) \<and>
        io_in_tail (cn_io c') = (if qi = [] then None else io_in_tail (cn_io c)) \<and>
        io_out_head (cn_io c') = io_out_head (cn_io c) \<and> io_out_tail (cn_io c') = io_out_tail (cn_io c) \<longrightarrow>
        conn_inv c' (x # fl) qi qo A \<and> in_stream c' qi = in_stream c qi \<and>
        out_stream c' qo = out_stream c qo \<and> untouched A c c'"
proof -
  note I = conn_invD [OF inv]
  have x: "x \<notin> set qi" "x \<notin> set qo" "x \<notin> A" using I by auto
  obtain p where p: "free_buf (cn_pool c) x = ret p"
    "pool_inv p (x # fl) (set (x # qi) \<union> set qo \<union> A - {x})"
    "\<And>y. y \<noteq> x \<Longrightarrow> bp_base p ! y = bp_base (cn_pool c) ! y"
    "length (bp_base p) = length (bp_base (cn_pool c))"
    "\<And>h t xs. x \<notin> set xs \<Longrightarrow> queue (bp_base p) h t xs = queue (bp_base (cn_pool c)) h t xs"
    "\<And>xs. x \<notin> set xs \<Longrightarrow> stream (bp_base p) xs = stream (bp_base (cn_pool c)) xs"
    by (rule conn_free [OF inv fl, of x]) auto
  have "set (x # qi) \<union> set qo \<union> A - {x} = set qi \<union> set qo \<union> A"
    using x by auto
  moreover have "\<forall>y \<in> A. bp_base p ! y = bp_base (cn_pool c) ! y"
    using p(3) x(3) by metis
  ultimately show thesis
    using that [OF p(1)] p I x queue_tl [OF I(2)]
    by (auto simp: conn_inv_def untouched_def)
qed

lemma dequeue_out:
  assumes inv: "conn_inv c fl qi (x # qo) A" and fl: "fl \<noteq> []"
  obtains p where "free_buf (cn_pool c) x = ret p"
    and "\<forall>c'. cn_pool c' = p \<and> io_out_head (cn_io c') = (case qo of [] \<Rightarrow> None | y # _ \<Rightarrow> Some y) \<and>
        io_out_tail (cn_io c') = (if qo = [] then None else io_out_tail (cn_io c)) \<and>
        io_in_head (cn_io c') = io_in_head (cn_io c) \<and> io_in_tail (cn_io c') = io_in_tail (cn_io c) \<longrightarrow>
        conn_inv c' (x # fl) qi qo A \<and> in_stream c' qi = in_stream c qi \<and>
        out_stream c' qo = out_stream c qo \<and> untouched A c c'"
proof -
  note I = conn_invD [OF inv]
  have x: "x \<notin> set qi" "x \<notin> set qo" "x \<notin> A" using I by auto
  obtain p where p: "free_buf (cn_pool c) x = ret p"
    "pool_inv p (x # fl) (set qi \<union> set (x # qo) \<union> A - {x})"
    "\<And>y. y \<noteq> x \<Longrightarrow> bp_base p ! y = bp_base (cn_pool c) ! y"
    "length (bp_base p) = length (bp_base (cn_pool c))"
    "\<And>h t xs. x \<notin> set xs \<Longrightarrow> queue (bp_base p) h t xs = queue (bp_base (cn_pool c)) h t xs"
    "\<And>xs. x \<notin> set xs \<Longrightarrow> stream (bp_base p) xs = stream (bp_base (cn_pool c)) xs"
    by (rule conn_free [OF inv fl, of x]) auto
  have "set qi \<union> set (x # qo) \<union> A - {x} = set qi \<union> set qo \<union> A"
    using x by auto
  moreover have "\<forall>y \<in> A. bp_base p ! y = bp_base (cn_pool c) ! y"
    using p(3) x(3) by metis
  ultimately show thesis
    using that [OF p(1)] p I x queue_tl [OF I(3)]
    by (auto simp: conn_inv_def untouched_def)
qed

text \<open>Nothing but the input queue's ends has changed in the connection's record.\<close>

definition only_in :: "conn \<Rightarrow> conn \<Rightarrow> bool" where
  "only_in c c' \<longleftrightarrow> (cn_io c')\<lparr>io_in_head := None, io_in_tail := None\<rparr> =
     (cn_io c)\<lparr>io_in_head := None, io_in_tail := None\<rparr>"

lemma only_in_refl [simp]: "only_in c c"
  by (simp add: only_in_def)

lemma only_in_trans: "only_in c c' \<Longrightarrow> only_in c' c'' \<Longrightarrow> only_in c c''"
  by (simp add: only_in_def)

lemma only_inD:
  assumes "only_in c c'"
  shows "io_out_head (cn_io c') = io_out_head (cn_io c)" "io_out_tail (cn_io c') = io_out_tail (cn_io c)"
    "io_in_len (cn_io c') = io_in_len (cn_io c)" "io_header_len (cn_io c') = io_header_len (cn_io c)"
    "io_body_len (cn_io c') = io_body_len (cn_io c)" "io_is_write (cn_io c') = io_is_write (cn_io c)"
    "io_worker (cn_io c') = io_worker (cn_io c)" "io_fd (cn_io c') = io_fd (cn_io c)"
  using assms by (cases "cn_io c"; cases "cn_io c'"; simp add: only_in_def)+

text \<open>\<open>consumed A c c' qi qi' qo n\<close>: the first \<open>n\<close> bytes of the input stream are gone.\<close>

definition consumed :: "nat set \<Rightarrow> conn \<Rightarrow> conn \<Rightarrow> nat list \<Rightarrow> nat list \<Rightarrow> nat list \<Rightarrow> nat \<Rightarrow> bool" where
  "consumed A c c' qi qi' qo n \<longleftrightarrow>
     in_stream c' qi' = drop n (in_stream c qi) \<and> out_stream c' qo = out_stream c qo \<and>
     untouched A c c' \<and> only_in c c'"

lemma mem_put_ok:
  "0 \<le> off \<Longrightarrow> nat off + length xs \<le> length a \<Longrightarrow>
   mem_put a off xs = ret (take (nat off) a @ xs @ drop (nat off + length xs) a)"
  by (simp add: mem_put_def)

lemma mem_get_content:
  "sized b \<Longrightarrow> length (bf_data b) = buf_unit \<Longrightarrow> mem_get (bf_data b) 0 (bf_size b) = ret (content b)"
  by (auto simp: mem_get_def sized_def content_def)

text \<open>The rest of a buffer moved to its front.\<close>

lemma shift_buffer:
  assumes "sized b" and "length (bf_data b) = buf_unit" and "0 \<le> k" and "k \<le> bf_size b"
  shows "\<exists>keep d. mem_get (bf_data b) k (bf_size b - k) = ret keep \<and> mem_put (bf_data b) 0 keep = ret d \<and>
    length d = buf_unit \<and> content (b\<lparr>bf_data := d, bf_size := bf_size b - k\<rparr>) = drop (nat k) (content b) \<and>
    sized (b\<lparr>bf_data := d, bf_size := bf_size b - k\<rparr>)"
proof -
  let ?keep = "take (nat (bf_size b - k)) (drop (nat k) (bf_data b))"
  have n: "nat (bf_size b - k) = nat (bf_size b) - nat k" "nat k \<le> nat (bf_size b)" "nat (bf_size b) \<le> buf_unit"
    using assms by (auto simp: sized_def)
  have "mem_get (bf_data b) k (bf_size b - k) = ret ?keep"
    using assms n by (auto simp: mem_get_def)
  moreover have "length ?keep = nat (bf_size b) - nat k"
    using diff_le_mono [OF n(3), of "nat k"] n(1) assms(2) by (simp add: min_absorb1)
  ultimately show ?thesis
    using assms n le_trans [OF diff_le_self n(3)] by (auto simp: mem_put_def content_def sized_def drop_take)
qed

lemma dequeue_in_last:
  assumes inv: "conn_inv c fl [x] qo A" and fl: "fl \<noteq> []"
  obtains p c' where "free_buf (cn_pool c) x = ret p"
    and "c' = (upd_io (\<lambda>io. io\<lparr>io_in_head := None, io_in_tail := None\<rparr>) c)\<lparr>cn_pool := p\<rparr>"
    and "conn_inv c' (x # fl) [] qo A"
    and "consumed A c c' [x] [] qo (length (content (bp_base (cn_pool c) ! x)))"
proof (rule dequeue_in [OF inv fl])
  fix p
  assume p: "free_buf (cn_pool c) x = ret p"
    "\<forall>c'. cn_pool c' = p \<and> io_in_head (cn_io c') = (case [] of [] \<Rightarrow> None | y # _ \<Rightarrow> Some y) \<and>
        io_in_tail (cn_io c') = (if [] = [] then None else io_in_tail (cn_io c)) \<and>
        io_out_head (cn_io c') = io_out_head (cn_io c) \<and> io_out_tail (cn_io c') = io_out_tail (cn_io c) \<longrightarrow>
        conn_inv c' (x # fl) [] qo A \<and> in_stream c' [] = in_stream c [] \<and>
        out_stream c' qo = out_stream c qo \<and> untouched A c c'"
  let ?c = "(upd_io (\<lambda>io. io\<lparr>io_in_head := None, io_in_tail := None\<rparr>) c)\<lparr>cn_pool := p\<rparr>"
  show thesis
    by (rule that [OF p(1) refl]) (use p(2) [rule_format, of ?c] in \<open>auto simp: consumed_def only_in_def\<close>)
qed

lemma dequeue_in_next:
  assumes inv: "conn_inv c fl (x # y # qi) qo A" and fl: "fl \<noteq> []"
  obtains p c' where "free_buf (cn_pool c) x = ret p"
    and "c' = (upd_io (\<lambda>io. io\<lparr>io_in_head := Some y\<rparr>) c)\<lparr>cn_pool := p\<rparr>"
    and "conn_inv c' (x # fl) (y # qi) qo A"
    and "consumed A c c' (x # y # qi) (y # qi) qo (length (content (bp_base (cn_pool c) ! x)))"
    and "bf_next (bp_base (cn_pool c) ! x) = int y"
proof (rule dequeue_in [OF inv fl])
  fix p
  assume p: "free_buf (cn_pool c) x = ret p"
    "\<forall>c'. cn_pool c' = p \<and> io_in_head (cn_io c') = (case y # qi of [] \<Rightarrow> None | y # _ \<Rightarrow> Some y) \<and>
        io_in_tail (cn_io c') = (if y # qi = [] then None else io_in_tail (cn_io c)) \<and>
        io_out_head (cn_io c') = io_out_head (cn_io c) \<and> io_out_tail (cn_io c') = io_out_tail (cn_io c) \<longrightarrow>
        conn_inv c' (x # fl) (y # qi) qo A \<and> in_stream c' (y # qi) = in_stream c (y # qi) \<and>
        out_stream c' qo = out_stream c qo \<and> untouched A c c'"
  let ?c = "(upd_io (\<lambda>io. io\<lparr>io_in_head := Some y\<rparr>) c)\<lparr>cn_pool := p\<rparr>"
  have "bf_next (bp_base (cn_pool c) ! x) = int y"
    using conn_invD(2) [OF inv] by (simp add: queue_def)
  then show thesis
    by (intro that [OF p(1) refl]) (use p(2) [rule_format, of ?c] in \<open>auto simp: consumed_def only_in_def\<close>)
qed

lemma consumed_trans:
  "consumed A c c' qi qi' qo n \<Longrightarrow> consumed A c' c'' qi' qi'' qo m \<Longrightarrow> consumed A c c'' qi qi'' qo (n + m)"
  by (auto simp: consumed_def add.commute intro: untouched_trans only_in_trans)

lemma read_partial:
  assumes inv: "conn_inv c fl (q # qi) qo A" and k: "0 \<le> k" "k < bf_size (bp_base (cn_pool c) ! q)"
    and start: "0 \<le> start" "nat start + nat k \<le> length dst"
  shows "\<exists>c'. read_loop c q k dst start =
      ret (c', take (nat start) dst @ take (nat k) (in_stream c (q # qi)) @ drop (nat start + nat k) dst) \<and>
    conn_inv c' fl (q # qi) qo A \<and> consumed A c c' (q # qi) (q # qi) qo (nat k)"
proof -
  note I = conn_invD [OF inv]
  let ?b = "bp_base (cn_pool c) ! q"
  have D: "length (bf_data ?b) = buf_unit" "buf_get (cn_pool c) q = ret ?b" "sized ?b"
    "q < length (bp_base (cn_pool c))"
    using buf_data_in_use [OF inv, of q] by auto
  have len: "length (content ?b) = nat (bf_size ?b)"
    using D by (simp add: length_content)
  obtain keep d where sh: "mem_get (bf_data ?b) k (bf_size ?b - k) = ret keep" "mem_put (bf_data ?b) 0 keep = ret d"
    "length d = buf_unit" "content (?b\<lparr>bf_data := d, bf_size := bf_size ?b - k\<rparr>) = drop (nat k) (content ?b)"
    "sized (?b\<lparr>bf_data := d, bf_size := bf_size ?b - k\<rparr>)"
    using shift_buffer [OF D(3,1) k(1)] k(2) by auto
  let ?b' = "?b\<lparr>bf_data := d, bf_size := bf_size ?b - k\<rparr>"
  let ?c = "c\<lparr>cn_pool := (cn_pool c)\<lparr>bp_base := (bp_base (cn_pool c))[q := ?b']\<rparr>\<rparr>"
  have kl: "nat k < length (content ?b)"
    using k len by simp
  have g: "mem_get (bf_data ?b) 0 k = ret (take (nat k) (content ?b))"
    using k D by (auto simp: mem_get_def content_def sized_def min_absorb1 min_absorb2)
  have "conn_inv ?c fl (q # qi) qo A"
    by (rule conn_inv_upd [OF inv]) (use sh in auto)
  moreover have "consumed A c ?c (q # qi) (q # qi) qo (nat k)"
  proof -
    have "q \<notin> set qi" "q \<notin> set qo" "q \<notin> A" using I by auto
    moreover have "\<forall>y \<in> A. (bp_base (cn_pool c))[q := ?b'] ! y = bp_base (cn_pool c) ! y"
      using \<open>q \<notin> A\<close> by (metis nth_list_update_neq)
    ultimately show ?thesis
      using D(4) sh(4) kl by (simp add: consumed_def untouched_def only_in_def)
  qed
  moreover have "read_loop c q k dst start =
      ret (?c, take (nat start) dst @ take (nat k) (in_stream c (q # qi)) @ drop (nat start + nat k) dst)"
    using D k sh start kl g
    by (subst read_loop.simps) (simp add: Let_def mem_put_ok buf_upd_def)
  ultimately show ?thesis by blast
qed

lemma nat_min_split: "a \<le> k \<Longrightarrow> s + min k (a + r) \<le> d \<Longrightarrow> s + a + min (k - a) r \<le> (d :: nat)"
  by arith

lemma splice_twice:
  assumes "length a \<le> k" and "s + length a \<le> length d"
  shows "take (s + length a) (take s d @ a @ drop (s + length a) d) @ take (k - length a) r @
      drop (s + length a + length (take (k - length a) r)) (take s d @ a @ drop (s + length a) d) =
    take s d @ take k (a @ r) @ drop (s + length (take k (a @ r))) d"
proof -
  have s: "length (take s d) = s" using assms(2) by simp
  have "take k (a @ r) = a @ take (k - length a) r"
    using assms(1) by simp
  moreover have "take (s + length a) (take s d @ a @ drop (s + length a) d) = take s d @ a"
    using s by (simp add: min_def)
  moreover have "drop (s + length a + m) (take s d @ a @ drop (s + length a) d) = drop (s + length a + m) d" for m
    using s by (simp add: min_def add.commute)
  ultimately show ?thesis
    by (simp only: append_assoc length_append add.assoc)
qed

lemma read_loop_ok:
  assumes "conn_inv c fl (q # qi) qo A" and "fl \<noteq> []" and "0 \<le> k" and "0 \<le> start"
    and "nat start + min (nat k) (length (in_stream c (q # qi))) \<le> length dst"
  shows "\<exists>c' fl' qi'. read_loop c q k dst start =
      ret (c', take (nat start) dst @ take (nat k) (in_stream c (q # qi)) @
        drop (nat start + length (take (nat k) (in_stream c (q # qi)))) dst) \<and>
    conn_inv c' fl' qi' qo A \<and> length fl \<le> length fl' \<and> consumed A c c' (q # qi) qi' qo (nat k)"
  using assms
proof (induction qi arbitrary: c fl q k dst start)
  case Nil
  note inv = Nil.prems(1)
  let ?b = "bp_base (cn_pool c) ! q"
  have D: "length (bf_data ?b) = buf_unit" "buf_get (cn_pool c) q = ret ?b" "sized ?b"
    using buf_data_in_use [OF inv, of q] by auto
  have nx: "bf_next ?b < 0"
    using queue_ConsD(3) [OF conn_invD(2) [OF inv]] by simp
  have len: "length (content ?b) = nat (bf_size ?b)" "0 \<le> bf_size ?b"
    using D by (simp_all add: length_content sized_def)
  show ?case
  proof (cases "bf_size ?b \<le> k")
    case True
    obtain p c' where p: "free_buf (cn_pool c) q = ret p"
      "c' = (upd_io (\<lambda>io. io\<lparr>io_in_head := None, io_in_tail := None\<rparr>) c)\<lparr>cn_pool := p\<rparr>"
      "conn_inv c' (q # fl) [] qo A" "consumed A c c' [q] [] qo (length (content ?b))"
      by (rule dequeue_in_last [OF inv Nil.prems(2)])
    have "read_loop c q k dst start = ret (c', take (nat start) dst @ content ?b @ drop (nat start + length (content ?b)) dst)"
      using D nx p(1,2) True Nil.prems(4,5) len
      by (subst read_loop.simps) (simp add: Let_def mem_get_content mem_put_ok)
    moreover have "take (nat k) (content ?b) = content ?b"
      using True len by simp
    moreover have "consumed A c c' [q] [] qo (nat k)"
      using p(4) True len by (auto simp: consumed_def)
    ultimately show ?thesis using p(3) by fastforce
  next
    case False
    then have "k < bf_size ?b" by simp
    from read_partial [OF inv Nil.prems(3) this Nil.prems(4)] show ?thesis
      using Nil.prems False len by (fastforce simp: min_absorb1)
  qed
next
  case (Cons y qi)
  note inv = Cons.prems(1)
  let ?b = "bp_base (cn_pool c) ! q"
  have D: "length (bf_data ?b) = buf_unit" "buf_get (cn_pool c) q = ret ?b" "sized ?b"
    using buf_data_in_use [OF inv, of q] by auto
  have len: "length (content ?b) = nat (bf_size ?b)" "0 \<le> bf_size ?b"
    using D by (simp_all add: length_content sized_def)
  show ?case
  proof (cases "bf_size ?b \<le> k")
    case True
    obtain p c1 where p: "free_buf (cn_pool c) q = ret p"
      "c1 = (upd_io (\<lambda>io. io\<lparr>io_in_head := Some y\<rparr>) c)\<lparr>cn_pool := p\<rparr>"
      "conn_inv c1 (q # fl) (y # qi) qo A" "consumed A c c1 (q # y # qi) (y # qi) qo (length (content ?b))"
      "bf_next ?b = int y"
      by (rule dequeue_in_next [OF inv Cons.prems(2)])
    let ?k = "k - bf_size ?b" and ?s = "start + bf_size ?b"
      and ?dst = "take (nat start) dst @ content ?b @ drop (nat start + length (content ?b)) dst"
    have st: "in_stream c (q # y # qi) = content ?b @ in_stream c1 (y # qi)"
      using p(4) by (simp add: consumed_def)
    have nn: "nat ?k = nat k - length (content ?b)" "nat ?s = nat start + length (content ?b)"
      "length (content ?b) \<le> nat k"
      using True len Cons.prems(3,4) by auto
    have room: "nat start + length (content ?b) \<le> length dst"
      using Cons.prems(5) st nn(3) by auto
    have step: "read_loop c q k dst start = read_loop c1 y ?k ?dst ?s"
      using D p(1,2,5) True Cons.prems(4) len room
      by (subst read_loop.simps) (simp add: Let_def mem_get_content mem_put_ok)
    have "\<exists>c' fl' qi'. read_loop c1 y ?k ?dst ?s =
        ret (c', take (nat ?s) ?dst @ take (nat ?k) (in_stream c1 (y # qi)) @
          drop (nat ?s + length (take (nat ?k) (in_stream c1 (y # qi)))) ?dst) \<and>
      conn_inv c' fl' qi' qo A \<and> length (q # fl) \<le> length fl' \<and> consumed A c1 c' (y # qi) qi' qo (nat ?k)"
    proof (rule Cons.IH [OF p(3)])
      have "length ?dst = length dst" using room by simp
      moreover have "nat start + min (nat k) (length (content ?b) + length (in_stream c1 (y # qi))) \<le> length dst"
        using Cons.prems(5) unfolding st by simp
      ultimately show "nat ?s + min (nat ?k) (length (in_stream c1 (y # qi))) \<le> length ?dst"
        unfolding nn(1,2) using nn(3) nat_min_split by metis
    qed (use True Cons.prems(4) len in auto)
    then obtain c' fl' qi' where I: "read_loop c1 y ?k ?dst ?s =
        ret (c', take (nat ?s) ?dst @ take (nat ?k) (in_stream c1 (y # qi)) @
          drop (nat ?s + length (take (nat ?k) (in_stream c1 (y # qi)))) ?dst)"
      "conn_inv c' fl' qi' qo A" "length (q # fl) \<le> length fl'" "consumed A c1 c' (y # qi) qi' qo (nat ?k)"
      by blast
    have eq: "take (nat ?s) ?dst @ take (nat ?k) (in_stream c1 (y # qi)) @
          drop (nat ?s + length (take (nat ?k) (in_stream c1 (y # qi)))) ?dst =
      take (nat start) dst @ take (nat k) (in_stream c (q # y # qi)) @
        drop (nat start + length (take (nat k) (in_stream c (q # y # qi)))) dst"
      unfolding st nn(2,1) by (rule splice_twice [OF nn(3) room])
    have "consumed A c c' (q # y # qi) qi' qo (nat k)"
      using consumed_trans [OF p(4) I(4)] nn by simp
    moreover have "length fl \<le> length fl'" using I(3) by simp
    ultimately show ?thesis
      using step [unfolded I(1) eq] I(2) by blast
  next
    case False
    then have "k < bf_size ?b" by simp
    from read_partial [OF inv Cons.prems(3) this Cons.prems(4)] show ?thesis
      using Cons.prems False len by (fastforce simp: min_absorb1)
  qed
qed

section \<open>Receiving\<close>

lemma in_enqueue_ok:
  assumes inv: "conn_inv c (x # fl) qi qo A" and fl: "fl \<noteq> []"
  obtains c' where "in_enqueue c = ret (c', x)" and "conn_inv c' fl (qi @ [x]) qo A"
    and "in_stream c' (qi @ [x]) = in_stream c qi" and "out_stream c' qo = out_stream c qo"
    and "bf_size (bp_base (cn_pool c') ! x) = 0" and "untouched A c c'" and "only_in c c'"
proof -
  obtain p' where p': "alloc_buf (cn_pool c) = ret (p', x)" "x \<notin> set qi \<union> set qo \<union> A"
    "pool_inv p' fl (insert x (set qi \<union> set qo \<union> A))"
    "bp_base p' = (bp_base (cn_pool c))[x := (bp_base (cn_pool c) ! x)\<lparr>bf_size := 0, bf_next := -1\<rparr>]"
    "x < length (bp_base (cn_pool c))"
    and Q: "queue (bp_base p') (io_in_head (cn_io c)) (io_in_tail (cn_io c)) qi"
    "queue (bp_base p') (io_out_head (cn_io c)) (io_out_tail (cn_io c)) qo"
    and S: "stream (bp_base p') qi = in_stream c qi" "stream (bp_base p') qo = out_stream c qo"
    and b: "bf_next (bp_base p' ! x) = -1" "bf_size (bp_base p' ! x) = 0"
    and u: "\<forall>y \<in> A. bp_base p' ! y = bp_base (cn_pool c) ! y"
    by (rule conn_alloc [OF inv fl])
  note I = conn_invD [OF inv]
  have xl: "x < length (bp_base p')" using p'(4,5) by simp
  have set: "insert x (set qi \<union> set qo \<union> A) = set (qi @ [x]) \<union> set qo \<union> A" by auto
  show thesis
  proof (cases "qi = []")
    case True
    let ?c = "(upd_io (\<lambda>io. io\<lparr>io_in_tail := Some x, io_in_head := Some x\<rparr>) c)\<lparr>cn_pool := p'\<rparr>"
    have "in_enqueue c = ret (?c, x)"
      using p'(1) True I(2) by (simp add: in_enqueue_def queue_empty)
    moreover have "conn_inv ?c fl (qi @ [x]) qo A"
      using True Q(2) I p'(2,3) set queue_snoc(1) [OF Q(1) I(4) _ xl] b by (simp add: conn_inv_def)
    moreover have "in_stream ?c (qi @ [x]) = in_stream c qi" "out_stream ?c qo = out_stream c qo"
      "bf_size (bp_base (cn_pool ?c) ! x) = 0" "untouched A c ?c" "only_in c ?c"
      using S b True u p'(4) by (simp_all add: content_def untouched_def only_in_def)
    ultimately show ?thesis by (rule that)
  next
    case False
    let ?t = "last qi"
    let ?bs = "(bp_base p')[?t := (bp_base p' ! ?t)\<lparr>bf_next := int x\<rparr>]"
    let ?c = "(upd_io (\<lambda>io. io\<lparr>io_in_tail := Some x\<rparr>) c)\<lparr>cn_pool := p'\<lparr>bp_base := ?bs\<rparr>\<rparr>"
    have "?t \<in> set qi" using False by simp
    then have t: "?t \<in> set qi" "?t \<notin> set qo" "?t \<notin> A" "?t \<noteq> x"
      using I(6,7) p'(2) by blast+
    then have tl: "?t < length (bp_base p')" "length (bf_data (bp_base p' ! ?t)) = buf_unit"
      using pool_inv_in_use [OF p'(3), of ?t] by auto
    have hd: "io_in_tail (cn_io c) = Some ?t"
      using queue_tail [OF I(2)] False by simp
    have "in_enqueue c = ret (?c, x)"
      using p'(1) hd tl by (auto simp: in_enqueue_def buf_upd_def upd_io_def)
    moreover have "conn_inv ?c fl (qi @ [x]) qo A"
      using Q(2) I p'(2) set queue_snoc(2) [OF Q(1) I(4) _ xl _ _ False] b t
        pool_inv_upd [OF p'(3), of ?t "(bp_base p' ! ?t)\<lparr>bf_next := int x\<rparr>"] tl
      by (simp add: conn_inv_def)
    moreover have "in_stream ?c (qi @ [x]) = in_stream c qi"
      using queue_snoc(3) [OF Q(1) I(4) _ xl _ _ False] S(1) b p'(2) by simp
    moreover have "out_stream ?c qo = out_stream c qo"
      using S(2) t(2) by simp
    moreover have "untouched A c ?c"
      using u t(3) p'(4) by (auto simp: untouched_def) (metis nth_list_update_neq)
    moreover have "bf_size (bp_base (cn_pool ?c) ! x) = 0" "only_in c ?c"
      using b t(4) by (simp_all add: only_in_def)
    ultimately show ?thesis using that [of ?c] by blast
  qed
qed

text \<open>
  \<open>data[ct] = 0\<close> is within the array, or it writes the low byte of the size 512 = 256 * 2, which
  is 0 already.
\<close>

lemma poke_terminator:
  assumes "sized b" and "length (bf_data b) = buf_unit"
  obtains d where "poke_data (bf_size b) 0 b = ret (b\<lparr>bf_data := d\<rparr>)" and "length d = buf_unit"
    and "content (b\<lparr>bf_data := d\<rparr>) = content b" and "sized (b\<lparr>bf_data := d\<rparr>)"
    and "takeWhile (\<lambda>x. x \<noteq> 0) d = takeWhile (\<lambda>x. x \<noteq> 0) (content b)"
proof (cases "nat (bf_size b) < buf_unit")
  case True
  let ?d = "(bf_data b)[nat (bf_size b) := 0]"
  have "?d = content b @ 0 # drop (Suc (nat (bf_size b))) (bf_data b)"
    using True assms by (simp add: content_def upd_conv_take_nth_drop)
  then have "takeWhile (\<lambda>x. x \<noteq> 0) ?d = takeWhile (\<lambda>x. x \<noteq> 0) (content b)"
    by (simp add: takeWhile_tail)
  then show thesis
    using True assms by (intro that [of ?d]) (auto simp: poke_data_def content_def sized_def)
next
  case False
  then have "bf_size b = int buf_unit" using assms(1) by (auto simp: sized_def)
  then show thesis
    using assms by (intro that [of "bf_data b"]) (auto simp: poke_data_def content_def sized_def buf_unit_def zero_cchar_def)
qed

text \<open>\<open>received A c c' qi qi' qo bs\<close>: the bytes \<open>bs\<close> went to the end of the input stream.\<close>

definition received :: "nat set \<Rightarrow> conn \<Rightarrow> conn \<Rightarrow> nat list \<Rightarrow> nat list \<Rightarrow> nat list \<Rightarrow> cchar list \<Rightarrow> bool" where
  "received A c c' qi qi' qo bs \<longleftrightarrow>
     in_stream c' qi' = in_stream c qi @ bs \<and> out_stream c' qo = out_stream c qo \<and> untouched A c c' \<and>
     only_in (upd_io (\<lambda>io. io\<lparr>io_in_len := io_in_len io + int (length bs)\<rparr>) c) c'"

lemma only_in_len:
  "only_in c c1 \<Longrightarrow> only_in (upd_io (\<lambda>io. io\<lparr>io_in_len := io_in_len io + n\<rparr>) c)
     (upd_io (\<lambda>io. io\<lparr>io_in_len := io_in_len io + n\<rparr>) c1)"
  by (cases "cn_io c"; cases "cn_io c1"; simp add: only_in_def)

lemma buf_upd_conn:
  assumes inv: "conn_inv c fl (qi @ [x]) qo A"
    and b: "sized b" "length (bf_data b) = buf_unit" "bf_next b = bf_next (bp_base (cn_pool c) ! x)"
  shows "buf_upd (cn_pool c) x (\<lambda>_. b) = ret ((cn_pool c)\<lparr>bp_base := (bp_base (cn_pool c))[x := b]\<rparr>)"
    and "conn_inv (c\<lparr>cn_pool := (cn_pool c)\<lparr>bp_base := (bp_base (cn_pool c))[x := b]\<rparr>\<rparr>) fl (qi @ [x]) qo A"
    and "\<forall>y \<in> A. (bp_base (cn_pool c))[x := b] ! y = bp_base (cn_pool c) ! y"
    and "stream ((bp_base (cn_pool c))[x := b]) qi = in_stream c qi"
    and "stream ((bp_base (cn_pool c))[x := b]) qo = out_stream c qo"
proof -
  note I = conn_invD [OF inv]
  have x: "x \<notin> set qi" "x \<notin> set qo" "x \<notin> A" "x < length (bp_base (cn_pool c))"
    using I buf_data_in_use(2) [OF inv, of x] by auto
  then show "buf_upd (cn_pool c) x (\<lambda>_. b) = ret ((cn_pool c)\<lparr>bp_base := (bp_base (cn_pool c))[x := b]\<rparr>)"
    "stream ((bp_base (cn_pool c))[x := b]) qi = in_stream c qi"
    "stream ((bp_base (cn_pool c))[x := b]) qo = out_stream c qo"
    by (simp_all add: buf_upd_def)
  show "conn_inv (c\<lparr>cn_pool := (cn_pool c)\<lparr>bp_base := (bp_base (cn_pool c))[x := b]\<rparr>\<rparr>) fl (qi @ [x]) qo A"
    by (rule conn_inv_upd [OF inv _ b]) simp
  show "\<forall>y \<in> A. (bp_base (cn_pool c))[x := b] ! y = bp_base (cn_pool c) ! y"
    using x(3) by (metis nth_list_update_neq)
qed

lemma append_recv_data_ok:
  assumes inv: "conn_inv c (x # fl) qi qo A" and fl: "fl \<noteq> []" and bs: "length bs \<le> buf_unit"
  obtains c' where "append_recv_data c (Some bs) = ret (c', int (length bs))"
    and "conn_inv c' fl (qi @ [x]) qo A" and "received A c c' qi (qi @ [x]) qo bs"
proof -
  obtain c1 where c1: "in_enqueue c = ret (c1, x)" "conn_inv c1 fl (qi @ [x]) qo A"
    "in_stream c1 (qi @ [x]) = in_stream c qi" "out_stream c1 qo = out_stream c qo"
    "bf_size (bp_base (cn_pool c1) ! x) = 0" "untouched A c c1" "only_in c c1"
    by (rule in_enqueue_ok [OF inv fl])
  let ?b = "bp_base (cn_pool c1) ! x"
  have D: "length (bf_data ?b) = buf_unit" "x < length (bp_base (cn_pool c1))"
    using buf_data_in_use [OF c1(2), of x] by auto
  let ?b1 = "?b\<lparr>bf_data := bs @ drop (length bs) (bf_data ?b)\<rparr>"
  let ?b2 = "?b1\<lparr>bf_size := int (length bs)\<rparr>"
  have b1: "sized ?b1" "length (bf_data ?b1) = buf_unit" "bf_next ?b1 = bf_next ?b" "content ?b1 = []"
    using c1(5) D bs by (auto simp: sized_def content_def)
  have b2: "sized ?b2" "length (bf_data ?b2) = buf_unit" "bf_size ?b2 = int (length bs)" "content ?b2 = bs"
    using D bs by (auto simp: sized_def content_def)
  have in1: "in_stream c1 qi = in_stream c qi"
    using c1(3,5) by (simp add: content_def)
  show thesis
  proof (cases "bs = []")
    case True
    then have "?b1 = ?b" by simp
    then have "append_recv_data c (Some bs) = ret (c1, int (length bs))"
      using c1(1) D True by (simp add: append_recv_data_def buf_upd_run_def buf_get_def buf_upd_def mem_put_def)
    moreover have "received A c c1 qi (qi @ [x]) qo bs"
      using c1 True by (simp add: received_def only_in_def)
    ultimately show ?thesis using that c1(2) by blast
  next
    case False
    obtain d where d: "poke_data (bf_size ?b2) 0 ?b2 = ret (?b2\<lparr>bf_data := d\<rparr>)" "length d = buf_unit"
      "content (?b2\<lparr>bf_data := d\<rparr>) = content ?b2" "sized (?b2\<lparr>bf_data := d\<rparr>)"
      by (rule poke_terminator [OF b2(1,2)])
    let ?b3 = "?b2\<lparr>bf_data := d\<rparr>"
    let ?p = "(cn_pool c1)\<lparr>bp_base := (bp_base (cn_pool c1))[x := ?b3]\<rparr>"
    note U = buf_upd_conn [OF c1(2), of ?b3]
    define c' where "c' = (upd_io (\<lambda>io. io\<lparr>io_in_len := io_in_len io + int (length bs)\<rparr>) c1)\<lparr>cn_pool := ?p\<rparr>"
    have run: "append_recv_data c (Some bs) = ret (c', int (length bs))"
      using c1(1) D False d(1) bs
      by (simp add: append_recv_data_def buf_upd_run_def buf_get_def buf_upd_def mem_put_def c'_def Let_def)
    have "conn_inv (c1\<lparr>cn_pool := ?p\<rparr>) fl (qi @ [x]) qo A"
      by (rule U(2)) (use d in auto)
    then have inv': "conn_inv c' fl (qi @ [x]) qo A"
      by (simp add: c'_def conn_inv_def)
    have "stream (bp_base ?p) (qi @ [x]) = in_stream c qi @ bs"
      using U(4) d b2(4) D in1 by simp
    moreover have "stream (bp_base ?p) qo = out_stream c qo"
      using U(5) d c1(4) by simp
    moreover have "untouched A c c'"
      using c1(6) U(3) d by (auto simp: untouched_def c'_def)
    ultimately have "received A c c' qi (qi @ [x]) qo bs"
      using only_in_len [OF c1(7)] by (simp add: received_def c'_def only_in_def)
    with run inv' show ?thesis by (rule that)
  qed
qed

lemma append_recv_data_fails:
  assumes inv: "conn_inv c (x # fl) qi qo A" and fl: "fl \<noteq> []"
  obtains c' where "append_recv_data c None = ret (c', -1)"
    and "conn_inv c' fl (qi @ [x]) qo A" and "received A c c' qi (qi @ [x]) qo []"
proof (rule in_enqueue_ok [OF inv fl])
  fix c1 assume c1: "in_enqueue c = ret (c1, x)" "conn_inv c1 fl (qi @ [x]) qo A"
    "in_stream c1 (qi @ [x]) = in_stream c qi" "out_stream c1 qo = out_stream c qo" "untouched A c c1" "only_in c c1"
  show thesis
    by (rule that [OF _ c1(2)]) (use c1 in \<open>auto simp: append_recv_data_def received_def only_in_def\<close>)
qed

lemma append_recv_data_exhausted:
  assumes "conn_inv c fl qi qo A" and "length fl \<le> 1"
  shows "append_recv_data c got = abort_with Assert_failed"
  using conn_alloc_last [OF assms] by (auto simp: append_recv_data_def in_enqueue_def split: option.split)

section \<open>Finding the header\<close>

lemma takeWhile_cut:
  "\<forall>c \<in> set pre. c \<noteq> newline \<and> c \<noteq> 0 \<Longrightarrow>
   takeWhile (\<lambda>c. c \<noteq> newline) (takeWhile (\<lambda>c. c \<noteq> 0) (pre @ newline # rest)) = pre"
  "\<forall>c \<in> set pre. c \<noteq> newline \<and> c \<noteq> 0 \<Longrightarrow>
   length pre < length (takeWhile (\<lambda>c. c \<noteq> 0) (pre @ newline # rest))"
  by (induction pre) (auto simp: newline_def)

lemma find_newline_content:
  assumes "takeWhile (\<lambda>x. x \<noteq> 0) (bf_data b) = takeWhile (\<lambda>x. x \<noteq> 0) s"
  shows "\<lbrakk>s = pre @ newline # rest; \<forall>c \<in> set pre. c \<noteq> newline \<and> c \<noteq> 0\<rbrakk> \<Longrightarrow> find_newline b = Some (length pre)"
    and "newline \<notin> set s \<Longrightarrow> find_newline b = None"
proof -
  assume s: "s = pre @ newline # rest" "\<forall>c \<in> set pre. c \<noteq> newline \<and> c \<noteq> 0"
  show "find_newline b = Some (length pre)"
    using takeWhile_cut [OF s(2), of rest] assms by (simp add: find_newline_def Let_def s(1))
next
  assume n: "newline \<notin> set s"
  let ?s = "takeWhile (\<lambda>x. x \<noteq> 0) s"
  have tw: "takeWhile (\<lambda>c. c \<noteq> newline) ?s = ?s"
    using n by (auto simp: takeWhile_eq_all_conv dest: set_takeWhileD)
  show "find_newline b = None"
    using assms by (simp add: find_newline_def Let_def tw)
qed

lemma find_newline_first:
  assumes "takeWhile (\<lambda>x. x \<noteq> 0) (bf_data b) = takeWhile (\<lambda>x. x \<noteq> 0) s" and "newline \<in> set s"
    and "0 \<notin> set (takeWhile (\<lambda>c. c \<noteq> newline) s)"
  shows "find_newline b = Some (length (takeWhile (\<lambda>c. c \<noteq> newline) s))"
proof -
  obtain pre rest where r: "s = pre @ newline # rest" "newline \<notin> set pre"
    using assms(2) by (meson split_list_first)
  then have "takeWhile (\<lambda>c. c \<noteq> newline) s = pre"
    by (auto simp: takeWhile_tail takeWhile_eq_all_conv)
  then show ?thesis
    using find_newline_content(1) [OF assms(1) r(1)] r(2) assms(3) by auto
qed

text \<open>The pool's buffers hold what they held, up to the terminators.\<close>

definition same_content :: "pool \<Rightarrow> pool \<Rightarrow> bool" where
  "same_content p p' \<longleftrightarrow> length (bp_base p') = length (bp_base p) \<and> bp_head p' = bp_head p \<and>
     (\<forall>y < length (bp_base p). content (bp_base p' ! y) = content (bp_base p ! y) \<and>
        bf_size (bp_base p' ! y) = bf_size (bp_base p ! y) \<and> bf_next (bp_base p' ! y) = bf_next (bp_base p ! y) \<and>
        length (bf_data (bp_base p' ! y)) = length (bf_data (bp_base p ! y)))"

lemma same_content_refl [simp]: "same_content p p"
  by (simp add: same_content_def)

lemma same_content_trans: "same_content p p' \<Longrightarrow> same_content p' p'' \<Longrightarrow> same_content p p''"
  by (simp add: same_content_def)

lemma same_content_upd:
  assumes "x < length (bp_base p)" and "content (b\<lparr>bf_data := d\<rparr>) = content b" and "length d = length (bf_data b)"
    and "b = bp_base p ! x"
  shows "same_content p (p\<lparr>bp_base := (bp_base p)[x := b\<lparr>bf_data := d\<rparr>]\<rparr>)"
  using assms by (auto simp: same_content_def nth_list_update)

definition same_links :: "pool \<Rightarrow> pool \<Rightarrow> nat set \<Rightarrow> bool" where
  "same_links p p' X \<longleftrightarrow> same_content p p' \<and> (\<forall>y. y \<notin> X \<longrightarrow> bp_base p' ! y = bp_base p ! y)"

lemma same_content_queue:
  assumes "same_content p p'" and "queue (bp_base p) h t xs"
  shows "queue (bp_base p') h t xs" and "stream (bp_base p') xs = stream (bp_base p) xs"
proof -
  have x: "y < length (bp_base p)" if "y \<in> set xs" for y
    using assms(2) that chain_in [of "bp_base p" "link h" xs] by (auto simp: queue_def)
  have "chain (bp_base p') (link h) xs = chain (bp_base p) (link h) xs"
    by (rule chain_next_agree) (use assms(1) x in \<open>auto simp: same_content_def\<close>)
  then show "queue (bp_base p') h t xs"
    using assms x by (auto simp: queue_def same_content_def sized_def)
  show "stream (bp_base p') xs = stream (bp_base p) xs"
    by (rule stream_agree) (use assms(1) x in \<open>auto simp: same_content_def\<close>)
qed

lemma conn_inv_same:
  assumes inv: "conn_inv c fl qi qo A" and s: "same_content (cn_pool c) p"
  shows "conn_inv (c\<lparr>cn_pool := p\<rparr>) fl qi qo A"
proof -
  note I = conn_invD [OF inv]
  have "set fl \<subseteq> {..<length (bp_base (cn_pool c))}" using I(1) by (auto simp: pool_inv_def)
  then have "chain (bp_base p) (bp_head (cn_pool c)) fl = chain (bp_base (cn_pool c)) (bp_head (cn_pool c)) fl"
    by (intro chain_next_agree) (use s in \<open>auto simp: same_content_def\<close>)
  moreover have "length (bf_data (bp_base (cn_pool c) ! i)) = buf_unit" if "i < length (bp_base (cn_pool c))" for i
    using I(1) that nth_mem by (auto simp: pool_inv_def)
  then have "\<forall>b \<in> set (bp_base p). length (bf_data b) = buf_unit"
    using s by (auto simp: same_content_def in_set_conv_nth)
  ultimately have "pool_inv p fl (set qi \<union> set qo \<union> A)"
    using I(1) s by (auto simp: pool_inv_def same_content_def)
  then show ?thesis
    using I same_content_queue [OF s I(2)] same_content_queue [OF s I(3)] by (simp add: conn_inv_def)
qed

lemma header_step:
  assumes inv: "conn_inv c fl qi qo A" and q: "q \<in> set qi"
  obtains d p where "buf_get (cn_pool c) q = ret (bp_base (cn_pool c) ! q)"
    and "poke_data (bf_size (bp_base (cn_pool c) ! q)) 0 (bp_base (cn_pool c) ! q) =
        ret ((bp_base (cn_pool c) ! q)\<lparr>bf_data := d\<rparr>)"
    and "takeWhile (\<lambda>x. x \<noteq> 0) d = takeWhile (\<lambda>x. x \<noteq> 0) (content (bp_base (cn_pool c) ! q))"
    and "buf_upd (cn_pool c) q (\<lambda>_. (bp_base (cn_pool c) ! q)\<lparr>bf_data := d\<rparr>) = ret p"
    and "same_links (cn_pool c) p (set qi)" and "conn_inv (c\<lparr>cn_pool := p\<rparr>) fl qi qo A"
proof -
  let ?b = "bp_base (cn_pool c) ! q"
  have D: "length (bf_data ?b) = buf_unit" "buf_get (cn_pool c) q = ret ?b" "sized ?b"
    "q < length (bp_base (cn_pool c))"
    using buf_data_in_use [OF inv, of q] q by auto
  obtain d where d: "poke_data (bf_size ?b) 0 ?b = ret (?b\<lparr>bf_data := d\<rparr>)" "length d = buf_unit"
      "content (?b\<lparr>bf_data := d\<rparr>) = content ?b" "sized (?b\<lparr>bf_data := d\<rparr>)"
      "takeWhile (\<lambda>x. x \<noteq> 0) d = takeWhile (\<lambda>x. x \<noteq> 0) (content ?b)"
    by (rule poke_terminator [OF D(3,1)])
  let ?p = "(cn_pool c)\<lparr>bp_base := (bp_base (cn_pool c))[q := ?b\<lparr>bf_data := d\<rparr>]\<rparr>"
  have s: "same_content (cn_pool c) ?p"
    by (rule same_content_upd) (use D d in auto)
  have "\<forall>y. y \<notin> set qi \<longrightarrow> (bp_base (cn_pool c))[q := ?b\<lparr>bf_data := d\<rparr>] ! y = bp_base (cn_pool c) ! y"
    using q by (metis nth_list_update_neq)
  then have "same_links (cn_pool c) ?p (set qi)"
    using s by (simp add: same_links_def)
  then show thesis
    using that [OF D(2) d(1,5) _ _ conn_inv_same [OF inv s]] D(4) by (simp add: buf_upd_def)
qed

lemma same_links_trans: "same_links p p' X \<Longrightarrow> same_links p' p'' X \<Longrightarrow> same_links p p'' X"
  by (auto simp: same_links_def intro: same_content_trans)

lemma chain_link_inside:
  "chain bs h (ys @ q # xs) \<Longrightarrow> bf_next (bs ! q) = (case xs of [] \<Rightarrow> bf_next (bs ! q) | y # _ \<Rightarrow> int y) \<and>
   (xs = [] \<longrightarrow> bf_next (bs ! q) < 0)"
  by (induction ys arbitrary: h) (auto split: list.split)

lemma queue_chain: "queue bs h t xs \<Longrightarrow> chain bs (link h) xs"
  by (simp add: queue_def)

lemma header_loop_ok:
  assumes "conn_inv c fl (ys @ q # xs) qo A"
    and "0 \<notin> set (takeWhile (\<lambda>c. c \<noteq> newline) (in_stream c (q # xs)))"
  shows "\<exists>p. header_loop (cn_pool c) q n =
      ret (p, if newline \<in> set (in_stream c (q # xs))
              then Some (n + int (length (takeWhile (\<lambda>c. c \<noteq> newline) (in_stream c (q # xs))))) else None) \<and>
    same_links (cn_pool c) p (set (ys @ q # xs))"
  using assms
proof (induction xs arbitrary: c ys q n)
  case Nil
  note inv = Nil.prems(1)
  let ?b = "bp_base (cn_pool c) ! q"
  obtain d p where d: "buf_get (cn_pool c) q = ret ?b"
    "poke_data (bf_size ?b) 0 ?b = ret (?b\<lparr>bf_data := d\<rparr>)"
    "takeWhile (\<lambda>x. x \<noteq> 0) d = takeWhile (\<lambda>x. x \<noteq> 0) (content ?b)"
    "buf_upd (cn_pool c) q (\<lambda>_. ?b\<lparr>bf_data := d\<rparr>) = ret p"
    "same_links (cn_pool c) p (set (ys @ [q]))" "conn_inv (c\<lparr>cn_pool := p\<rparr>) fl (ys @ [q]) qo A"
    by (rule header_step [OF inv, of q]) auto
  show ?case
  proof (cases "newline \<in> set (content ?b)")
    case True
    have "find_newline (?b\<lparr>bf_data := d\<rparr>) = Some (length (takeWhile (\<lambda>c. c \<noteq> newline) (content ?b)))"
      by (rule find_newline_first [OF _ True]) (use d(3) Nil.prems(2) in auto)
    then show ?thesis
      using True d by (subst header_loop.simps) auto
  next
    case False
    have "find_newline (?b\<lparr>bf_data := d\<rparr>) = None"
      by (rule find_newline_content(2) [OF _ False]) (use d(3) in auto)
    moreover have "bf_next ?b < 0"
      using chain_link_inside [OF queue_chain [OF conn_invD(2) [OF inv]]] by simp
    ultimately show ?thesis
      using False d by (subst header_loop.simps) auto
  qed
next
  case (Cons y xs)
  note inv = Cons.prems(1)
  let ?b = "bp_base (cn_pool c) ! q"
  let ?rest = "in_stream c (y # xs)"
  obtain d p where d: "buf_get (cn_pool c) q = ret ?b"
    "poke_data (bf_size ?b) 0 ?b = ret (?b\<lparr>bf_data := d\<rparr>)"
    "takeWhile (\<lambda>x. x \<noteq> 0) d = takeWhile (\<lambda>x. x \<noteq> 0) (content ?b)"
    "buf_upd (cn_pool c) q (\<lambda>_. ?b\<lparr>bf_data := d\<rparr>) = ret p"
    "same_links (cn_pool c) p (set (ys @ q # y # xs))" "conn_inv (c\<lparr>cn_pool := p\<rparr>) fl (ys @ q # y # xs) qo A"
    by (rule header_step [OF inv, of q]) auto
  have st: "in_stream c (q # y # xs) = content ?b @ ?rest" by simp
  show ?case
  proof (cases "newline \<in> set (content ?b)")
    case True
    then have tw: "takeWhile (\<lambda>c. c \<noteq> newline) (content ?b @ ?rest) = takeWhile (\<lambda>c. c \<noteq> newline) (content ?b)"
      by (metis (mono_tags, lifting) takeWhile_append1)
    have "find_newline (?b\<lparr>bf_data := d\<rparr>) = Some (length (takeWhile (\<lambda>c. c \<noteq> newline) (content ?b)))"
      by (rule find_newline_first [OF _ True]) (use d(3) Cons.prems(2) tw in auto)
    then have "header_loop (cn_pool c) q n = ret (p, Some (n + int (length (takeWhile (\<lambda>c. c \<noteq> newline) (content ?b)))))"
      using d(1,2,4) by (subst header_loop.simps) simp
    then show ?thesis
      using True d(5) tw unfolding st by simp
  next
    case False
    have tw: "takeWhile (\<lambda>c. c \<noteq> newline) (content ?b @ ?rest) = content ?b @ takeWhile (\<lambda>c. c \<noteq> newline) ?rest"
      using False by (intro takeWhile_append2) auto
    have f: "find_newline (?b\<lparr>bf_data := d\<rparr>) = None"
      by (rule find_newline_content(2) [OF _ False]) (use d(3) in auto)
    have nx: "bf_next ?b = int y"
      using chain_link_inside [OF queue_chain [OF conn_invD(2) [OF inv]]] by simp
    have len: "int (length (content ?b)) = bf_size ?b"
      using buf_data_in_use(1,4) [OF inv, of q] by (simp add: length_content sized_def)
    let ?c = "c\<lparr>cn_pool := p\<rparr>"
    have same: "in_stream ?c (q # y # xs) = in_stream c (q # y # xs)" "stream (bp_base p) (y # xs) = ?rest"
    proof -
      have sc: "content (bp_base p ! z) = content (bp_base (cn_pool c) ! z)" if "z \<in> set (ys @ q # y # xs)" for z
        using d(5) buf_data_in_use(2) [OF inv, of z] that by (auto simp: same_links_def same_content_def)
      show "stream (bp_base p) (y # xs) = ?rest" "in_stream ?c (q # y # xs) = in_stream c (q # y # xs)"
        by (rule stream_agree; use sc in auto)+
    qed
    have step: "header_loop (cn_pool c) q n = header_loop p y (n + bf_size ?b)"
      using d(1,2,4) f nx by (subst header_loop.simps) simp
    have "0 \<notin> set (takeWhile (\<lambda>c. c \<noteq> newline) (in_stream ?c (y # xs)))"
      using Cons.prems(2) tw same(2) unfolding st by simp
    from Cons.IH [of ?c "ys @ [q]" y, OF _ this] d(6) obtain p' where
      "header_loop p y (n + bf_size ?b) = ret (p', if newline \<in> set ?rest
              then Some (n + bf_size ?b + int (length (takeWhile (\<lambda>c. c \<noteq> newline) ?rest))) else None)"
      "same_links p p' (set (ys @ q # y # xs))"
      using same(2) by (auto simp del: stream_simps cong: if_cong)
    then show ?thesis
      unfolding step st tw using False len same_links_trans [OF d(5)] by (auto simp del: stream_simps)
  qed
qed

lemma has_header_ok:
  assumes inv: "conn_inv c fl qi qo A" and z: "0 \<notin> set (takeWhile (\<lambda>c. c \<noteq> newline) (in_stream c qi))"
    and h: "io_header_len (cn_io c) = 0"
  obtains c' where "has_header c = ret (c', newline \<in> set (in_stream c qi))" and "conn_inv c' fl qi qo A"
    and "in_stream c' qi = in_stream c qi" and "out_stream c' qo = out_stream c qo" and "untouched A c c'"
    and "cn_io c' = (cn_io c)\<lparr>io_header_len :=
      (if newline \<in> set (in_stream c qi) then int (length (takeWhile (\<lambda>c. c \<noteq> newline) (in_stream c qi)) - 1) else 0)\<rparr>"
proof (cases qi)
  case Nil
  then have "has_header c = ret (c, False)"
    using queue_head [OF conn_invD(2) [OF inv]] by (simp add: has_header_def)
  then show thesis using that [of c] Nil inv h by simp
next
  case (Cons q xs)
  have hd: "io_in_head (cn_io c) = Some q"
    using queue_head [OF conn_invD(2) [OF inv]] Cons by simp
  let ?s = "in_stream c qi" and ?n = "length (takeWhile (\<lambda>c. c \<noteq> newline) (in_stream c qi))"
  obtain p where p: "header_loop (cn_pool c) q 0 = ret (p, if newline \<in> set ?s then Some (int ?n) else None)"
    "same_links (cn_pool c) p (set qi)"
    using header_loop_ok [of c fl "[]" q xs qo A 0] inv z unfolding Cons by auto
  then have sc: "same_content (cn_pool c) p" by (simp add: same_links_def)
  define c' where "c' = upd_io (\<lambda>io. io\<lparr>io_header_len := (if newline \<in> set ?s then int (?n - 1) else 0)\<rparr>) (c\<lparr>cn_pool := p\<rparr>)"
  have "has_header c = ret (c', newline \<in> set ?s)"
  proof (cases "newline \<in> set ?s \<and> ?n \<noteq> 0")
    case True
    then obtain m where n: "?n = Suc m" using not0_implies_Suc by blast
    have "header_loop (cn_pool c) q 0 = ret (p, Some (int (Suc m)))"
      using p(1) True n by simp
    moreover have "c' = upd_io (\<lambda>io. io\<lparr>io_header_len := int m\<rparr>) (c\<lparr>cn_pool := p\<rparr>)"
      using True n by (simp add: c'_def)
    ultimately show ?thesis
      using True hd h by (simp add: has_header_def Let_def)
  next
    case False
    then have "c' = c\<lparr>cn_pool := p\<rparr>"
      using h by (auto simp: c'_def upd_io_def)
    moreover have "newline \<in> set ?s \<longrightarrow> ?n = 0" using False by simp
    ultimately show ?thesis
      using hd h p(1) by (simp add: has_header_def Let_def)
  qed
  moreover have "conn_inv c' fl qi qo A"
    using conn_inv_same [OF inv sc] by (simp add: conn_inv_def c'_def)
  moreover have "in_stream c' qi = ?s" "out_stream c' qo = out_stream c qo"
    using same_content_queue(2) [OF sc conn_invD(2) [OF inv]] same_content_queue(2) [OF sc conn_invD(3) [OF inv]]
    by (simp_all add: c'_def)
  moreover have "untouched A c c'"
    using p(2) conn_invD(7) [OF inv] sc by (auto simp: untouched_def c'_def same_links_def same_content_def)
  ultimately show thesis
    by (rule that) (simp add: c'_def)
qed

section \<open>Reading a request\<close>

lemma copy_header_ok:
  assumes "conn_inv c fl (ys @ q # xs) qo A" and "0 \<le> start"
  shows "\<exists>m. m \<le> length (in_stream c (q # xs)) \<and>
    (header_len \<le> start + int (length (in_stream c (q # xs))) \<longrightarrow> header_len \<le> start + int m) \<and>
    start + int m \<le> max header_len start + int buf_unit \<and>
    copy_header (cn_pool c) q header_len msg start =
      (if nat start + m \<le> length msg
       then ret (take (nat start) msg @ take m (in_stream c (q # xs)) @ drop (nat start + m) msg, start + int m)
       else abort_with Undefined)"
  using assms
proof (induction xs arbitrary: ys q msg start)
  case Nil
  note inv = Nil.prems(1)
  let ?b = "bp_base (cn_pool c) ! q"
  have D: "length (bf_data ?b) = buf_unit" "buf_get (cn_pool c) q = ret ?b" "sized ?b"
    using buf_data_in_use [OF inv, of q] by auto
  have len: "int (length (content ?b)) = bf_size ?b" "bf_size ?b \<le> int buf_unit"
    using D by (simp_all add: length_content sized_def)
  have nx: "bf_next ?b < 0"
    using chain_link_inside [OF queue_chain [OF conn_invD(2) [OF inv]]] by simp
  show ?case
    by (rule exI [of _ "length (content ?b)"])
      (use len nx D Nil.prems(2) in \<open>subst copy_header.simps; auto simp: mem_get_content mem_put_def Let_def\<close>)
next
  case (Cons y xs)
  note inv = Cons.prems(1)
  let ?b = "bp_base (cn_pool c) ! q" and ?r = "in_stream c (y # xs)"
  have D: "length (bf_data ?b) = buf_unit" "buf_get (cn_pool c) q = ret ?b" "sized ?b"
    using buf_data_in_use [OF inv, of q] by auto
  have len: "int (length (content ?b)) = bf_size ?b" "bf_size ?b \<le> int buf_unit" "0 \<le> bf_size ?b"
    using D by (simp_all add: length_content sized_def)
  have nx: "bf_next ?b = int y"
    using chain_link_inside [OF queue_chain [OF conn_invD(2) [OF inv]]] by simp
  have st: "in_stream c (q # y # xs) = content ?b @ ?r" by simp
  show ?case
  proof (cases "header_len \<le> start + bf_size ?b \<or> length msg < nat start + length (content ?b)")
    case True
    show ?thesis
    proof (cases "header_len \<le> start + bf_size ?b")
      case True
      then show ?thesis
        by (intro exI [of _ "length (content ?b)"])
          (use len D Cons.prems(2) in \<open>subst copy_header.simps; auto simp: mem_get_content mem_put_def Let_def\<close>)
    next
      case f: False
      have u: "copy_header (cn_pool c) q header_len msg start = abort_with Undefined"
        using True f D by (subst copy_header.simps) (auto simp: mem_get_content mem_put_def)
      obtain m where m: "m \<le> length ?r"
        "header_len \<le> start + bf_size ?b + int (length ?r) \<longrightarrow> header_len \<le> start + bf_size ?b + int m"
        "start + bf_size ?b + int m \<le> max header_len (start + bf_size ?b) + int buf_unit"
        using Cons.IH [of "ys @ [q]" y "start + bf_size ?b"] inv Cons.prems(2) len by auto
      show ?thesis
        by (rule exI [of _ "length (content ?b) + m"])
          (use m len True f u st in \<open>auto simp del: stream_simps\<close>)
    qed
  next
    case False
    let ?s = "start + bf_size ?b" and ?a = "content ?b"
    let ?msg = "take (nat start) msg @ ?a @ drop (nat start + length ?a) msg"
    have go: "copy_header (cn_pool c) q header_len msg start = copy_header (cn_pool c) y header_len ?msg ?s"
      using False D nx Cons.prems(2) by (subst copy_header.simps) (auto simp: mem_get_content mem_put_def)
    obtain m where m: "m \<le> length ?r"
      "header_len \<le> ?s + int (length ?r) \<longrightarrow> header_len \<le> ?s + int m"
      "?s + int m \<le> max header_len ?s + int buf_unit"
      "copy_header (cn_pool c) y header_len ?msg ?s =
        (if nat ?s + m \<le> length ?msg
         then ret (take (nat ?s) ?msg @ take m ?r @ drop (nat ?s + m) ?msg, ?s + int m)
         else abort_with Undefined)"
      using Cons.IH [of "ys @ [q]" y ?s ?msg] inv Cons.prems(2) len by auto
    have ns: "nat ?s = nat start + length ?a"
      using len Cons.prems(2) by auto
    have ln: "length ?msg = length msg"
      using False by auto
    have eq: "take (nat ?s) ?msg @ take m ?r @ drop (nat ?s + m) ?msg =
        take (nat start) msg @ take (length ?a + m) (?a @ ?r) @ drop (nat start + (length ?a + m)) msg"
    proof -
      have "length (take m ?r) = m" "length (take (length ?a + m) (?a @ ?r)) = length ?a + m"
        using m(1) by (simp_all only: length_take length_append min_absorb2 add_le_cancel_left)
      then show ?thesis
        using splice_twice [of ?a "length ?a + m" "nat start" msg ?r] False
        unfolding ns add_diff_cancel_left' by (simp only: not_less de_Morgan_disj le_add1 simp_thms)
    qed
    show ?thesis
      unfolding go m(4) st ns ln eq [unfolded ns]
      by (rule exI [of _ "length ?a + m"]) (use m(1-3) len False in \<open>auto simp del: stream_simps\<close>)
  qed
qed

text \<open>The header buffer of a worker is 2,000,000 bytes; a longer header runs over its end.\<close>

lemma mem_put_one: "n < length d \<Longrightarrow> mem_put d (int n) [x] = ret (d[n := x])"
  by (simp add: mem_put_def upd_conv_take_nth_drop)

lemma get_body_len_ok:
  assumes inv: "conn_inv c fl qi qo A" and new: "io_body_len (cn_io c) < 0"
    and h: "io_header_len (cn_io c) = int h" "h \<le> length (in_stream c qi)" "qi \<noteq> []"
    and room: "h + buf_unit < length msg" and z: "0 \<notin> set (take h (in_stream c qi))"
    and b: "header_body (take h (in_stream c qi)) = ret (w, n)"
  shows "\<exists>msg'. length msg' = length msg \<and>
    get_body_len c msg = ret (upd_io (\<lambda>io. io\<lparr>io_is_write := w, io_body_len := n\<rparr>) c, msg')"
proof -
  obtain q xs where q: "qi = q # xs" using h(3) by (cases qi) auto
  have hd: "io_in_head (cn_io c) = Some q"
    using queue_head [OF conn_invD(2) [OF inv]] q by simp
  let ?s = "in_stream c qi"
  obtain m where m: "m \<le> length ?s" "int h \<le> int m" "int m \<le> int h + int buf_unit"
    "copy_header (cn_pool c) q (int h) msg 0 =
      (if m \<le> length msg then ret (take m ?s @ drop m msg, int m) else abort_with Undefined)"
    using copy_header_ok [of c fl "[]" q xs qo A 0 "int h" msg] inv h(2) unfolding q by auto
  let ?m = "take m ?s @ drop m msg"
  have len: "length ?m = length msg" "m \<le> length msg" using m room by auto
  let ?m' = "?m[h := 0]"
  have hm: "h < length ?m" using len(1) room by linarith
  have th: "take h ?m = take h ?s" using m by (simp add: min_def)
  have t': "take h ?m' = take h ?s" unfolding th [symmetric] by (rule take_update_cancel) simp
  have "cstr_of ?m' = ret (take h ?m')"
  proof (rule cstr_of_terminated)
    show "h < length ?m'" "?m' ! h = 0" using hm by (simp_all only: length_list_update nth_list_update_eq)
    show "?m' ! i \<noteq> 0" if "i < h" for i
    proof -
      have "?m' ! i = take h ?s ! i" using t' that by (metis nth_take)
      moreover have "i < length (take h ?s)" using that h(2) by simp
      ultimately show ?thesis using z by (metis nth_mem)
    qed
  qed
  then have "cstr_of ?m' = ret (take h ?s)" unfolding t' .
  moreover have "mem_put ?m (int h) [0] = ret ?m'" by (rule mem_put_one [OF hm])
  moreover have "length ?m' = length msg" using len(1) by (simp only: length_list_update)
  moreover have "copy_header (cn_pool c) q (int h) msg 0 = ret (?m, int m)" using m(4) len(2) by simp
  ultimately show ?thesis
    using hd new [unfolded not_le [symmetric]] h(1) m(2) b
    by (intro exI [of _ ?m'] conjI) (simp_all only: get_body_len_def Let_def run_bind_simps option.case
      if_True if_False prod.case simp_thms)
qed

lemma get_body_len_overflow:
  assumes inv: "conn_inv c fl qi qo A" and new: "io_body_len (cn_io c) < 0"
    and h: "io_header_len (cn_io c) = int h" "h \<le> length (in_stream c qi)" "qi \<noteq> []"
    and over: "length msg \<le> h"
  shows "get_body_len c msg = abort_with Undefined"
proof -
  obtain q xs where q: "qi = q # xs" using h(3) by (cases qi) auto
  have hd: "io_in_head (cn_io c) = Some q"
    using queue_head [OF conn_invD(2) [OF inv]] q by simp
  let ?s = "in_stream c qi"
  obtain m where m: "m \<le> length ?s" "int h \<le> int m"
    "copy_header (cn_pool c) q (int h) msg 0 =
      (if m \<le> length msg then ret (take m ?s @ drop m msg, int m) else abort_with Undefined)"
    using copy_header_ok [of c fl "[]" q xs qo A 0 "int h" msg] inv h(2) unfolding q by auto
  then show ?thesis
    using hd new h(1) over by (auto simp: get_body_len_def Let_def mem_put_def)
qed

lemma read_item_ok:
  assumes inv: "conn_inv c fl qi qo A" and fl: "fl \<noteq> []" and q: "qi \<noteq> []"
    and n: "n \<le> length (in_stream c qi)" "n + 2 \<le> length dst"
  shows "\<exists>c' fl' qi' dst'. read_item c (int n) dst = ret (c', dst') \<and> conn_inv c' fl' qi' qo A \<and>
    length fl \<le> length fl' \<and> consumed A c c' qi qi' qo (n + 2) \<and>
    take (Suc n) dst' = take n (in_stream c qi) @ [0] \<and> length dst' = length dst"
proof -
  obtain x xs where x: "qi = x # xs" using q by (cases qi) auto
  have hd: "io_in_head (cn_io c) = Some x"
    using queue_head [OF conn_invD(2) [OF inv]] x by simp
  let ?s = "in_stream c qi"
  have n2: "nat (int n + 2) = n + 2" by simp
  obtain c' fl' qi' where r: "read_loop c x (int n + 2) dst 0 =
      ret (c', take (n + 2) ?s @ drop (length (take (n + 2) ?s)) dst)"
    "conn_inv c' fl' qi' qo A" "length fl \<le> length fl'" "consumed A c c' qi qi' qo (n + 2)"
  proof -
    have "nat 0 + min (nat (int n + 2)) (length (in_stream c (x # xs))) \<le> length dst"
      using n(2) by auto
    from read_loop_ok [OF inv [unfolded x] fl _ _ this] show thesis
      using that unfolding x n2 by auto
  qed
  let ?d = "take (n + 2) ?s @ drop (length (take (n + 2) ?s)) dst"
  have len: "length ?d = length dst" using n by auto
  then have nd: "n < length ?d" using n(2) by linarith
  have t: "take n ?d = take n ?s" using n(1) by (auto simp: min_def)
  have "take (Suc n) (?d[n := 0]) = take n ?s @ [0]"
    unfolding t [symmetric] by (rule take_list_update_last [OF nd])
  moreover have "length (?d[n := 0]) = length dst"
    using len by (simp only: length_list_update)
  moreover have "read_item c (int n) dst = ret (c', ?d[n := 0])"
    using hd r(1) mem_put_one [OF nd, of 0] by (simp only: read_item_def option.case run_bind_simps prod.case) simp
  ultimately show ?thesis
    using r(2-4) by blast
qed

end
