(* ===== verification/Io_Output.thy ===== *)
theory Io_Output
  imports Io_Input
begin

text \<open>
  The output side of a connection on its byte stream: what is appended is sent in order, every
  event sends from the front, and closing a connection gives all its buffers back.
\<close>

section \<open>Sending\<close>

lemma handle_output_ok:
  assumes inv: "conn_inv c fl qi (x # qs) A" and fl: "fl \<noteq> []"
    and ct: "0 \<le> sent (content (bp_base (cn_pool c) ! x))"
      "sent (content (bp_base (cn_pool c) ! x)) \<le> int (length (content (bp_base (cn_pool c) ! x)))"
  shows "\<exists>c' fl' qo'. handle_output sent c = ret (c', qo' = []) \<and> conn_inv c' fl' qi qo' A \<and>
    length fl \<le> length fl' \<and> in_stream c' qi = in_stream c qi \<and> untouched A c c' \<and> only_out c c' \<and>
    out_stream c' qo' = drop (nat (sent (content (bp_base (cn_pool c) ! x)))) (out_stream c (x # qs)) \<and>
    qo' = (if sent (content (bp_base (cn_pool c) ! x)) = int (length (content (bp_base (cn_pool c) ! x))) then qs else x # qs)"
proof -
  note I = conn_invD [OF inv]
  let ?b = "bp_base (cn_pool c) ! x"
  let ?ct = "sent (content ?b)"
  have D: "length (bf_data ?b) = buf_unit" "buf_get (cn_pool c) x = ret ?b" "sized ?b"
    "x < length (bp_base (cn_pool c))"
    using buf_data_in_use [OF inv, of x] by auto
  have len: "int (length (content ?b)) = bf_size ?b"
    using D by (simp add: length_content sized_def)
  have hd: "io_out_head (cn_io c) = Some x"
    using queue_head [OF I(3)] by simp
  obtain keep d where sh: "mem_get (bf_data ?b) ?ct (bf_size ?b - ?ct) = ret keep" "mem_put (bf_data ?b) 0 keep = ret d"
    "length d = buf_unit" "content (?b\<lparr>bf_data := d, bf_size := bf_size ?b - ?ct\<rparr>) = drop (nat ?ct) (content ?b)"
    "sized (?b\<lparr>bf_data := d, bf_size := bf_size ?b - ?ct\<rparr>)"
    using shift_buffer [OF D(3,1) ct(1)] ct(2) len by auto
  let ?b' = "?b\<lparr>bf_data := d, bf_size := bf_size ?b - ?ct\<rparr>"
  let ?p = "(cn_pool c)\<lparr>bp_base := (bp_base (cn_pool c))[x := ?b']\<rparr>"
  let ?c = "c\<lparr>cn_pool := ?p\<rparr>"
  have upd: "buf_upd (cn_pool c) x (\<lambda>_. ?b') = ret ?p"
    using D(4) by (simp add: buf_upd_def)
  have inv1: "conn_inv ?c fl qi (x # qs) A"
    by (rule conn_inv_upd [OF inv]) (use sh in auto)
  have x: "x \<notin> set qi" "x \<notin> set qs" "x \<notin> A" using I by auto
  have u1: "untouched A c ?c"
    using x(3) by (auto simp: untouched_def) (metis nth_list_update_neq)
  have st1: "in_stream ?c qi = in_stream c qi" "out_stream ?c qs = out_stream c qs" using x by simp_all
  have b1: "bp_base (cn_pool ?c) ! x = ?b'" using D(4) by simp
  have run: "handle_output sent c =
    (if bf_size ?b - ?ct = 0
     then let (c, can_input) =
            (if 0 \<le> bf_next ?b then (upd_io (\<lambda>io. io\<lparr>io_out_head := Some (nat (bf_next ?b))\<rparr>) ?c, False)
             else (upd_io (\<lambda>io. io\<lparr>io_out_head := None, io_out_tail := None\<rparr>) ?c, True)) in
          run_bind (free_buf (cn_pool c) x) (\<lambda>p. ret (c\<lparr>cn_pool := p\<rparr>, can_input))
     else ret (?c, False))"
    using hd D sh(1,2) upd by (simp add: handle_output_def mem_get_content Let_def)
  show ?thesis
  proof (cases "?ct = bf_size ?b")
    case False
    then have "handle_output sent c = ret (?c, False)" using run by simp
    moreover have "out_stream ?c (x # qs) = drop (nat ?ct) (out_stream c (x # qs))"
      using b1 sh(4) st1(2) ct len by simp
    ultimately show ?thesis
      by - (rule exI [of _ ?c], rule exI [of _ fl], rule exI [of _ "x # qs"], use inv1 u1 st1(1) False len in \<open>simp add: only_out_def\<close>)
  next
    case True
    obtain p where p: "free_buf (cn_pool ?c) x = ret p"
      "\<forall>c'. cn_pool c' = p \<and> io_out_head (cn_io c') = (case qs of [] \<Rightarrow> None | y # _ \<Rightarrow> Some y) \<and>
        io_out_tail (cn_io c') = (if qs = [] then None else io_out_tail (cn_io ?c)) \<and>
        io_in_head (cn_io c') = io_in_head (cn_io ?c) \<and> io_in_tail (cn_io c') = io_in_tail (cn_io ?c) \<longrightarrow>
        conn_inv c' (x # fl) qi qs A \<and> in_stream c' qi = in_stream ?c qi \<and>
        out_stream c' qs = out_stream ?c qs \<and> untouched A ?c c'"
      by (rule dequeue_out [OF inv1 fl])
    have out: "out_stream c qs = drop (nat ?ct) (out_stream c (x # qs))"
      using True len by simp
    show ?thesis
    proof (cases qs)
      case Nil
      let ?c2 = "(upd_io (\<lambda>io. io\<lparr>io_out_head := None, io_out_tail := None\<rparr>) ?c)\<lparr>cn_pool := p\<rparr>"
      have "bf_next ?b < 0" using queue_ConsD(3) [OF I(3)] Nil by simp
      then have "handle_output sent c = ret (?c2, True)"
        using run True p(1) by simp
      moreover have "conn_inv ?c2 (x # fl) qi qs A \<and> in_stream ?c2 qi = in_stream ?c qi \<and>
          out_stream ?c2 qs = out_stream ?c qs \<and> untouched A ?c ?c2"
        by (rule p(2) [rule_format]) (use Nil in simp)
      ultimately show ?thesis
        by - (rule exI [of _ ?c2], rule exI [of _ "x # fl"], rule exI [of _ "[]"], use Nil st1 out len True untouched_trans [OF u1] in \<open>simp add: only_out_def\<close>)
    next
      case (Cons y ys)
      let ?c2 = "(upd_io (\<lambda>io. io\<lparr>io_out_head := Some y\<rparr>) ?c)\<lparr>cn_pool := p\<rparr>"
      have "bf_next ?b = int y" using I(3) Cons by (simp add: queue_def)
      then have "handle_output sent c = ret (?c2, False)"
        using run True p(1) by simp
      moreover have "conn_inv ?c2 (x # fl) qi qs A \<and> in_stream ?c2 qi = in_stream ?c qi \<and>
          out_stream ?c2 qs = out_stream ?c qs \<and> untouched A ?c ?c2"
        by (rule p(2) [rule_format]) (use Cons in simp)
      ultimately show ?thesis
        by - (rule exI [of _ ?c2], rule exI [of _ "x # fl"], rule exI [of _ qs], use Cons st1 out len True untouched_trans [OF u1] in \<open>simp add: only_out_def\<close>)
    qed
  qed
qed

text \<open>The result of \<open>send\<close> is not looked at: an error, -1, moves memory before the buffer.\<close>

lemma handle_output_fails:
  assumes inv: "conn_inv c fl qi (x # qs) A" and ct: "sent (content (bp_base (cn_pool c) ! x)) < 0"
  shows "handle_output sent c = abort_with Undefined"
proof -
  have D: "length (bf_data (bp_base (cn_pool c) ! x)) = buf_unit" "buf_get (cn_pool c) x = ret (bp_base (cn_pool c) ! x)"
    "sized (bp_base (cn_pool c) ! x)"
    using buf_data_in_use [OF inv, of x] by auto
  then show ?thesis
    using queue_head [OF conn_invD(3) [OF inv]] ct
    by (simp add: handle_output_def mem_get_content mem_get_def [of _ "sent _"])
qed

text \<open>A sequence of output events.\<close>

fun output_events :: "(cchar list \<Rightarrow> int) list \<Rightarrow> conn \<Rightarrow> conn run" where
  "output_events [] c = ret c"
| "output_events (sent # ss) c = run_bind (handle_output sent c) (\<lambda>(c, can_input). output_events ss c)"

text \<open>A peer that takes at least a byte of what it is offered.\<close>

definition accepts :: "(cchar list \<Rightarrow> int) \<Rightarrow> bool" where
  "accepts sent \<longleftrightarrow> (\<forall>bs. 0 \<le> sent bs \<and> sent bs \<le> int (length bs) \<and> (bs \<noteq> [] \<longrightarrow> 1 \<le> sent bs))"

lemma output_events_drain:
  assumes "conn_inv c fl qi qo A" and "fl \<noteq> []" and "list_all accepts ss"
    and "length (out_stream c qo) + length qo \<le> length ss"
  shows "\<exists>c' fl'. output_events ss c = ret c' \<and> conn_inv c' fl' qi [] A \<and> in_stream c' qi = in_stream c qi \<and>
    untouched A c c'"
  using assms
proof (induction ss arbitrary: c fl qo)
  case Nil
  then show ?case by auto
next
  case (Cons sent ss)
  show ?case
  proof (cases qo)
    case Nil
    then have "handle_output sent c = ret (c, False)"
      using queue_head [OF conn_invD(3) [OF Cons.prems(1)]] by (simp add: handle_output_def)
    then show ?thesis
      using Cons.IH [of c fl "[]"] Cons.prems Nil by simp
  next
    case (Cons x qs)
    let ?b = "bp_base (cn_pool c) ! x"
    have s: "0 \<le> sent (content ?b)" "sent (content ?b) \<le> int (length (content ?b))"
      "content ?b \<noteq> [] \<Longrightarrow> 1 \<le> sent (content ?b)"
      using Cons.prems(3) by (auto simp: accepts_def)
    obtain c1 fl1 qo1 where h: "handle_output sent c = ret (c1, qo1 = [])" "conn_inv c1 fl1 qi qo1 A"
      "length fl \<le> length fl1" "in_stream c1 qi = in_stream c qi" "untouched A c c1"
      "out_stream c1 qo1 = drop (nat (sent (content ?b))) (out_stream c (x # qs))"
      "qo1 = (if sent (content ?b) = int (length (content ?b)) then qs else x # qs)"
      using handle_output_ok [of c fl qi x qs A sent] Cons.prems(1,2) s(1,2) unfolding Cons by blast
    have "length (out_stream c1 qo1) + length qo1 < length (out_stream c (x # qs)) + length (x # qs)"
      using h(6,7) s by (cases "content ?b = []") (auto split: if_splits)
    then have "length (out_stream c1 qo1) + length qo1 \<le> length ss"
      using Cons.prems(4) Cons by simp
    then obtain c' fl' where r: "output_events ss c1 = ret c'" "conn_inv c' fl' qi [] A"
      "in_stream c' qi = in_stream c1 qi" "untouched A c1 c'"
      using Cons.IH [OF h(2)] h(3) Cons.prems(2,3) by fastforce
    have "output_events (sent # ss) c = ret c'" using h(1) r(1) by simp
    then show ?thesis
      using r h(4) untouched_trans [OF h(5) r(4)] by auto
  qed
qed

section \<open>Closing a connection\<close>

lemma free_bufs_ok:
  assumes "pool_inv p fl (set xs \<union> B)" and "chain (bp_base p) (link h) xs" and "distinct xs"
    and "set xs \<inter> B = {}" and "fl \<noteq> []"
  shows "\<exists>p'. free_bufs p h = ret p' \<and> pool_inv p' (rev xs @ fl) B \<and>
    (\<forall>y. y \<notin> set xs \<longrightarrow> bp_base p' ! y = bp_base p ! y) \<and> length (bp_base p') = length (bp_base p)"
  using assms
proof (induction xs arbitrary: p fl h)
  case Nil
  then have "h = None" by (auto dest: chain_link)
  then show ?case using Nil by (subst free_bufs.simps) simp
next
  case (Cons x xs)
  have h: "h = Some x" using chain_link [OF Cons.prems(2)] by simp
  have x: "x \<in> set (x # xs) \<union> B" "x \<notin> set xs" "x \<notin> B" using Cons.prems(3,4) by auto
  obtain p1 where p1: "free_buf p x = ret p1" "pool_inv p1 (x # fl) (set (x # xs) \<union> B - {x})"
    "bp_base p1 = (bp_base p)[x := (bp_base p ! x)\<lparr>bf_size := 0, bf_next := bp_head p\<rparr>]"
    using free_buf_ok [OF Cons.prems(1,5) x(1)] by blast
  have s: "set (x # xs) \<union> B - {x} = set xs \<union> B" using x by auto
  let ?h = "next_buf (bp_base p ! x)"
  have "chain (bp_base p) (link ?h) xs"
    using Cons.prems(2) by (cases xs) (auto simp: next_buf_def)
  then have ch: "chain (bp_base p1) (link ?h) xs"
    using x(2) p1(3) by simp
  obtain p' where p': "free_bufs p1 ?h = ret p'" "pool_inv p' (rev xs @ x # fl) B"
    "\<forall>y. y \<notin> set xs \<longrightarrow> bp_base p' ! y = bp_base p1 ! y" "length (bp_base p') = length (bp_base p1)"
    using Cons.IH [OF p1(2) [unfolded s] ch] Cons.prems(3,4) by auto
  have "free_bufs p h = ret p'"
    using h p1(1) p'(1) buf_get_in_use [OF Cons.prems(1) x(1)] by (subst free_bufs.simps) (simp add: Let_def)
  moreover have "\<forall>y. y \<notin> set (x # xs) \<longrightarrow> bp_base p' ! y = bp_base p ! y"
    using p'(3) p1(3) by auto
  ultimately show ?case
    using p' p1(3) by simp
qed

lemma destroy_io_data_ok:
  assumes inv: "conn_inv c fl qi qo A" and fl: "fl \<noteq> []"
  shows "\<exists>c' fl'. destroy_io_data c = ret c' \<and> conn_inv c' fl' [] [] A \<and>
    set fl' = set fl \<union> set qi \<union> set qo \<and> untouched A c c' \<and> io_in_len (cn_io c') = (if qi = [] then io_in_len (cn_io c) else 0)"
proof -
  note I = conn_invD [OF inv]
  have u: "set qi \<union> set qo \<union> A = set qi \<union> (set qo \<union> A)" by auto
  obtain p1 where p1: "free_bufs (cn_pool c) (io_in_head (cn_io c)) = ret p1" "pool_inv p1 (rev qi @ fl) (set qo \<union> A)"
    "\<forall>y. y \<notin> set qi \<longrightarrow> bp_base p1 ! y = bp_base (cn_pool c) ! y" "length (bp_base p1) = length (bp_base (cn_pool c))"
    using free_bufs_ok [OF I(1) [unfolded u] queue_chain [OF I(2)] I(4) _ fl] I(6,7) by auto
  have "chain (bp_base p1) (link (io_out_head (cn_io c))) qo = chain (bp_base (cn_pool c)) (link (io_out_head (cn_io c))) qo"
    by (rule chain_agree) (use p1(3,4) I(6) in auto)
  then have ch: "chain (bp_base p1) (link (io_out_head (cn_io c))) qo"
    using queue_chain [OF I(3)] by simp
  obtain p2 where p2: "free_bufs p1 (io_out_head (cn_io c)) = ret p2" "pool_inv p2 (rev qo @ rev qi @ fl) A"
    "\<forall>y. y \<notin> set qo \<longrightarrow> bp_base p2 ! y = bp_base p1 ! y" "length (bp_base p2) = length (bp_base p1)"
    using free_bufs_ok [OF p1(2) ch I(5) I(8)] fl by auto
  have hi: "io_in_head (cn_io c) = None \<longleftrightarrow> qi = []" "io_out_head (cn_io c) = None \<longleftrightarrow> qo = []"
    using queue_head [OF I(2)] queue_head [OF I(3)] by (auto split: list.splits)
  let ?c = "upd_io (\<lambda>io. io\<lparr>io_in_head := None, io_out_head := None, io_in_tail := None, io_out_tail := None,
      io_in_len := (if qi = [] then io_in_len io else 0), io_out_len := (if qo = [] then io_out_len io else 0)\<rparr>) (c\<lparr>cn_pool := p2\<rparr>)"
  have e1: "qi = [] \<Longrightarrow> p1 = cn_pool c" "qo = [] \<Longrightarrow> p2 = p1"
    using p1(1) p2(1) hi free_bufs.simps by auto
  have "destroy_io_data c = ret ?c"
    using p1(1) p2(1) hi e1
    by (cases "qi = []"; cases "qo = []") (auto simp: destroy_io_data_def free_in_buf_list_def free_out_buf_list_def upd_io_def)
  moreover have "conn_inv ?c (rev qo @ rev qi @ fl) [] [] A"
    using p2(2) by (simp add: conn_inv_def queue_empty)
  moreover have "untouched A c ?c"
  proof -
    have "bp_base p2 ! y = bp_base (cn_pool c) ! y" if "y \<in> A" for y
      using that I(7,8) p1(3) p2(3) by (metis disjoint_iff)
    then show ?thesis using p1(4) p2(4) by (simp add: untouched_def)
  qed
  ultimately show ?thesis
    by (intro exI [of _ ?c] exI [of _ "rev qo @ rev qi @ fl"]) auto
qed

section \<open>A new connection\<close>

text \<open>The table of connections is static memory, all zero at first.\<close>

definition io_zero :: io_data where
  "io_zero = \<lparr>io_fd = 0, io_worker = 0, io_header_len = 0, io_body_len = 0, io_is_write = False,
     io_in_head = None, io_in_tail = None, io_out_head = None, io_out_tail = None,
     io_in_len = 0, io_out_len = 0\<rparr>"

definition new_conn :: "pool \<Rightarrow> conn" where
  "new_conn p = alloc_io_data \<lparr>cn_pool = p, cn_io = io_zero, cn_poll = Poll_in\<rparr> 4 0"

lemma new_conn_ok: "pool_inv p fl {} \<Longrightarrow> conn_inv (new_conn p) fl [] [] {}"
  by (simp add: new_conn_def alloc_io_data_def conn_inv_def queue_empty)

section \<open>Properties\<close>

text \<open>
  Appending a reply either puts exactly its bytes at the end of what is to be sent, taking
  the buffers that \<open>send_need\<close> counts and nothing of other connections, or stops the process
  because the pool runs out; it does the latter as soon as the last free buffer would be taken.
\<close>

theorem reply_appended:
  assumes "conn_inv c fl qi qo A"
  shows "(send_need c qo (length k) < length fl \<longrightarrow>
      (\<exists>c' qo'. append_send_data c k = ret c' \<and> conn_inv c' (drop (send_need c qo (length k)) fl) qi qo' A \<and>
        out_stream c' qo' = out_stream c qo @ k \<and> in_stream c' qi = in_stream c qi \<and> untouched A c c')) \<and>
    (0 < send_need c qo (length k) \<and> length fl \<le> send_need c qo (length k) \<longrightarrow>
      append_send_data c k = abort_with Assert_failed)"
  using append_send_data_ok [OF assms, of k] unfolding appended_def by blast

theorem reply_appended_witness:
  "\<exists>p c' qo'. bp_new True 4 = ret p \<and> append_send_data (new_conn p) (replicate 600 0) = ret c' \<and>
    out_stream c' qo' = replicate 600 0 \<and> append_send_data (new_conn p) (replicate 2000 0) = abort_with Assert_failed"
proof -
  obtain p where p: "bp_new True 4 = ret p" "pool_inv p [0..<4] {}"
    using bp_new_ok [of 4] by auto
  have n: "send_need (new_conn p) [] 600 = 2" "send_need (new_conn p) [] 2000 = 4"
    by (simp_all add: send_need_def chunks_def buf_unit_def)
  note R = reply_appended [OF new_conn_ok [OF p(2)]]
  show ?thesis
    using p(1) R [of "replicate 600 0"] R [of "replicate 2000 0"] n by auto
qed


text \<open>
  An output event of a connection with something to send takes the bytes that \<open>send\<close> accepted
  off the front of the stream, keeps the rest in order, and goes back to waiting for input only
  when nothing is left.
\<close>

theorem output_event:
  assumes "conn_inv c fl qi (x # qs) A" and "fl \<noteq> []"
    and "\<And>bs. 0 \<le> sent bs \<and> sent bs \<le> int (length bs)"
  shows "\<exists>c' fl' qo'. handle_output sent c = ret (c', qo' = []) \<and> conn_inv c' fl' qi qo' A \<and>
    out_stream c' qo' = drop (nat (sent (content (bp_base (cn_pool c) ! x)))) (out_stream c (x # qs)) \<and>
    in_stream c' qi = in_stream c qi \<and> untouched A c c'"
  using handle_output_ok [OF assms(1,2), of sent] assms(3) by blast

text \<open>
  C32. When \<open>send\<close> fails, its -1 is used as a number of bytes: the rest of the buffer is moved
  from before its start.
\<close>

theorem output_error_ignored:
  assumes "conn_inv c fl qi (x # qs) A" and "\<And>bs. sent bs = -1"
  shows "handle_output sent c = abort_with Undefined"
  using handle_output_fails [OF assms(1), of sent] assms(2) by simp

text \<open>
  C33. Closing a connection gives every buffer it holds back to the pool, once, and leaves the
  buffers of the other connections alone.
\<close>

theorem close_returns_buffers:
  assumes "conn_inv c fl qi qo A" and "fl \<noteq> []"
  shows "\<exists>c' fl'. destroy_io_data c = ret c' \<and> conn_inv c' fl' [] [] A \<and>
    set fl' = set fl \<union> set qi \<union> set qo \<and> untouched A c c'"
  using destroy_io_data_ok [OF assms] by blast

text \<open>One connection that has sent 600 bytes, for the closed instances.\<close>

lemma replied_conn:
  obtains p c fl x qs where "bp_new True 4 = ret p" and "append_send_data (new_conn p) (replicate 600 0) = ret c"
    and "conn_inv c fl [] (x # qs) {}" and "fl \<noteq> []" and "out_stream c (x # qs) = replicate 600 0"
    and "length qs \<le> 3"
proof -
  obtain p where p: "bp_new True 4 = ret p" "pool_inv p [0..<4] {}" "length (bp_base p) = 4"
    using bp_new_ok [of 4] by auto
  have n: "send_need (new_conn p) [] 600 = 2"
    by (simp add: send_need_def chunks_def buf_unit_def)
  obtain c qo where c: "append_send_data (new_conn p) (replicate 600 0) = ret c"
    "conn_inv c (drop 2 [0..<4]) [] qo {}" "out_stream c qo = replicate 600 0" "untouched {} (new_conn p) c"
    using append_send_data_ok [OF new_conn_ok [OF p(2)], of "replicate 600 0"] n
    by (auto simp: appended_def)
  have "qo \<noteq> []" using c(3) by auto
  then obtain x qs where q: "qo = x # qs" by (cases qo) auto
  have "length (bp_base (cn_pool c)) = 4"
    using c(4) p(3) by (simp add: untouched_def new_conn_def alloc_io_data_def)
  then have "set qo \<subseteq> {..<4}" "distinct qo"
    using c(2) by (auto simp: conn_inv_def pool_inv_def)
  then have "length qo \<le> 4"
    by (metis card_lessThan card_mono distinct_card finite_lessThan)
  then show thesis
    using that [OF p(1) c(1) c(2) [unfolded q] _ c(3) [unfolded q]] q by simp
qed


theorem output_event_witness:
  "\<exists>p c c' b. bp_new True 4 = ret p \<and> append_send_data (new_conn p) (replicate 600 0) = ret c \<and>
    handle_output (\<lambda>bs. 0) c = ret (c', b)"
proof (rule replied_conn)
  fix p c fl x qs
  assume c: "bp_new True 4 = ret p" "append_send_data (new_conn p) (replicate 600 0) = ret c"
    "conn_inv c fl [] (x # qs) {}" "fl \<noteq> []"
  show ?thesis
    using output_event [OF c(3,4), of "\<lambda>bs. 0"] c(1,2) by auto
qed

theorem output_error_ignored_witness:
  "\<exists>p c. bp_new True 4 = ret p \<and> append_send_data (new_conn p) (replicate 600 0) = ret c \<and>
    handle_output (\<lambda>bs. -1) c = abort_with Undefined"
proof (rule replied_conn)
  fix p c fl x qs
  assume c: "bp_new True 4 = ret p" "append_send_data (new_conn p) (replicate 600 0) = ret c"
    "conn_inv c fl [] (x # qs) {}"
  show ?thesis
    using output_error_ignored [OF c(3), of "\<lambda>bs. -1"] c(1,2) by auto
qed

theorem close_returns_buffers_witness:
  "\<exists>p c c'. bp_new True 4 = ret p \<and> append_send_data (new_conn p) (replicate 600 0) = ret c \<and>
    destroy_io_data c = ret c'"
proof (rule replied_conn)
  fix p c fl x qs
  assume c: "bp_new True 4 = ret p" "append_send_data (new_conn p) (replicate 600 0) = ret c"
    "conn_inv c fl [] (x # qs) {}" "fl \<noteq> []"
  show ?thesis
    using close_returns_buffers [OF c(3,4)] c(1,2) by auto
qed

end
