(* ===== verification/Framing.thy ===== *)
theory Framing
  imports Io_Output
begin

text \<open>
  How the byte stream of a connection is cut into requests: \<open>request_at\<close> says it on the stream,
  \<open>next_request\<close> does it on the buffers, and the two agree wherever the network cut the stream.
\<close>

section \<open>Cutting the stream into requests\<close>

text \<open>
  The part of \<open>handle_input\<close>'s loop that decides whether a whole request is there and takes it
  off the input; the result tells whether it is.
\<close>

definition next_request ::
  "conn \<Rightarrow> cchar list \<Rightarrow> cchar list \<Rightarrow> (conn \<times> cchar list \<times> cchar list \<times> bool) run"
where
  "next_request c header body =
     run_bind (has_header c) (\<lambda>(c, found).
     if \<not> found then ret (c, header, body, False)
     else
       run_bind (get_body_len c header) (\<lambda>(c, header).
       if \<not> io_is_write (cn_io c) \<or> has_body c
       then run_bind (read_header c header) (\<lambda>(c, header).
            run_bind (if io_is_write (cn_io c) then read_body c body else ret (c, body)) (\<lambda>(c, body).
            ret (c, header, body, True)))
       else ret (c, header, body, False)))"

text \<open>
  What the byte stream says: the header line without its last character (the carriage return),
  and for \<open>set\<close> and \<open>cas\<close> as many bytes of body as it announces, with two bytes after each.
\<close>

datatype framing = Incomplete | Request cstr "cstr option" "cchar list"

definition header_size :: "cchar list \<Rightarrow> nat" where
  "header_size s = length (takeWhile (\<lambda>c. c \<noteq> newline) s) - 1"

definition request_at :: "cchar list \<Rightarrow> framing run" where
  "request_at s =
     (if newline \<notin> set s then ret Incomplete
      else
        let h = header_size s in
        run_bind (header_body (take h s)) (\<lambda>(w, n).
        ret (if \<not> w then Request (take h s) None (drop (h + 2) s)
             else if h + 4 + nat n \<le> length s
             then Request (take h s) (Some (take (nat n) (drop (h + 2) s))) (drop (h + 2 + nat n + 2) s)
             else Incomplete)))"

text \<open>Between two events the record holds nothing, or the measures of the request that is awaited.\<close>

definition framed :: "conn \<Rightarrow> nat list \<Rightarrow> bool" where
  "framed c qi \<longleftrightarrow>
     (let s = in_stream c qi; io = cn_io c in
      io_in_len io = int (length s) \<and>
      (io_header_len io = 0 \<and> io_body_len io = -1 \<or>
       newline \<in> set s \<and> 0 < header_size s \<and> io_header_len io = int (header_size s) \<and> io_is_write io \<and>
       header_body (take (header_size s) s) = ret (True, io_body_len io)))"

lemma clamp_bounds: "0 \<le> clamp_value_len v \<and> clamp_value_len v \<le> value_limit"
  by (simp add: clamp_value_len_def value_limit_def)

lemma header_body_bounds:
  assumes "header_body s = ret (w, n)"
  shows "0 \<le> n \<and> n \<le> value_limit \<and> (\<not> w \<longrightarrow> n = 0)"
proof -
  have "(w, n) = (False, 0) \<or> (\<exists>v. (w, n) = (True, clamp_value_len v))"
    using assms by (auto simp: header_body_def run_bind_eq_ret split: if_splits)
  then show ?thesis using clamp_bounds by (auto simp: value_limit_def)
qed

lemma newline_split:
  "newline \<in> set s \<Longrightarrow> \<exists>pre rest. s = pre @ newline # rest \<and> takeWhile (\<lambda>c. c \<noteq> newline) s = pre"
proof -
  assume "newline \<in> set s"
  then obtain pre rest where s: "s = pre @ newline # rest" "newline \<notin> set pre"
    by (meson split_list_first)
  then have "takeWhile (\<lambda>c. c \<noteq> newline) s = pre"
    by (auto simp: takeWhile_tail takeWhile_eq_all_conv)
  with s(1) show ?thesis by blast
qed

lemma header_size_less:
  assumes "newline \<in> set s"
  shows "header_size s < length s"
proof -
  obtain pre rest where s: "s = pre @ newline # rest" "takeWhile (\<lambda>c. c \<noteq> newline) s = pre"
    using newline_split [OF assms] by blast
  have "length s = Suc (length pre + length rest)" by (subst s(1)) simp
  then show ?thesis by (simp add: header_size_def s(2))
qed

lemma take_header:
  "set (take (header_size s) s) \<subseteq> set (takeWhile (\<lambda>c. c \<noteq> newline) s)"
proof -
  have "take (header_size s) s = take (header_size s) (takeWhile (\<lambda>c. c \<noteq> newline) s)"
    by (metis header_size_def diff_le_self min.absorb1 take_take takeWhile_eq_take)
  then show ?thesis by (metis set_take_subset)
qed

lemma conn_inv_io:
  assumes "conn_inv c fl qi qo A" and "cn_pool c' = cn_pool c"
    and "io_in_head (cn_io c') = io_in_head (cn_io c)" "io_in_tail (cn_io c') = io_in_tail (cn_io c)"
    and "io_out_head (cn_io c') = io_out_head (cn_io c)" "io_out_tail (cn_io c') = io_out_tail (cn_io c)"
  shows "conn_inv c' fl qi qo A"
  using assms by (simp add: conn_inv_def)

text \<open>After the header is known: the record measures the first request of the stream.\<close>

definition measured :: "conn \<Rightarrow> nat list \<Rightarrow> bool \<Rightarrow> int \<Rightarrow> bool" where
  "measured c qi w n \<longleftrightarrow>
     (let s = in_stream c qi; io = cn_io c in
      io_in_len io = int (length s) \<and> newline \<in> set s \<and> io_header_len io = int (header_size s) \<and>
      io_is_write io = w \<and> io_body_len io = n \<and> header_body (take (header_size s) s) = ret (w, n))"

lemma measure_request:
  assumes inv: "conn_inv c fl qi qo A" and fr: "framed c qi"
    and z: "0 \<notin> set (takeWhile (\<lambda>c. c \<noteq> newline) (in_stream c qi))" and nl: "newline \<in> set (in_stream c qi)"
    and room: "header_size (in_stream c qi) + buf_unit < length header"
    and b: "header_body (take (header_size (in_stream c qi)) (in_stream c qi)) = ret (w, n)"
  shows "\<exists>c1 c' header'. has_header c = ret (c1, True) \<and> get_body_len c1 header = ret (c', header') \<and>
    conn_inv c' fl qi qo A \<and> in_stream c' qi = in_stream c qi \<and> out_stream c' qo = out_stream c qo \<and>
    untouched A c c' \<and> measured c' qi w n \<and> length header' = length header"
proof (cases "0 < io_header_len (cn_io c)")
  case True
  then have m: "measured c qi w n"
    using fr nl b by (auto simp: framed_def measured_def Let_def)
  have "io_in_head (cn_io c) \<noteq> None"
    using nl queue_head [OF conn_invD(2) [OF inv]] by (cases qi) auto
  then have "has_header c = ret (c, True)"
    using True by (auto simp: has_header_def)
  moreover have "get_body_len c header = ret (c, header)"
    using m header_body_bounds [OF b] by (simp add: get_body_len_def measured_def Let_def)
  ultimately show ?thesis using inv m by auto
next
  case False
  then have h: "io_header_len (cn_io c) = 0" "io_body_len (cn_io c) = -1" "io_in_len (cn_io c) = int (length (in_stream c qi))"
    using fr by (auto simp: framed_def Let_def)
  obtain c1 where c1: "has_header c = ret (c1, True)" "conn_inv c1 fl qi qo A"
    "in_stream c1 qi = in_stream c qi" "out_stream c1 qo = out_stream c qo" "untouched A c c1"
    "cn_io c1 = (cn_io c)\<lparr>io_header_len := int (header_size (in_stream c qi))\<rparr>"
    using has_header_ok [OF inv z h(1)] nl by (auto simp: header_size_def)
  have qi: "qi \<noteq> []" using nl by auto
  have z1: "0 \<notin> set (take (header_size (in_stream c1 qi)) (in_stream c1 qi))"
    using z take_header c1(3) by auto
  have le: "header_size (in_stream c1 qi) \<le> length (in_stream c1 qi)"
    using header_size_less [OF nl] c1(3) by simp
  obtain header' where g: "length header' = length header"
    "get_body_len c1 header = ret (upd_io (\<lambda>io. io\<lparr>io_is_write := w, io_body_len := n\<rparr>) c1, header')"
    using get_body_len_ok [OF c1(2) _ _ le qi _ z1, of header w n] c1(3,6) h room b by auto
  let ?c = "upd_io (\<lambda>io. io\<lparr>io_is_write := w, io_body_len := n\<rparr>) c1"
  have "conn_inv ?c fl qi qo A"
    by (rule conn_inv_io [OF c1(2)]) simp_all
  moreover have "measured ?c qi w n"
    using c1(3,6) h nl b by (simp add: measured_def Let_def)
  moreover have "untouched A c ?c"
    using c1(5) by (simp add: untouched_def)
  ultimately show ?thesis
    using c1(1,3,4) g by (intro exI [of _ c1] exI [of _ ?c] exI [of _ header']) simp
qed

text \<open>What \<open>handle_cmd\<close> finds once a request has been taken off the input.\<close>

definition holds :: "cchar list \<Rightarrow> cstr \<Rightarrow> bool" where
  "holds buf s \<longleftrightarrow> take (Suc (length s)) buf = s @ [0]"

definition taken :: "conn \<Rightarrow> cchar list \<Rightarrow> cchar list \<Rightarrow> cchar list \<Rightarrow> cstr \<Rightarrow> cstr option \<Rightarrow> bool" where
  "taken c header body body' hdr b \<longleftrightarrow>
     holds header hdr \<and> io_header_len (cn_io c) = int (length hdr) \<and>
     (case b of None \<Rightarrow> \<not> io_is_write (cn_io c) \<and> io_body_len (cn_io c) = 0 \<and> body' = body
      | Some bs \<Rightarrow> io_is_write (cn_io c) \<and> io_body_len (cn_io c) = int (length bs) \<and> holds body' bs)"

lemma holds_len: "holds buf s \<Longrightarrow> length s < length buf"
  unfolding holds_def by (metis Suc_le_eq append_is_Nil_conv diff_is_0_eq length_append_singleton length_take min.cobounded1 min.commute)

lemma take_request:
  assumes inv: "conn_inv c fl qi qo A" and fl: "fl \<noteq> []" and m: "measured c qi w n"
    and room: "header_size (in_stream c qi) + buf_unit < length header" "1000002 \<le> length body"
    and go: "w \<longrightarrow> header_size (in_stream c qi) + 4 + nat n \<le> length (in_stream c qi)"
  shows "\<exists>c1 header' c' body' fl' qi'. read_header c header = ret (c1, header') \<and>
    (if w then read_body c1 body else ret (c1, body)) = ret (c', body') \<and> io_is_write (cn_io c1) = w \<and>
    conn_inv c' fl' qi' qo A \<and> length fl \<le> length fl' \<and>
    in_stream c' qi' = drop (header_size (in_stream c qi) + 2 + (if w then nat n + 2 else 0)) (in_stream c qi) \<and>
    out_stream c' qo = out_stream c qo \<and> untouched A c c' \<and> only_in c c' \<and>
    length header' = length header \<and> length body' = length body \<and>
    holds header' (take (header_size (in_stream c qi)) (in_stream c qi)) \<and>
    (if w then holds body' (take (nat n) (drop (header_size (in_stream c qi) + 2) (in_stream c qi))) else body' = body)"
proof -
  let ?s = "in_stream c qi" and ?h = "header_size (in_stream c qi)"
  note M = m [unfolded measured_def Let_def]
  have nl: "newline \<in> set ?s" and qi: "qi \<noteq> []" using M by auto
  have h: "?h \<le> length ?s" using header_size_less [OF nl] by simp
  have n: "0 \<le> n" "n \<le> value_limit" using header_body_bounds M by blast+
  have len: "length (take ?h ?s) = ?h" using h by simp
  have "?h + 2 \<le> length header" using room(1) by (simp add: buf_unit_def)
  from read_item_ok [OF inv fl qi h this] obtain c1 fl1 qi1 header' where
    r: "read_item c (int ?h) header = ret (c1, header')" "conn_inv c1 fl1 qi1 qo A" "length fl \<le> length fl1"
      "consumed A c c1 qi qi1 qo (?h + 2)" "take (Suc ?h) header' = take ?h ?s @ [0]" "length header' = length header"
    by blast
  have rh: "read_header c header = ret (c1, header')"
    using r(1) M by (simp add: read_header_def)
  have C: "in_stream c1 qi1 = drop (?h + 2) ?s" "out_stream c1 qo = out_stream c qo" "untouched A c c1" "only_in c c1"
    using r(4) by (simp_all add: consumed_def)
  have hh: "holds header' (take ?h ?s)" using r(5) len by (simp add: holds_def)
  have iw: "io_is_write (cn_io c1) = w" "io_body_len (cn_io c1) = n"
    using only_inD [OF C(4)] M by simp_all
  show ?thesis
  proof (cases w)
    case False
    then have "drop (?h + 2 + (if w then nat n + 2 else 0)) ?s = in_stream c1 qi1" using C(1) by simp
    then show ?thesis
      using False rh r C hh iw by (intro exI [of _ c1] exI [of _ header'] exI [of _ body] exI [of _ fl1] exI [of _ qi1]) simp
  next
    case True
    then have b: "nat n \<le> length (in_stream c1 qi1)" "0 < length (in_stream c1 qi1)" using go C(1) by auto
    then have qi1: "qi1 \<noteq> []" by auto
    have fl1: "fl1 \<noteq> []" using fl r(3) by auto
    have "nat n + 2 \<le> length body" using n(2) room(2) by (simp add: value_limit_def)
    from read_item_ok [OF r(2) fl1 qi1 b(1) this] obtain c2 fl2 qi2 body' where
      r2: "read_item c1 (int (nat n)) body = ret (c2, body')" "conn_inv c2 fl2 qi2 qo A" "length fl1 \<le> length fl2"
        "consumed A c1 c2 qi1 qi2 qo (nat n + 2)" "take (Suc (nat n)) body' = take (nat n) (in_stream c1 qi1) @ [0]"
        "length body' = length body"
      by blast
    have rb: "read_body c1 body = ret (c2, body')"
      using r2(1) iw n by (simp add: read_body_def)
    have C2: "in_stream c2 qi2 = drop (nat n + 2) (drop (?h + 2) ?s)" "out_stream c2 qo = out_stream c qo"
      "untouched A c c2" "only_in c c2"
      using r2(4) C by (auto simp: consumed_def intro: untouched_trans only_in_trans)
    have "length (take (nat n) (in_stream c1 qi1)) = nat n" using b by simp
    then have hb: "holds body' (take (nat n) (drop (?h + 2) ?s))"
      using r2(5) C(1) by (simp add: holds_def)
    have "drop (?h + 2 + (if w then nat n + 2 else 0)) ?s = in_stream c2 qi2"
      using True C2(1) by (simp add: add.commute)
    then show ?thesis
      using True rh rb r(3,6) r2 C2 hh hb iw
      by (intro exI [of _ c1] exI [of _ header'] exI [of _ c2] exI [of _ body'] exI [of _ fl2] exI [of _ qi2]) simp
  qed
qed

lemma header_bound_len: "length (take (header_size s) s) \<le> length s"
  by simp

lemma next_request_measured:
  assumes "has_header c = ret (c1, True)" and "get_body_len c1 header = ret (c2, header2)"
    and "measured c2 qi w n"
  shows "next_request c header body =
    (if w \<longrightarrow> header_size (in_stream c2 qi) + 4 + nat n \<le> length (in_stream c2 qi)
     then run_bind (read_header c2 header2) (\<lambda>(c, header).
          run_bind (if io_is_write (cn_io c) then read_body c body else ret (c, body)) (\<lambda>(c, body).
          ret (c, header, body, True)))
     else ret (c2, header2, body, False))"
proof -
  have b: "0 \<le> n" "io_body_len (cn_io c2) = n" "io_is_write (cn_io c2) = w"
    "io_header_len (cn_io c2) = int (header_size (in_stream c2 qi))"
    "io_in_len (cn_io c2) = int (length (in_stream c2 qi))"
    using assms(3) header_body_bounds by (auto simp: measured_def Let_def)
  then have "has_body c2 \<longleftrightarrow> header_size (in_stream c2 qi) + 4 + nat n \<le> length (in_stream c2 qi)"
    by (auto simp: has_body_def Let_def)
  then show ?thesis
    using assms(1,2) b(3) by (simp add: next_request_def)
qed

lemma request_at_measured:
  assumes "measured c qi w n"
  shows "request_at (in_stream c qi) =
    (let s = in_stream c qi; h = header_size s in
     ret (if \<not> w then Request (take h s) None (drop (h + 2) s)
          else if h + 4 + nat n \<le> length s
          then Request (take h s) (Some (take (nat n) (drop (h + 2) s))) (drop (h + 2 + nat n + 2) s)
          else Incomplete))"
  using assms by (simp add: request_at_def measured_def Let_def)

lemma next_request_complete:
  assumes inv: "conn_inv c fl qi qo A" and fl: "fl \<noteq> []" and fr: "framed c qi"
    and z: "0 \<notin> set (takeWhile (\<lambda>c. c \<noteq> newline) (in_stream c qi))"
    and room: "header_size (in_stream c qi) + buf_unit < length header" "1000002 \<le> length body"
    and r: "request_at (in_stream c qi) = ret (Request hdr b rest)"
  shows "\<exists>c' header' body' fl' qi'. next_request c header body = ret (c', header', body', True) \<and>
    conn_inv c' fl' qi' qo A \<and> length fl \<le> length fl' \<and> in_stream c' qi' = rest \<and>
    out_stream c' qo = out_stream c qo \<and> untouched A c c' \<and> taken c' header' body body' hdr b \<and>
    length header' = length header \<and> length body' = length body \<and> framed (fix_buf_len c') qi'"
proof -
  let ?s = "in_stream c qi" and ?h = "header_size (in_stream c qi)"
  have nl: "newline \<in> set ?s" using r by (auto simp: request_at_def split: if_splits)
  obtain w n where hb: "header_body (take ?h ?s) = ret (w, n)"
    using r nl by (auto simp: request_at_def Let_def run_bind_eq_ret)
  obtain c1 c2 header2 where m: "has_header c = ret (c1, True)" "get_body_len c1 header = ret (c2, header2)"
    "conn_inv c2 fl qi qo A" "in_stream c2 qi = ?s" "out_stream c2 qo = out_stream c qo" "untouched A c c2"
    "measured c2 qi w n" "length header2 = length header"
    using measure_request [OF inv fr z nl room(1) hb] by blast
  note q = request_at_measured [OF m(7), unfolded m(4) Let_def]
  have go: "w \<longrightarrow> ?h + 4 + nat n \<le> length ?s"
    and hdr: "hdr = take ?h ?s" and b: "b = (if w then Some (take (nat n) (drop (?h + 2) ?s)) else None)"
    and rest: "rest = drop (?h + 2 + (if w then nat n + 2 else 0)) ?s"
    using q r by (auto split: if_splits)
  have n: "0 \<le> n" "\<not> w \<longrightarrow> n = 0" using header_body_bounds [OF hb] by auto
  have len: "length hdr = ?h" "w \<longrightarrow> length (take (nat n) (drop (?h + 2) ?s)) = nat n"
    using header_size_less [OF nl] go hdr by auto
  obtain c3 header' c' body' fl' qi' where t: "read_header c2 header2 = ret (c3, header')"
    "(if w then read_body c3 body else ret (c3, body)) = ret (c', body')" "io_is_write (cn_io c3) = w"
    "conn_inv c' fl' qi' qo A" "length fl \<le> length fl'"
    "in_stream c' qi' = drop (?h + 2 + (if w then nat n + 2 else 0)) ?s" "out_stream c' qo = out_stream c qo"
    "untouched A c2 c'" "only_in c2 c'" "length header' = length header" "length body' = length body"
    "holds header' (take ?h ?s)" "if w then holds body' (take (nat n) (drop (?h + 2) ?s)) else body' = body"
    using take_request [OF m(3) fl m(7), of header2 body, unfolded m(4,5,8), OF room go] by blast
  note t = t(1-5) t(6) [folded rest] t(7-11) t(12) [folded hdr] t(13)
  have "next_request c header body = ret (c', header', body', True)"
    using next_request_measured [OF m(1,2,7), of body] go m(4) t(1-3) by simp
  moreover have "taken c' header' body body' hdr b"
    using t(12,13) only_inD [OF t(9)] m(7) len m(4) n b
    by (auto simp: taken_def measured_def Let_def)
  moreover have "framed (fix_buf_len c') qi'"
  proof -
    have l: "io_in_len (cn_io c') = int (length ?s)" "io_header_len (cn_io c') = int ?h"
      "io_is_write (cn_io c') = w" "io_body_len (cn_io c') = n"
      using only_inD [OF t(9)] m(7,4) by (auto simp: measured_def Let_def)
    have "length rest = length ?s - (?h + 2 + (if w then nat n + 2 else 0))" using rest by simp
    then have "max 0 (int (length ?s) - (int ?h + n + (if w then 4 else 2))) = int (length rest)"
      using n go by (cases w) auto
    then show ?thesis
      using t(6) l n by (cases w) (simp_all add: framed_def fix_buf_len_def Let_def max_def split: if_splits)
  qed
  ultimately show ?thesis
    using t(4-7,10,11) untouched_trans [OF m(6) t(8)] by blast
qed

lemma header_body_nil: "header_body [] = ret (False, 0)"
  by (simp add: header_body_def set_format_def cas_format_def cs_def)

lemma next_request_waits:
  assumes inv: "conn_inv c fl qi qo A" and fr: "framed c qi"
    and z: "0 \<notin> set (takeWhile (\<lambda>c. c \<noteq> newline) (in_stream c qi))"
    and room: "header_size (in_stream c qi) + buf_unit < length header"
    and r: "request_at (in_stream c qi) = ret Incomplete"
  shows "\<exists>c' header'. next_request c header body = ret (c', header', body, False) \<and>
    conn_inv c' fl qi qo A \<and> in_stream c' qi = in_stream c qi \<and> out_stream c' qo = out_stream c qo \<and>
    untouched A c c' \<and> framed c' qi \<and> length header' = length header"
proof (cases "newline \<in> set (in_stream c qi)")
  case False
  then have h: "io_header_len (cn_io c) = 0" "io_body_len (cn_io c) = -1" "io_in_len (cn_io c) = int (length (in_stream c qi))"
    using fr by (auto simp: framed_def Let_def)
  obtain c1 where c1: "has_header c = ret (c1, False)" "conn_inv c1 fl qi qo A" "in_stream c1 qi = in_stream c qi"
    "out_stream c1 qo = out_stream c qo" "untouched A c c1" "cn_io c1 = (cn_io c)\<lparr>io_header_len := 0\<rparr>"
    using has_header_ok [OF inv z h(1)] False by auto
  then show ?thesis
    using h by (auto simp: next_request_def framed_def Let_def)
next
  case nl: True
  let ?s = "in_stream c qi" and ?h = "header_size (in_stream c qi)"
  obtain w n where hb: "header_body (take ?h ?s) = ret (w, n)"
    using r nl by (auto simp: request_at_def Let_def run_bind_eq_ret)
  obtain c1 c2 header2 where m: "has_header c = ret (c1, True)" "get_body_len c1 header = ret (c2, header2)"
    "conn_inv c2 fl qi qo A" "in_stream c2 qi = ?s" "out_stream c2 qo = out_stream c qo" "untouched A c c2"
    "measured c2 qi w n" "length header2 = length header"
    using measure_request [OF inv fr z nl room hb] by blast
  have go: "w" "\<not> ?h + 4 + nat n \<le> length ?s"
    using request_at_measured [OF m(7), unfolded m(4) Let_def] r by (auto split: if_splits)
  have "framed c2 qi"
  proof -
    have "?h \<noteq> 0"
    proof
      assume "?h = 0"
      then have "header_body [] = ret (w, n)" using hb by simp
      then show False using go(1) by (simp add: header_body_nil)
    qed
    then show ?thesis
      using m(7,4) go(1) by (simp add: framed_def measured_def Let_def)
  qed
  then show ?thesis
    using next_request_measured [OF m(1,2,7), of body] go m by auto
qed

section \<open>Receiving packets\<close>

text \<open>Packets received one after the other.\<close>

fun recv_all :: "cchar list list \<Rightarrow> conn \<Rightarrow> conn run" where
  "recv_all [] c = ret c"
| "recv_all (p # ps) c = run_bind (append_recv_data c (Some p)) (\<lambda>(c, ct). recv_all ps c)"

lemma new_conn_framed: "framed (new_conn p) []"
  by (simp add: new_conn_def alloc_io_data_def framed_def io_zero_def)

text \<open>The record measures nothing yet.\<close>

definition idle :: "conn \<Rightarrow> bool" where
  "idle c \<longleftrightarrow> io_header_len (cn_io c) = 0 \<and> io_body_len (cn_io c) = -1"

lemma idle_framed:
  "idle c \<Longrightarrow> framed c qi \<longleftrightarrow> io_in_len (cn_io c) = int (length (in_stream c qi))"
  by (auto simp: idle_def framed_def Let_def)

lemma recv_all_ok:
  assumes "conn_inv c fl qi qo A" and "\<forall>p \<in> set ps. length p \<le> buf_unit" and "length ps < length fl"
    and "idle c" and "framed c qi"
  shows "\<exists>c' qi'. recv_all ps c = ret c' \<and> conn_inv c' (drop (length ps) fl) qi' qo A \<and>
    in_stream c' qi' = in_stream c qi @ concat ps \<and> out_stream c' qo = out_stream c qo \<and> untouched A c c' \<and>
    idle c' \<and> framed c' qi'"
  using assms
proof (induction ps arbitrary: c fl qi)
  case Nil
  then show ?case by auto
next
  case (Cons p ps)
  obtain x fl' where fl: "fl = x # fl'" using Cons.prems(3) by (cases fl) auto
  then have "fl' \<noteq> []" using Cons.prems(3) by auto
  note fl = fl this
  obtain c1 where c1: "append_recv_data c (Some p) = ret (c1, int (length p))"
    "conn_inv c1 fl' (qi @ [x]) qo A" "received A c c1 qi (qi @ [x]) qo p"
    using append_recv_data_ok [OF Cons.prems(1) [unfolded fl(1)] fl(2), of p] Cons.prems(2) by auto
  note R = c1(3) [unfolded received_def]
  have "idle c1"
    using Cons.prems(4) only_inD [of "upd_io _ c" c1] R by (auto simp: idle_def)
  moreover have "framed c1 (qi @ [x])"
    using Cons.prems(4,5) idle_framed [OF \<open>idle c1\<close>] idle_framed [OF Cons.prems(4)] only_inD(3) [of "upd_io _ c" c1] R
    by auto
  ultimately obtain c' qi' where "recv_all ps c1 = ret c'" "conn_inv c' (drop (length ps) fl') qi' qo A"
    "in_stream c' qi' = in_stream c1 (qi @ [x]) @ concat ps" "out_stream c' qo = out_stream c1 qo" "untouched A c1 c'"
    "idle c'" "framed c' qi'"
    using Cons.IH [OF c1(2)] Cons.prems(2,3) fl(1) by auto
  then show ?case
    using c1(1) R fl(1) untouched_trans [of A c c1 c'] by (intro exI [of _ c'] exI [of _ qi']) auto
qed

section \<open>Properties\<close>

text \<open>What \<open>next_request\<close> makes of a stream that says \<open>r\<close>.\<close>

definition delivers :: "framing \<Rightarrow> nat list \<Rightarrow> nat set \<Rightarrow> conn \<Rightarrow> cchar list \<Rightarrow> cchar list \<Rightarrow> conn \<Rightarrow>
    cchar list \<Rightarrow> cchar list \<Rightarrow> bool \<Rightarrow> nat list \<Rightarrow> bool" where
  "delivers r qo A c header body c' header' body' ok qi' \<longleftrightarrow>
     out_stream c' qo = out_stream c qo \<and> untouched A c c' \<and>
     (case r of
        Incomplete \<Rightarrow> \<not> ok \<and> framed c' qi'
      | Request hdr b rest \<Rightarrow> ok \<and> in_stream c' qi' = rest \<and> taken c' header' body body' hdr b \<and>
          framed (fix_buf_len c') qi')"

text \<open>
  C25. Requests do not depend on packets: a new connection that receives the packets \<open>ps\<close> hands
  to the command handlers exactly the request that the concatenated bytes start with, header
  and body, and keeps the bytes after it; when the request is not complete it waits.
\<close>

theorem packets_reassembled:
  assumes "0 < n" and "\<forall>p \<in> set ps. length p \<le> buf_unit" and "length ps + 1 < n"
    and "0 \<notin> set (takeWhile (\<lambda>c. c \<noteq> newline) (concat ps))"
    and "header_size (concat ps) + buf_unit < length header" and "1000002 \<le> length body"
    and "request_at (concat ps) = ret r"
  shows "\<exists>p c c' header' body' ok fl' qi'. bp_new True n = ret p \<and> recv_all ps (new_conn p) = ret c \<and>
    next_request c header body = ret (c', header', body', ok) \<and> conn_inv c' fl' qi' [] {} \<and>
    delivers r [] {} c header body c' header' body' ok qi'"
proof -
  obtain p where p: "bp_new True n = ret p" "pool_inv p [0..<n] {}"
    using bp_new_ok [OF assms(1)] by blast
  have len: "length ps < length [0..<n]" using assms(3) by simp
  have "idle (new_conn p)" by (simp add: idle_def new_conn_def alloc_io_data_def)
  then obtain c qi where c: "recv_all ps (new_conn p) = ret c" "conn_inv c (drop (length ps) [0..<n]) qi [] {}"
    "in_stream c qi = concat ps" "framed c qi"
    using recv_all_ok [OF new_conn_ok [OF p(2)] assms(2) len _ new_conn_framed] by auto
  have fl: "drop (length ps) [0..<n] \<noteq> []" using len by simp
  show ?thesis
  proof (cases r)
    case Incomplete
    then show ?thesis
      using next_request_waits [OF c(2,4), of header body] assms(4,5,7) p(1) c(1,3)
      by (fastforce simp: delivers_def)
  next
    case (Request hdr b rest)
    then show ?thesis
      using next_request_complete [OF c(2) fl c(4), of header body hdr b rest] assms(4-7) p(1) c(1,3)
      by (fastforce simp: delivers_def)
  qed
qed

text \<open>A \<open>set\<close> request and the start of the next one, in three packets.\<close>

definition split_set :: "cchar list list" where
  "split_set = [cs ''set a 0'', cs '' 0 2'' @ crlf @ cs ''h'', cs ''i'' @ crlf @ cs ''get'']"

lemma split_set_request:
  "request_at (concat split_set) = ret (Request (cs ''set a 0 0 2'') (Some (cs ''hi'')) (cs ''get''))"
  by code_simp

lemma split_set_ok:
  "\<forall>p \<in> set split_set. length p \<le> buf_unit" "length split_set = 3"
  "0 \<notin> set (takeWhile (\<lambda>c. c \<noteq> newline) (concat split_set))" "header_size (concat split_set) = 11"
  by code_simp+

theorem packets_reassembled_witness:
  "\<exists>p c c' header' body' ok fl' qi'. bp_new True 8 = ret p \<and> recv_all split_set (new_conn p) = ret c \<and>
    next_request c (replicate 1000 0) (replicate 1000002 0) = ret (c', header', body', ok) \<and> conn_inv c' fl' qi' [] {} \<and>
    delivers (Request (cs ''set a 0 0 2'') (Some (cs ''hi'')) (cs ''get'')) [] {} c (replicate 1000 0)
      (replicate 1000002 0) c' header' body' ok qi'"
  by (rule packets_reassembled [OF _ split_set_ok(1) _ split_set_ok(3) _ _ split_set_request])
    (simp_all add: split_set_ok buf_unit_def)

text \<open>
  C26. A header line that does not fit the worker's header buffer (2,000,000 bytes) is copied
  beyond its end: the handler that finds its newline runs into undefined behaviour.
\<close>

theorem long_header_overflows:
  assumes "conn_inv c fl qi qo A" and "framed c qi" and "idle c"
    and "0 \<notin> set (takeWhile (\<lambda>c. c \<noteq> newline) (in_stream c qi))" and "newline \<in> set (in_stream c qi)"
    and "length header \<le> header_size (in_stream c qi)"
  shows "next_request c header body = abort_with Undefined"
proof -
  obtain c1 where c1: "has_header c = ret (c1, True)" "conn_inv c1 fl qi qo A"
    "in_stream c1 qi = in_stream c qi" "cn_io c1 = (cn_io c)\<lparr>io_header_len := int (header_size (in_stream c qi))\<rparr>"
    using has_header_ok [OF assms(1,4)] assms(3,5) by (auto simp: header_size_def idle_def)
  have "qi \<noteq> []" using assms(5) by auto
  then have "get_body_len c1 header = abort_with Undefined"
    using get_body_len_overflow [OF c1(2), of "header_size (in_stream c qi)" header] c1(3,4) assms(3,6)
      header_size_less [OF assms(5)] by (simp add: idle_def)
  then show ?thesis
    using c1(1) by (simp add: next_request_def)
qed

theorem long_header_overflows_witness:
  "\<exists>p c. bp_new True 8 = ret p \<and> recv_all split_set (new_conn p) = ret c \<and>
    next_request c (replicate 4 0) [] = abort_with Undefined"
proof -
  obtain p where p: "bp_new True 8 = ret p" "pool_inv p [0..<8] {}"
    using bp_new_ok [of 8] by auto
  have "idle (new_conn p)" by (simp add: idle_def new_conn_def alloc_io_data_def)
  then obtain c qi where c: "recv_all split_set (new_conn p) = ret c" "conn_inv c (drop 3 [0..<8]) qi [] {}"
    "in_stream c qi = concat split_set" "idle c" "framed c qi"
    using recv_all_ok [OF new_conn_ok [OF p(2)] split_set_ok(1) _ _ new_conn_framed] split_set_ok(2) by auto
  have "newline \<in> set (concat split_set)" by code_simp
  then have "next_request c (replicate 4 0) [] = abort_with Undefined"
    using long_header_overflows [OF c(2,5,4), of "replicate 4 0" "[]"] split_set_ok(3,4) c(3) by simp
  then show ?thesis using p(1) c(1) by auto
qed

text \<open>
  A line that is only a newline, without the carriage return, takes the next byte with it:
  the request after it loses its first character.
\<close>

theorem bare_newline_takes_next:
  assumes "conn_inv c fl qi qo A" and "fl \<noteq> []" and "framed c qi" and "in_stream c qi = newline # x # rest"
    and "buf_unit < length header" and "1000002 \<le> length body"
  shows "\<exists>c' header' body' fl' qi'. next_request c header body = ret (c', header', body', True) \<and>
    holds header' [] \<and> conn_inv c' fl' qi' qo A \<and> in_stream c' qi' = rest"
proof -
  have "request_at (in_stream c qi) = ret (Request [] None rest)" "header_size (in_stream c qi) = 0"
    using assms(4) by (simp_all add: request_at_def header_size_def header_body_nil Let_def)
  then show ?thesis
    using next_request_complete [OF assms(1-3), of header body "[]" None rest] assms(4-6)
    by (auto simp: taken_def)
qed

theorem bare_newline_takes_next_witness:
  "\<exists>p c c' header' body' qi'. bp_new True 8 = ret p \<and> recv_all [[newline], cs ''get a''] (new_conn p) = ret c \<and>
    next_request c (replicate 1000 0) (replicate 1000002 0) = ret (c', header', body', True) \<and>
    in_stream c' qi' = cs ''et a''"
proof -
  obtain p where p: "bp_new True 8 = ret p" "pool_inv p [0..<8] {}"
    using bp_new_ok [of 8] by auto
  have "idle (new_conn p)" by (simp add: idle_def new_conn_def alloc_io_data_def)
  moreover have "\<forall>p \<in> set [[newline], cs ''get a'']. length p \<le> buf_unit" by code_simp
  ultimately obtain c qi where c: "recv_all [[newline], cs ''get a''] (new_conn p) = ret c"
    "conn_inv c (drop 2 [0..<8]) qi [] {}" "in_stream c qi = newline # cs ''get a''" "framed c qi"
    using recv_all_ok [OF new_conn_ok [OF p(2)] _ _ _ new_conn_framed, of "[[newline], cs ''get a'']"] by auto
  have "cs ''get a'' = CC 103 # cs ''et a''" by code_simp
  then show ?thesis
    using bare_newline_takes_next [OF c(2) _ c(4), of "CC 103" "cs ''et a''" "replicate 1000 0" "replicate 1000002 0"]
      c(1,3) p(1) by (auto simp: buf_unit_def)
qed

end
