(* ===== verification/Store.thy ===== *)
theory Store
  imports Framing
begin

text \<open>
  What the server keeps: the index in memory, the data file and the binary log. Integers go to the
  files in the machine's little-endian representation; the codec of a width is a locale, met by
  the 32- and 64-bit integers. A record of the data file is the three integers \<open>body_len\<close>,
  \<open>flag\<close>, \<open>expire\<close> and the body; an entry of the log is the length of the key, the key, and the
  offset of its record, 0 for a deletion. Both files are only appended to.
\<close>

section \<open>Integers in files\<close>

locale codec =
  fixes width :: nat
    and enc :: "'a \<Rightarrow> byte list"
    and dec :: "byte list \<Rightarrow> 'a"
  assumes enc_length: "length (enc x) = width"
    and dec_enc: "dec (enc x) = x"

text \<open>\<open>fread\<close> of one integer: its value and the rest of the file, if there is enough of it.\<close>

definition read_field :: "nat \<Rightarrow> (byte list \<Rightarrow> 'a) \<Rightarrow> byte list \<Rightarrow> ('a \<times> byte list) option" where
  "read_field width dec s = (if width \<le> length s then Some (dec (take width s), drop width s) else None)"

context codec
begin

lemma read_enc: "read_field width dec (enc x @ rest) = Some (x, rest)"
  by (simp add: read_field_def enc_length dec_enc)

lemma read_cut: "length s < width \<Longrightarrow> read_field width dec s = None"
  by (simp add: read_field_def)

lemma enc_inject: "enc x = enc y \<longleftrightarrow> x = y"
  by (metis dec_enc)

end

fun le_bytes :: "nat \<Rightarrow> nat \<Rightarrow> byte list" where
  "le_bytes 0 v = []"
| "le_bytes (Suc n) v = of_nat (v mod 256) # le_bytes n (v div 256)"

fun le_value :: "byte list \<Rightarrow> nat" where
  "le_value [] = 0"
| "le_value (b # bs) = unat b + 256 * le_value bs"

lemma le_bytes_length [simp]: "length (le_bytes n v) = n"
  by (induction n arbitrary: v) auto

lemma le_value_bytes: "v < 256 ^ n \<Longrightarrow> le_value (le_bytes n v) = v"
proof (induction n arbitrary: v)
  case (Suc n)
  then have "v div 256 < 256 ^ n" by (simp add: div_less_iff_less_mult mult.commute)
  moreover have "unat (of_nat (v mod 256) :: byte) = v mod 256"
    by (simp add: unat_of_nat)
  ultimately show ?case using Suc.IH by simp
qed simp

definition enc32 :: "i32 \<Rightarrow> byte list" where
  "enc32 w = le_bytes 4 (unat w)"

definition dec32 :: "byte list \<Rightarrow> i32" where
  "dec32 bs = of_nat (le_value bs)"

definition enc64 :: "u64 \<Rightarrow> byte list" where
  "enc64 w = le_bytes 8 (unat w)"

definition dec64 :: "byte list \<Rightarrow> u64" where
  "dec64 bs = of_nat (le_value bs)"

interpretation int32: codec 4 enc32 dec32
proof
  show "length (enc32 x) = 4" for x by (simp add: enc32_def)
  have "unat x < 256 ^ 4" for x :: i32 using unsigned_less [of x, where ?'a = nat] by simp
  then show "dec32 (enc32 x) = x" for x by (simp add: enc32_def dec32_def le_value_bytes)
qed

interpretation uint64: codec 8 enc64 dec64
proof
  show "length (enc64 x) = 8" for x by (simp add: enc64_def)
  have "unat x < 256 ^ 8" for x :: u64 using unsigned_less [of x, where ?'a = nat] by simp
  then show "dec64 (enc64 x) = x" for x by (simp add: enc64_def dec64_def le_value_bytes)
qed

section \<open>The store\<close>

text \<open>\<open>st_vbuf\<close> is the worker's row of \<open>g_value_buf\<close>, which keeps its bytes between requests.\<close>

record store =
  st_tst :: tst_db
  st_data :: "byte list"
  st_log :: "byte list"
  st_vbuf :: "cchar list"

text \<open>
  A record at the end of the data file; the offset is what \<open>ftell\<close> gives before. \<open>body\<close> is what
  \<open>fwrite\<close> reads from the caller's array.
\<close>

definition record_bytes :: "i32 \<Rightarrow> i32 \<Rightarrow> i32 \<Rightarrow> cchar list \<Rightarrow> byte list" where
  "record_bytes body_len flag expire body =
     enc32 body_len @ enc32 flag @ enc32 expire @ map cc_byte body"

definition write_record :: "store \<Rightarrow> i32 \<Rightarrow> i32 \<Rightarrow> i32 \<Rightarrow> cchar list \<Rightarrow> store \<times> u64" where
  "write_record st body_len flag expire body =
     (let value_offset = of_nat (length (st_data st)) in
      (st\<lparr>st_data := st_data st @ record_bytes body_len flag expire body\<rparr>, value_offset))"

definition log_entry :: "cstr \<Rightarrow> u64 \<Rightarrow> byte list" where
  "log_entry key value_offset = enc32 (of_nat (length key)) @ map cc_byte key @ enc64 value_offset"

definition write_log :: "store \<Rightarrow> cstr \<Rightarrow> u64 \<Rightarrow> store" where
  "write_log st key value_offset = st\<lparr>st_log := st_log st @ log_entry key value_offset\<rparr>"

definition index_put :: "(u64 \<Rightarrow> bool) \<Rightarrow> store \<Rightarrow> cstr \<Rightarrow> u64 \<Rightarrow> store run" where
  "index_put rl st key v = run_bind (tst_put rl (st_tst st) key v) (\<lambda>db. ret (st\<lparr>st_tst := db\<rparr>))"

definition index_delete :: "store \<Rightarrow> cstr \<Rightarrow> store run" where
  "index_delete st key = run_bind (tst_delete (st_tst st) key) (\<lambda>db. ret (st\<lparr>st_tst := db\<rparr>))"

text \<open>What \<open>set\<close>, \<open>cas\<close> and \<open>incr\<close> do with a value: record, log entry, index.\<close>

definition store_value ::
  "(u64 \<Rightarrow> bool) \<Rightarrow> store \<Rightarrow> cstr \<Rightarrow> i32 \<Rightarrow> i32 \<Rightarrow> i32 \<Rightarrow> cchar list \<Rightarrow> store run"
where
  "store_value rl st key body_len flag expire body =
     (let (st, value_offset) = write_record st body_len flag expire body;
          st = write_log st key value_offset in
      index_put rl st key value_offset)"

text \<open>What \<open>delete\<close> and the removal of an expired value do: log entry with offset 0, index.\<close>

definition store_delete :: "store \<Rightarrow> cstr \<Rightarrow> store run" where
  "store_delete st key = index_delete (write_log st key 0) key"

text \<open>
  \<open>fseek\<close> and \<open>fread(tmp, sizeof(int), 3)\<close>. A read that ends at the end of the file leaves the
  local array as it was, which the model does not follow: it is \<open>Undefined\<close>.
\<close>

definition read_ints :: "store \<Rightarrow> u64 \<Rightarrow> (i32 \<times> i32 \<times> i32) run" where
  "read_ints st value_offset =
     (let s = drop (unat value_offset) (st_data st) in
      if 12 \<le> length s
      then ret (dec32 (take 4 s), dec32 (take 4 (drop 4 s)), dec32 (take 4 (drop 8 s)))
      else abort_with Undefined)"

text \<open>\<open>fread\<close> of the body after them: fewer bytes at the end of the file.\<close>

definition read_body_bytes :: "store \<Rightarrow> u64 \<Rightarrow> nat \<Rightarrow> cchar list" where
  "read_body_bytes st value_offset n = map CC (take n (drop (unat value_offset + 12) (st_data st)))"

section \<open>What the store says\<close>

text \<open>The value of a key: its flag, time of expiry and body.\<close>

type_synonym item = "i32 \<times> i32 \<times> cchar list"

definition item_at :: "byte list \<Rightarrow> nat \<Rightarrow> item option" where
  "item_at data off =
     (let s = drop off data; n = dec32 (take 4 s) in
      if 12 \<le> length s \<and> 0 \<le> sint n \<and> 12 + nat (sint n) \<le> length s
      then Some (dec32 (take 4 (drop 4 s)), dec32 (take 4 (drop 8 s)), map CC (take (nat (sint n)) (drop 12 s)))
      else None)"

definition offset_of :: "store \<Rightarrow> cstr \<Rightarrow> u64" where
  "offset_of st key = view tst_get (st_tst st) key"

definition item_of :: "store \<Rightarrow> cstr \<Rightarrow> item option" where
  "item_of st key = (if offset_of st key = 0 then None else item_at (st_data st) (unat (offset_of st key)))"

text \<open>
  The index is sound, and each offset in it is that of a whole record of the data file, which
  starts with the six bytes that keep offset 0 free.
\<close>

definition store_inv :: "store \<Rightarrow> bool" where
  "store_inv st \<longleftrightarrow> tst_linked (st_tst st) \<and> 0 < length (st_data st) \<and>
     (\<forall>key. offset_of st key \<noteq> 0 \<longrightarrow> item_at (st_data st) (unat (offset_of st key)) \<noteq> None)"

lemma item_at_append: "item_at data off \<noteq> None \<Longrightarrow> item_at (data @ rest) off = item_at data off"
  by (auto simp: item_at_def Let_def split: if_splits)

lemma item_at_end:
  assumes "nat (sint body_len) = length body" and "0 \<le> sint body_len"
  shows "item_at (data @ record_bytes body_len flag expire body @ rest) (length data) = Some (flag, expire, body)"
  using assms by (simp add: item_at_def record_bytes_def Let_def int32.enc_length int32.dec_enc comp_def)

text \<open>The two reads of \<open>cmd_do_get\<close> give the item.\<close>

lemma read_item_at:
  assumes "item_at (st_data st) (unat off) = Some (flag, expire, body)"
  shows "read_ints st off = ret (of_nat (length body), flag, expire)"
    and "read_body_bytes st off (length body) = body" and "nat (sint (of_nat (length body) :: i32)) = length body"
    and "0 \<le> sint (of_nat (length body) :: i32)"
proof -
  let ?s = "drop (unat off) (st_data st)"
  let ?n = "dec32 (take 4 ?s)"
  have i: "12 \<le> length ?s" "0 \<le> sint ?n" "12 + nat (sint ?n) \<le> length ?s" "flag = dec32 (take 4 (drop 4 ?s))"
    "expire = dec32 (take 4 (drop 8 ?s))" "body = map CC (take (nat (sint ?n)) (drop 12 ?s))"
    using assms by (auto simp: item_at_def Let_def split: if_splits)
  then have l: "length body = nat (sint ?n)" by auto
  have n: "(of_nat (length body) :: i32) = ?n"
    unfolding l using i(2) by simp
  show "read_ints st off = ret (of_nat (length body), flag, expire)"
    unfolding n using i by (simp add: read_ints_def Let_def)
  show "read_body_bytes st off (length body) = body"
    using i(6) l by (simp add: read_body_bytes_def add.commute)
  show "nat (sint (of_nat (length body) :: i32)) = length body" "0 \<le> sint (of_nat (length body) :: i32)"
    unfolding n using l i(2) by simp_all
qed

section \<open>The contract of the store\<close>

text \<open>
  A map from keys to items. \<open>can s key it\<close>: there is room for the item; \<open>safe s key\<close>: the key
  can be removed without harm to later removals.
\<close>

locale item_store =
  fixes inv :: "'s \<Rightarrow> bool"
    and item :: "'s \<Rightarrow> cstr \<Rightarrow> item option"
    and can :: "'s \<Rightarrow> cstr \<Rightarrow> item \<Rightarrow> bool"
    and safe :: "'s \<Rightarrow> cstr \<Rightarrow> bool"
    and put :: "'s \<Rightarrow> cstr \<Rightarrow> item \<Rightarrow> 's run"
    and rem :: "'s \<Rightarrow> cstr \<Rightarrow> 's run"
  assumes put_law: "\<lbrakk>inv s; word_ok key; can s key it\<rbrakk> \<Longrightarrow>
      \<exists>s'. put s key it = ret s' \<and> inv s' \<and> item s' = (item s)(key \<mapsto> it)"
    and rem_law: "\<lbrakk>inv s; safe s key\<rbrakk> \<Longrightarrow>
      \<exists>s'. rem s key = ret s' \<and> inv s' \<and> item s' = (item s)(key := None)"
begin

lemma put_then_rem:
  assumes "inv s" and "word_ok key" and "can s key it" and "\<And>s'. put s key it = ret s' \<Longrightarrow> safe s' key"
  obtains s1 s2 where "put s key it = ret s1" and "rem s1 key = ret s2" and "inv s2"
    and "item s2 = (item s)(key := None)"
proof -
  obtain s1 where s1: "put s key it = ret s1" "inv s1" "item s1 = (item s)(key \<mapsto> it)"
    using put_law [OF assms(1-3)] by blast
  then obtain s2 where "rem s1 key = ret s2" "inv s2" "item s2 = (item s1)(key := None)"
    using rem_law [OF s1(2) assms(4) [OF s1(1)]] by blast
  then show thesis using that [OF s1(1)] s1(3) by simp
qed

lemma put_twice:
  assumes "inv s" and "word_ok key" and "can s key it" and "\<And>s'. put s key it = ret s' \<Longrightarrow> can s' key it'"
  obtains s1 s2 where "put s key it = ret s1" and "put s1 key it' = ret s2" and "inv s2"
    and "item s2 = (item s)(key \<mapsto> it')"
proof -
  obtain s1 where s1: "put s key it = ret s1" "inv s1" "item s1 = (item s)(key \<mapsto> it)"
    using put_law [OF assms(1-3)] by blast
  then obtain s2 where "put s1 key it' = ret s2" "inv s2" "item s2 = (item s1)(key \<mapsto> it')"
    using put_law [OF s1(2) assms(2) assms(4) [OF s1(1)]] by blast
  then show thesis using that [OF s1(1)] s1(3) by simp
qed

end

definition put_item :: "(u64 \<Rightarrow> bool) \<Rightarrow> store \<Rightarrow> cstr \<Rightarrow> item \<Rightarrow> store run" where
  "put_item rl st key it =
     (case it of (flag, expire, body) \<Rightarrow> store_value rl st key (of_nat (length body)) flag expire body)"

text \<open>The body's length is an \<open>int\<close>; index and offsets stay in their ranges.\<close>

definition item_fits :: "(u64 \<Rightarrow> bool) \<Rightarrow> store \<Rightarrow> cstr \<Rightarrow> item \<Rightarrow> bool" where
  "item_fits rl st key it \<longleftrightarrow>
     room rl (st_tst st) (length key) \<and> length (snd (snd it)) < 2 ^ 31 \<and> length (st_data st) < 2 ^ 64"

definition key_safe :: "store \<Rightarrow> cstr \<Rightarrow> bool" where
  "key_safe st key \<longleftrightarrow> tst_clean (st_tst st) key"

lemma len_of_nat: "n < 2 ^ 31 \<Longrightarrow> nat (sint (of_nat n :: i32)) = n \<and> 0 \<le> sint (of_nat n :: i32)"
  by (simp add: signed_of_nat signed_take_bit_int_eq_self)

lemma item_of_put:
  assumes "offset_of st' = (offset_of st)(key := off)" and "st_data st' = st_data st @ new"
    and "off \<noteq> 0" and "item_at (st_data st') (unat off) = Some it"
    and "\<And>k. offset_of st k \<noteq> 0 \<Longrightarrow> item_at (st_data st) (unat (offset_of st k)) \<noteq> None"
  shows "item_of st' = (item_of st)(key \<mapsto> it)"
proof
  fix k
  show "item_of st' k = ((item_of st)(key \<mapsto> it)) k"
    using assms by (cases "k = key") (simp_all add: item_of_def item_at_append)
qed

lemma store_value_ok:
  assumes inv: "store_inv st" and key: "word_ok key"
    and fits: "room rl (st_tst st) (length key)" "length (st_data st) < 2 ^ 64"
    and len: "nat (sint body_len) = length body" "0 \<le> sint body_len"
  shows "\<exists>st'. store_value rl st key body_len flag expire body = ret st' \<and> store_inv st' \<and>
    item_of st' = (item_of st)(key \<mapsto> (flag, expire, body)) \<and>
    offset_of st' = (offset_of st)(key := of_nat (length (st_data st))) \<and>
    st_data st' = st_data st @ record_bytes body_len flag expire body \<and>
    st_log st' = st_log st @ log_entry key (of_nat (length (st_data st))) \<and> st_vbuf st' = st_vbuf st"
proof -
  let ?off = "of_nat (length (st_data st)) :: u64"
  note I = inv [unfolded store_inv_def]
  have k: "key \<noteq> []" "0 \<notin> set key" using key by (auto simp: word_ok_def list_all_iff)
  have off: "unat ?off = length (st_data st)"
    using fits(2) by (simp add: unat_of_nat take_bit_nat_eq_self)
  with I have "?off \<noteq> 0" by auto
  note off = off this
  obtain db where db: "tst_put rl (st_tst st) key ?off = ret db" "tst_linked db"
    "view tst_get db = (view tst_get (st_tst st))(key := ?off)"
    using node_array.put_law [of "st_tst st" rl key 0 ?off] I fits(1) k node_array.linked_wf by auto
  let ?st = "(write_log (fst (write_record st body_len flag expire body)) key ?off)\<lparr>st_tst := db\<rparr>"
  have run: "store_value rl st key body_len flag expire body = ret ?st"
    using db(1) by (simp add: store_value_def write_record_def write_log_def index_put_def Let_def)
  have d: "st_data ?st = st_data st @ record_bytes body_len flag expire body"
    by (simp add: write_record_def write_log_def Let_def)
  have o: "offset_of ?st = (offset_of st)(key := ?off)"
    using db(3) by (simp add: offset_of_def fun_eq_iff)
  have it: "item_at (st_data ?st) (unat ?off) = Some (flag, expire, body)"
    using item_at_end [OF len, of "st_data st" flag expire "[]"] unfolding d off(1) by simp
  have item: "item_of ?st = (item_of st)(key \<mapsto> (flag, expire, body))"
    by (rule item_of_put [OF o d off(2) it]) (use I in blast)
  have "item_at (st_data ?st) (unat (offset_of ?st k)) \<noteq> None" if "offset_of ?st k \<noteq> 0" for k
  proof (cases "k = key")
    case True
    then show ?thesis using it o by simp
  next
    case False
    then have "offset_of ?st k = offset_of st k" using o by simp
    then show ?thesis using I that d item_at_append by metis
  qed
  then have "store_inv ?st"
    using db(2) d I by (simp add: store_inv_def)
  then show ?thesis
    using run item o d by (intro exI [of _ ?st]) (simp add: write_log_def write_record_def Let_def)
qed

lemma store_value_room:
  assumes "store_inv st" and "word_ok key" and "store_value rl st key body_len flag expire body = ret st'"
    and "room rl (st_tst st) (length key + n)"
  shows "room rl (st_tst st') n"
proof -
  have k: "key \<noteq> []" "0 \<notin> set key" using assms(2) by (auto simp: word_ok_def list_all_iff)
  have "tst_put rl (st_tst st) key (of_nat (length (st_data st))) = ret (st_tst st')"
    using assms(3)
    by (auto simp: store_value_def write_record_def write_log_def index_put_def Let_def run_bind_eq_ret)
  then show ?thesis
    using node_array.put_law [of "st_tst st" rl key n "of_nat (length (st_data st))"] assms(1,4) k
      node_array.linked_wf by (auto simp: store_inv_def)
qed

lemma store_delete_ok:
  assumes inv: "store_inv st" and safe: "tst_clean (st_tst st) key"
  shows "\<exists>st'. store_delete st key = ret st' \<and> store_inv st' \<and> item_of st' = (item_of st)(key := None) \<and>
    offset_of st' = (offset_of st)(key := 0) \<and> st_data st' = st_data st \<and>
    st_log st' = st_log st @ log_entry key 0 \<and> st_vbuf st' = st_vbuf st"
proof -
  note I = inv [unfolded store_inv_def]
  obtain db where db: "tst_delete (st_tst st) key = ret db" "tst_linked db"
    "view tst_get db = (view tst_get (st_tst st))(key := 0)"
    using node_array.rem_law [of "st_tst st" key] I safe by blast
  let ?st = "(write_log st key 0)\<lparr>st_tst := db\<rparr>"
  have run: "store_delete st key = ret ?st"
    using db(1) by (simp add: store_delete_def write_log_def index_delete_def)
  have o: "offset_of ?st = (offset_of st)(key := 0)"
    using db(3) by (simp add: offset_of_def fun_eq_iff)
  then have "item_of ?st = (item_of st)(key := None)"
    by (auto simp: item_of_def write_log_def fun_eq_iff)
  moreover have "store_inv ?st"
    using I db(2) o by (auto simp: store_inv_def write_log_def)
  ultimately show ?thesis
    using run o by (intro exI [of _ ?st]) (simp add: write_log_def)
qed

interpretation items: item_store store_inv item_of "item_fits rl" key_safe "put_item rl" store_delete
  for rl
proof
  fix st key and it :: item
  assume a: "store_inv st" "word_ok key" "item_fits rl st key it"
  obtain flag expire body where it: "it = (flag, expire, body)" by (cases it)
  show "\<exists>st'. put_item rl st key it = ret st' \<and> store_inv st' \<and> item_of st' = (item_of st)(key \<mapsto> it)"
    using store_value_ok [OF a(1,2), of rl "of_nat (length body)" body flag expire] a(3) it
      len_of_nat [of "length body"] by (auto simp: put_item_def item_fits_def)
next
  fix st key
  assume "store_inv st" "key_safe st key"
  then show "\<exists>st'. store_delete st key = ret st' \<and> store_inv st' \<and> item_of st' = (item_of st)(key := None)"
    using store_delete_ok [of st key] by (auto simp: key_safe_def)
qed

text \<open>Before the first request: an empty index and the six bytes \<open>init_data\<close> writes.\<close>

definition start_store :: "nat \<Rightarrow> store" where
  "start_store vsize = \<lparr>st_tst = create_tst_db (\<lambda>_. zero_node), st_data = map cc_byte (cs ''[2012]''), st_log = [],
     st_vbuf = replicate vsize 0\<rparr>"

lemma start_store_ok:
  "store_inv (start_store n)" "offset_of (start_store n) key = 0" "item_of (start_store n) key = None"
  "k < 2 ^ 31 \<Longrightarrow> room (\<lambda>_. True) (st_tst (start_store n)) k" "length (st_data (start_store n)) = 6"
proof -
  let ?db = "create_tst_db (\<lambda>_. zero_node)"
  have "view tst_get ?db key = 0" for key
    using create_tst_db_get [of key "\<lambda>_. zero_node"] by (cases "key = []") (simp_all add: view_def zero_node_def tst_get_def)
  then show o: "offset_of (start_store n) key = 0" for key
    by (simp add: offset_of_def start_store_def)
  then show "item_of (start_store n) key = None" "store_inv (start_store n)"
    using fresh_linked by (auto simp: item_of_def store_inv_def start_store_def cs_def)
  show "k < 2 ^ 31 \<Longrightarrow> room (\<lambda>_. True) (st_tst (start_store n)) k" "length (st_data (start_store n)) = 6"
    using fresh_room by (auto simp: start_store_def cs_def)
qed

end
