(* ===== verification/Cmd_Process.thy ===== *)
theory Cmd_Process
  imports Store
begin

text \<open>
  The command handlers of \<open>v2/src/cmd_process.c\<close>. A handler gets the header buffer of the worker
  (and the body buffer), changes the store and appends its reply to the connection. Handlers run
  whole: the writer lock keeps changes apart, and a reader sees the index between two changes.
  The clock is an argument, \<open>now\<close>, one reading per request. \<open>header\<close> is a buffer with a C string
  in it, not the string: \<open>cmd_do_get\<close> walks in it by pointer.
\<close>

section \<open>Sizes and texts\<close>

definition header_buf_size :: nat where
  "header_buf_size = 512"

definition max_prefix_result :: int where
  "max_prefix_result = 10000"

definition prefix_buf_size :: nat where
  "prefix_buf_size = 2560000"

definition ends_with :: "cstr \<Rightarrow> cstr \<Rightarrow> bool" where
  "ends_with s1 s2 \<longleftrightarrow>
     (let len_s2 = length s2; len_s1 = length s1 in
      if len_s1 < len_s2 then False else drop (len_s1 - len_s2) s1 = s2)"

definition space :: cchar where
  "space = CC 32"

definition text_line :: "string \<Rightarrow> cstr" where
  "text_line s = cs s @ crlf"

section \<open>Range queries\<close>

text \<open>The three handlers answer alike: the header of the reply, the keys, and the end.\<close>

definition send_keys :: "conn \<Rightarrow> cstr \<times> int \<Rightarrow> conn run" where
  "send_keys c out =
     (case out of (result, result_size) \<Rightarrow>
      let result_bytes_len = length result;
          rsps_header = cs ''KEYS '' @ print_int result_size @ cs '' '' @ print_int (int result_bytes_len) @ crlf in
      run_bind (append_send_data c rsps_header) (\<lambda>c.
      run_bind (append_send_data c result) (\<lambda>c.
      append_send_data c (text_line ''END''))))"

definition clamp_limit :: "i32 \<Rightarrow> int" where
  "clamp_limit limit = (if max_prefix_result < sint limit then max_prefix_result else sint limit)"

definition prefix_format :: "directive list" where
  "prefix_format = [Lit (cs ''prefix''), Ws, Str max_key_size, Ws, Dec, Ws, Str 10]"

definition cmd_do_prefix :: "store \<Rightarrow> conn \<Rightarrow> cchar list \<Rightarrow> conn run" where
  "cmd_do_prefix st c header =
     run_bind (cstr_of header) (\<lambda>h.
     run_bind (sscanf prefix_format h) (\<lambda>as.
     if length as = 3
     then let pref = arg_str (as ! 0); limit = clamp_limit (arg_int (as ! 1));
              asc = (arg_str (as ! 2) = cs ''asc'') in
          run_bind (tst_prefix (st_tst st) prefix_buf_size pref ([], 0) limit asc) (send_keys c)
     else append_send_data c (text_line ''ERROR'')))"

definition less_format :: "directive list" where
  "less_format = [Lit (cs ''less''), Ws, Str max_key_size, Ws, Dec]"

definition cmd_do_less :: "store \<Rightarrow> conn \<Rightarrow> cchar list \<Rightarrow> conn run" where
  "cmd_do_less st c header =
     run_bind (cstr_of header) (\<lambda>h.
     run_bind (sscanf less_format h) (\<lambda>as.
     if length as = 2
     then run_bind (tst_less (st_tst st) prefix_buf_size (arg_str (as ! 0)) ([], 0)
            (clamp_limit (arg_int (as ! 1)))) (send_keys c)
     else append_send_data c (text_line ''ERROR'')))"

definition greater_format :: "directive list" where
  "greater_format = [Lit (cs ''greater''), Ws, Str max_key_size, Ws, Dec]"

definition cmd_do_greater :: "store \<Rightarrow> conn \<Rightarrow> cchar list \<Rightarrow> conn run" where
  "cmd_do_greater st c header =
     run_bind (cstr_of header) (\<lambda>h.
     run_bind (sscanf greater_format h) (\<lambda>as.
     if length as = 2
     then run_bind (tst_greater (st_tst st) prefix_buf_size (arg_str (as ! 0)) ([], 0)
            (clamp_limit (arg_int (as ! 1)))) (send_keys c)
     else append_send_data c (text_line ''ERROR'')))"

section \<open>Lookups\<close>

definition delete_expire_value :: "store \<Rightarrow> cstr \<Rightarrow> store run" where
  "delete_expire_value st key = store_delete st key"

text \<open>\<open>expire\<close> is 0 for an item that stays; the time is cut to an \<open>int\<close>.\<close>

definition expired :: "int \<Rightarrow> i32 \<Rightarrow> bool" where
  "expired now expire \<longleftrightarrow> 0 < sint expire \<and> sint expire \<le> sint (word_of_int now :: i32)"

definition value_line :: "bool \<Rightarrow> cstr \<Rightarrow> i32 \<Rightarrow> i32 \<Rightarrow> u64 \<Rightarrow> cstr" where
  "value_line sign key flag body_len value_offset =
     cs ''VALUE '' @ key @ cs '' '' @ print_int (sint flag) @ cs '' '' @ print_int (sint body_len) @
     (if sign then cs '' '' @ print_int (uint value_offset) else []) @ crlf"

definition get_value ::
  "int \<Rightarrow> bool \<Rightarrow> store \<Rightarrow> cstr \<Rightarrow> u64 \<Rightarrow> nat \<Rightarrow> (store \<times> nat) run"
where
  "get_value now sign st key value_offset tot =
     run_bind (read_ints st value_offset) (\<lambda>(body_len, flag, expire).
     run_bind (if expired now expire then delete_expire_value st key else ret st) (\<lambda>st.
     let body_len = (if expired now expire then -1 else body_len) in
     if 0 \<le> sint body_len
     then let line = value_line sign key flag body_len value_offset in
          run_bind (mem_put (st_vbuf st) (int tot) (line @ [0])) (\<lambda>vb.
          let tot = tot + length line in
          run_bind (mem_put vb (int tot) (read_body_bytes st value_offset (nat (sint body_len)))) (\<lambda>vb.
          let tot = tot + nat (sint body_len) in
          run_bind (mem_put vb (int tot) crlf) (\<lambda>vb.
          ret (st\<lparr>st_vbuf := vb\<rparr>, tot + length crlf))))
     else ret (st, tot)))"

partial_function (option) get_loop ::
  "int \<Rightarrow> bool \<Rightarrow> cchar list \<Rightarrow> store \<Rightarrow> nat \<Rightarrow> nat \<Rightarrow> (store \<times> nat) run"
where
  "get_loop now sign header st ptr tot =
     run_bind (cstr_of (drop ptr header)) (\<lambda>s.
     let key = takeWhile (\<lambda>c. c \<noteq> space) s; span = length key in
     if max_key_size \<le> span then abort_with Undefined
     else
       run_bind (tst_get (st_tst st) key) (\<lambda>value_offset.
       run_bind (mem_put (st_vbuf st) (int tot) [0]) (\<lambda>vb.
       let st = st\<lparr>st_vbuf := vb\<rparr> in
       run_bind (if 0 < value_offset then get_value now sign st key value_offset tot else ret (st, tot))
         (\<lambda>(st, tot).
       if span = length s then ret (st, tot)
       else get_loop now sign header st (ptr + span + 1) tot))))"

definition cmd_do_get :: "int \<Rightarrow> bool \<Rightarrow> store \<Rightarrow> conn \<Rightarrow> cchar list \<Rightarrow> (store \<times> conn) run" where
  "cmd_do_get now sign st c header =
     run_bind (cstr_of header) (\<lambda>h.
     let ptr = length (takeWhile (\<lambda>c. c \<noteq> space) h) + 1 in
     run_bind (get_loop now sign header st ptr 0) (\<lambda>(st, tot).
     run_bind (mem_put (st_vbuf st) (int tot) (text_line ''END'')) (\<lambda>vb.
     let st = st\<lparr>st_vbuf := vb\<rparr> in
     run_bind (append_send_data c (take (tot + length (text_line ''END'')) vb)) (\<lambda>c.
     ret (st, c)))))"

section \<open>Changes\<close>

definition cmd_cas_format :: "directive list" where
  "cmd_cas_format = [Str header_buf_size, Ws, Str max_key_size, Ws, Dec, Ws, Dec, Ws, Dec, Ws, Ull]"

definition reply_unless_noreply :: "conn \<Rightarrow> cstr \<Rightarrow> cstr \<Rightarrow> conn run" where
  "reply_unless_noreply c header msg =
     (if \<not> ends_with header (cs '' noreply'') then append_send_data c msg else ret c)"

text \<open>\<open>fwrite(body, 1, body_len)\<close> reads the body buffer of the worker.\<close>

definition cmd_do_cas ::
  "(u64 \<Rightarrow> bool) \<Rightarrow> store \<Rightarrow> conn \<Rightarrow> cchar list \<Rightarrow> cchar list \<Rightarrow> (store \<times> conn) run"
where
  "cmd_do_cas rl st c header body =
     run_bind (cstr_of header) (\<lambda>h.
     run_bind (sscanf cmd_cas_format h) (\<lambda>as.
     if length as < 6 then ret (st, c)
     else
       let key = arg_str (as ! 1); flag = arg_int (as ! 2); expire = arg_int (as ! 3);
           body_len = arg_int (as ! 4); sign = arg_ull (as ! 5) in
       if sint body_len < 0 then ret (st, c)
       else
         run_bind (tst_get (st_tst st) key) (\<lambda>value_offset.
         run_bind
           (if value_offset \<noteq> sign then ret (st, text_line ''EXISTS'')
            else
              run_bind (mem_get body 0 (sint body_len)) (\<lambda>bytes.
              run_bind (store_value rl st key body_len flag expire bytes) (\<lambda>st.
              ret (st, text_line ''STORED'')))) (\<lambda>(st, msg).
         run_bind (reply_unless_noreply c h msg) (\<lambda>c. ret (st, c))))))"

definition cmd_set_format :: "directive list" where
  "cmd_set_format = [Str header_buf_size, Ws, Str max_key_size, Ws, Dec, Ws, Dec, Ws, Dec]"

definition cmd_do_set ::
  "(u64 \<Rightarrow> bool) \<Rightarrow> int \<Rightarrow> store \<Rightarrow> conn \<Rightarrow> cchar list \<Rightarrow> cchar list \<Rightarrow> (store \<times> conn) run"
where
  "cmd_do_set rl now st c header body =
     run_bind (cstr_of header) (\<lambda>h.
     run_bind (sscanf cmd_set_format h) (\<lambda>as.
     if length as < 5 then ret (st, c)
     else
       let key = arg_str (as ! 1); flag = arg_int (as ! 2); expire = arg_int (as ! 3);
           body_len = arg_int (as ! 4) in
       if sint body_len < 0 then ret (st, c)
       else
         let expire = (if 0 < sint expire then word_of_int (sint expire + now) else expire) in
         run_bind (mem_get body 0 (sint body_len)) (\<lambda>bytes.
         run_bind (store_value rl st key body_len flag expire bytes) (\<lambda>st.
         run_bind (reply_unless_noreply c h (text_line ''STORED'')) (\<lambda>c. ret (st, c))))))"

definition key_format :: "directive list" where
  "key_format = [Str header_buf_size, Ws, Str max_key_size]"

definition cmd_do_delete :: "store \<Rightarrow> conn \<Rightarrow> cchar list \<Rightarrow> (store \<times> conn) run" where
  "cmd_do_delete st c header =
     run_bind (cstr_of header) (\<lambda>h.
     run_bind (sscanf key_format h) (\<lambda>as.
     if length as \<noteq> 2 then ret (st, c)
     else
       let key = arg_str (as ! 1) in
       run_bind (tst_get (st_tst st) key) (\<lambda>value_offset.
       run_bind
         (if value_offset = 0 then ret (st, text_line ''NOT_FOUND'')
          else run_bind (store_delete st key) (\<lambda>st. ret (st, text_line ''DELETED''))) (\<lambda>(st, msg).
       run_bind (append_send_data c msg) (\<lambda>c. ret (st, c))))))"

definition incr_format :: "directive list" where
  "incr_format = [Str header_buf_size, Ws, Str max_key_size, Ws, Dec]"

text \<open>A sum outside the range of \<open>int\<close> is undefined in C.\<close>

definition int_result :: "int \<Rightarrow> i32 run" where
  "int_result z = (if - (2 ^ 31) \<le> z \<and> z < 2 ^ 31 then ret (word_of_int z) else abort_with Undefined)"

definition incr_or_decr ::
  "(u64 \<Rightarrow> bool) \<Rightarrow> store \<Rightarrow> conn \<Rightarrow> cchar list \<Rightarrow> bool \<Rightarrow> (store \<times> conn) run"
where
  "incr_or_decr rl st c header is_decr =
     run_bind (cstr_of header) (\<lambda>h.
     run_bind (sscanf incr_format h) (\<lambda>as.
     if length as \<noteq> 3 then ret (st, c)
     else
       let key = arg_str (as ! 1); delta = arg_int (as ! 2) in
       run_bind (tst_get (st_tst st) key) (\<lambda>value_offset.
       run_bind
         (if value_offset = 0 then ret (st, text_line ''NOT_FOUND'')
          else
            run_bind (read_ints st value_offset) (\<lambda>(body_len, flag, expire).
            if sint body_len < 0 then abort_with Undefined
            else
            run_bind (mem_put (replicate header_buf_size 0) 0
              (read_body_bytes st value_offset (nat (sint body_len)))) (\<lambda>str_number.
            run_bind (cstr_of str_number) (\<lambda>s.
            run_bind (int_result (if is_decr then sint (atoi s) - sint delta else sint (atoi s) + sint delta))
              (\<lambda>number.
            let str_number = print_int (sint number) in
            run_bind (store_value rl st key (of_nat (length str_number)) flag expire str_number) (\<lambda>st.
            ret (st, str_number @ crlf))))))) (\<lambda>(st, msg).
       run_bind (append_send_data c msg) (\<lambda>c. ret (st, c))))))"

definition cmd_do_incr :: "(u64 \<Rightarrow> bool) \<Rightarrow> store \<Rightarrow> conn \<Rightarrow> cchar list \<Rightarrow> (store \<times> conn) run" where
  "cmd_do_incr rl st c header = incr_or_decr rl st c header False"

definition cmd_do_decr :: "(u64 \<Rightarrow> bool) \<Rightarrow> store \<Rightarrow> conn \<Rightarrow> cchar list \<Rightarrow> (store \<times> conn) run" where
  "cmd_do_decr rl st c header = incr_or_decr rl st c header True"

end
