(* ===== verification/Cmd_Ok.thy ===== *)
theory Cmd_Ok
  imports Cmd_Process
begin

text \<open>
  What the command handlers do, on every branch: the replies, and the store as a map from keys to
  items.
\<close>

section \<open>Requests\<close>

lemma cstr_of_holds: "holds buf s \<Longrightarrow> 0 \<notin> set s \<Longrightarrow> cstr_of buf = ret s"
proof -
  assume h: "holds buf s" "0 \<notin> set s"
  have n: "length s < length buf" using h(1) by (rule holds_len)
  have t: "take (length s) buf = s"
    using h(1) unfolding holds_def by (metis append_eq_conv_conj butlast_take diff_Suc_1 butlast_snoc n Suc_leI)
  have "buf ! length s = 0"
    using h(1) n unfolding holds_def by (metis lessI nth_append_length nth_take)
  moreover have "buf ! i \<noteq> 0" if "i < length s" for i
    using that t h(2) by (metis nth_mem nth_take)
  ultimately have "cstr_of buf = ret (take (length s) buf)"
    by (rule cstr_of_terminated [OF n])
  then show ?thesis using t by simp
qed

lemma mem_get_holds: "holds buf s \<Longrightarrow> mem_get buf 0 (int (length s)) = ret s"
proof -
  assume h: "holds buf s"
  have n: "length s < length buf" using h by (rule holds_len)
  have "take (length s) buf = s"
    using h unfolding holds_def by (metis append_eq_conv_conj butlast_take diff_Suc_1 butlast_snoc n Suc_leI)
  then show ?thesis using n by (simp add: mem_get_def)
qed

lemmas scan_steps =
  sscanf_Str sscanf_Ws(1) [OF print_int_not_space] sscanf_Ws(1) [OF word_not_space] sscanf_Dec sscanf_Ull

text \<open>Words with a space between.\<close>

fun words :: "cstr list \<Rightarrow> cstr" where
  "words [] = []"
| "words [w] = w"
| "words (w # v # ws) = w @ space # words (v # ws)"

definition num :: "i32 \<Rightarrow> cstr" where
  "num w = print_int (sint w)"

lemma print_int_text: "0 \<notin> set (print_int z)" "print_int z \<noteq> []" "CC 32 \<notin> set (print_int z)"
proof -
  have d: "\<forall>c \<in> set (print_nat n). is_digit c" for n
    using print_nat_digits [of n] by (simp add: list_all_iff)
  have "\<not> is_digit 0" "\<not> is_digit (CC 32)" by (simp_all add: is_digit_def zero_cchar_def word_le_nat_alt)
  then show "0 \<notin> set (print_int z)" "CC 32 \<notin> set (print_int z)"
    using d by (auto simp: print_int_def)
  show "print_int z \<noteq> []"
    using print_nat_digits by (simp add: print_int_def)
qed

lemma parse_set:
  assumes "word_ok m" "length m < header_buf_size" "word_ok key" "length key < max_key_size" "spaced rest"
  shows "sscanf cmd_set_format (words [m, key, num flag, num expire, num len] @ rest) =
    ret [AStr m, AStr key, AInt flag, AInt expire, AInt len]"
  using assms by (simp add: cmd_set_format_def num_def space_def scan_steps del: sscanf.simps(2-6))

lemma parse_cas:
  assumes "word_ok m" "length m < header_buf_size" "word_ok key" "length key < max_key_size" "spaced rest"
  shows "sscanf cmd_cas_format (words [m, key, num flag, num expire, num len, print_int (uint sign)] @ rest) =
    ret [AStr m, AStr key, AInt flag, AInt expire, AInt len, AUll sign]"
  using assms by (simp add: cmd_cas_format_def num_def space_def scan_steps del: sscanf.simps(2-6))

lemma parse_key:
  assumes "word_ok m" "length m < header_buf_size" "word_ok key" "length key < max_key_size" "spaced rest"
  shows "sscanf key_format (words [m, key] @ rest) = ret [AStr m, AStr key]"
  using assms by (simp add: key_format_def space_def scan_steps del: sscanf.simps(2-6))

lemma parse_incr:
  assumes "word_ok m" "length m < header_buf_size" "word_ok key" "length key < max_key_size" "spaced rest"
  shows "sscanf incr_format (words [m, key, num delta] @ rest) = ret [AStr m, AStr key, AInt delta]"
  using assms by (simp add: incr_format_def num_def space_def scan_steps del: sscanf.simps(2-6))

text \<open>A key that does not fit its array of 256 bytes.\<close>

lemma parse_long_key:
  assumes "word_ok m" "length m < header_buf_size" "word_ok key" "max_key_size \<le> length key" "spaced rest"
  shows "sscanf (Str header_buf_size # Ws # Str max_key_size # ds) (words [m, key] @ rest) = abort_with Undefined"
proof -
  obtain c us where k: "key = c # us" using assms(3) by (cases key) (auto simp: word_ok_def)
  have "takeWhile (\<lambda>c. \<not> is_space c) (key @ rest) = key"
    using assms(3,5) by (cases rest) (auto simp: word_ok_def spaced_def list_all_iff takeWhile_append)
  moreover have "dropWhile is_space (key @ rest) = key @ rest"
    using assms(3) k by (simp add: word_ok_def)
  ultimately have "sscanf (Str max_key_size # ds) (key @ rest) = abort_with Undefined"
    using assms(4) k by (simp add: Let_def)
  moreover have "sscanf (Ws # Str max_key_size # ds) (space # key @ rest) = sscanf (Str max_key_size # ds) (key @ rest)"
    unfolding space_def by (rule sscanf_Ws(1) [OF word_not_space [OF assms(3)]])
  moreover have "sscanf (Str header_buf_size # Ws # Str max_key_size # ds) (m @ space # key @ rest) =
      cons_arg (AStr m) (sscanf (Ws # Str max_key_size # ds) (space # key @ rest))"
    by (rule sscanf_Str [OF assms(1,2)]) (simp add: space_def)
  ultimately show ?thesis by simp
qed

section \<open>Replies\<close>

lemma chunks_mono: "n \<le> m \<Longrightarrow> chunks n \<le> chunks m"
  unfolding chunks_def by (intro max.mono div_le_mono) auto

lemma send_need_le: "send_need c qo n \<le> chunks n"
  by (simp add: send_need_def Let_def chunks_mono)

lemma conn_count:
  assumes "conn_inv c fl qi qo A"
  shows "length fl + length qi + length qo + card A = length (bp_base (cn_pool c))"
proof -
  note I = conn_invD [OF assms]
  note P = I(1) [unfolded pool_inv_def]
  have f: "finite A" "finite (set fl)" using P finite_subset [of _ "{..<length (bp_base (cn_pool c))}"] by auto
  have d: "set fl \<inter> (set qi \<union> set qo \<union> A) = {}" "distinct fl" using P by simp_all
  have "card (set fl \<union> (set qi \<union> set qo \<union> A)) = length fl + (length qi + length qo + card A)"
    using d I(4-8) f(1) by (simp add: card_Un_disjoint distinct_card Int_Un_distrib Int_Un_distrib2)
  then show ?thesis using P by simp
qed

lemma conn_count_out:
  assumes "conn_inv c fl qi qo A" and "conn_inv c' fl' qi qo' A" and "untouched A c c'"
  shows "length fl + length qo = length fl' + length qo'"
  using conn_count [OF assms(1)] conn_count [OF assms(2)] assms(3) by (simp add: untouched_def)

text \<open>
  \<open>replied A qi qo c k c'\<close>: the connection's output is \<open>k\<close> longer, in at most three buffers more
  than \<open>k\<close> fills.
\<close>

definition replied :: "nat set \<Rightarrow> nat list \<Rightarrow> nat list \<Rightarrow> conn \<Rightarrow> cchar list \<Rightarrow> conn \<Rightarrow> bool" where
  "replied A qi qo c k c' \<longleftrightarrow>
     (\<exists>fl' qo'. conn_inv c' fl' qi qo' A \<and> appended A c c' qi qo qo' k \<and>
       length qo' \<le> length qo + length k div buf_unit + 3)"

lemma chunks_le: "chunks n \<le> n div buf_unit + 1"
  by (simp add: chunks_def buf_unit_def)

lemma append_send_data_count:
  assumes "conn_inv c fl qi qo A" and "send_need c qo (length k) < length fl"
  obtains c' fl' qo' where "append_send_data c k = ret c'" and "conn_inv c' fl' qi qo' A"
    and "fl' = drop (send_need c qo (length k)) fl"
    and "appended A c c' qi qo qo' k" and "length qo' \<le> length qo + length k div buf_unit + 1"
proof -
  obtain c' qo' where c': "append_send_data c k = ret c'" "conn_inv c' (drop (send_need c qo (length k)) fl) qi qo' A"
    "appended A c c' qi qo qo' k"
    using append_send_data_ok [OF assms(1), of k] assms(2) by blast
  have "length qo' = length qo + send_need c qo (length k)"
    using conn_count_out [OF assms(1) c'(2)] c'(3) assms(2) by (simp add: appended_def)
  then have "length qo' \<le> length qo + length k div buf_unit + 1"
    using send_need_le [of c qo "length k"] chunks_le [of "length k"] by simp
  with c' show thesis using that by blast
qed

lemma reply_ok:
  assumes "conn_inv c fl qi qo A" and "send_need c qo (length k) < length fl"
  obtains c' where "append_send_data c k = ret c'" and "replied A qi qo c k c'"
proof (rule append_send_data_count [OF assms])
  fix c' fl' qo'
  assume "append_send_data c k = ret c'" "conn_inv c' fl' qi qo' A" "appended A c c' qi qo qo' k"
    "length qo' \<le> length qo + length k div buf_unit + 1"
  then show thesis by - (rule that, simp, unfold replied_def, rule exI [of _ fl'], rule exI [of _ qo'], simp)
qed

lemma noreply_ok:
  assumes "conn_inv c fl qi qo A" and "send_need c qo (length k) < length fl"
  obtains c' where "reply_unless_noreply c h k = ret c'"
    and "replied A qi qo c (if ends_with h (cs '' noreply'') then [] else k) c'"
proof (cases "ends_with h (cs '' noreply'')")
  case True
  then have "reply_unless_noreply c h k = ret c" "replied A qi qo c [] c"
    using assms(1) appended_nil
    by (simp add: reply_unless_noreply_def, unfold replied_def)
      (rule exI [of _ fl], rule exI [of _ qo], simp add: appended_nil)
  then show thesis using that True by simp
next
  case False
  then show thesis
    using that reply_ok [OF assms] by (auto simp: reply_unless_noreply_def)
qed

section \<open>Lookups\<close>

text \<open>\<open>puts vb tot R vb'\<close>: the bytes \<open>R\<close> written to \<open>vb\<close> after the first \<open>tot\<close>.\<close>

definition puts :: "cchar list \<Rightarrow> nat \<Rightarrow> cchar list \<Rightarrow> cchar list \<Rightarrow> bool" where
  "puts vb tot R vb' \<longleftrightarrow> length vb' = length vb \<and> take (tot + length R) vb' = take tot vb @ R"

lemma puts_mem: "tot + length xs \<le> length vb \<Longrightarrow> \<exists>vb'. mem_put vb (int tot) xs = ret vb' \<and> puts vb tot xs vb'"
  by (simp add: mem_put_def puts_def)

lemma puts_trans:
  assumes "puts vb tot R vb1" and "puts vb1 (tot + length R) S vb2"
  shows "puts vb tot (R @ S) vb2"
  using assms by (simp add: puts_def add.assoc)

lemma puts_part:
  assumes "puts vb tot (R @ S) vb'" and "tot \<le> length vb"
  shows "puts vb tot R vb'"
proof -
  have "take (tot + length R) vb' = take (tot + length R) (take (tot + length (R @ S)) vb')"
    by (simp add: min_def)
  also have "\<dots> = take (tot + length R) (take tot vb @ R @ S)"
    using assms(1) unfolding puts_def by presburger
  also have "\<dots> = take tot vb @ R" using assms(2) by (simp add: min_def)
  finally show ?thesis using assms(1) by (simp add: puts_def)
qed

lemma item_of_vbuf [simp]:
  "item_of (st\<lparr>st_vbuf := vb\<rparr>) = item_of st" "offset_of (st\<lparr>st_vbuf := vb\<rparr>) = offset_of st"
  "store_inv (st\<lparr>st_vbuf := vb\<rparr>) = store_inv st"
  by (simp_all add: item_of_def offset_of_def store_inv_def fun_eq_iff)

lemma read_vbuf [simp]:
  "read_ints (st\<lparr>st_vbuf := vb\<rparr>) off = read_ints st off"
  "read_body_bytes (st\<lparr>st_vbuf := vb\<rparr>) off n = read_body_bytes st off n"
  by (simp_all add: read_ints_def read_body_bytes_def)

text \<open>What the answer says of one key.\<close>

definition live :: "int \<Rightarrow> store \<Rightarrow> cstr \<Rightarrow> bool" where
  "live now st key \<longleftrightarrow> (case item_of st key of None \<Rightarrow> True | Some (flag, expire, body) \<Rightarrow> \<not> expired now expire)"

definition answer :: "bool \<Rightarrow> store \<Rightarrow> cstr \<Rightarrow> cstr" where
  "answer sign st key =
     (case item_of st key of
        None \<Rightarrow> []
      | Some (flag, expire, body) \<Rightarrow>
          value_line sign key flag (of_nat (length body)) (offset_of st key) @ body @ crlf)"

lemma answer_vbuf [simp]: "answer sign (st\<lparr>st_vbuf := vb\<rparr>) = answer sign st"
  "live now (st\<lparr>st_vbuf := vb\<rparr>) = live now st"
  by (simp_all add: answer_def live_def fun_eq_iff split: option.split)

lemma get_value_ok:
  assumes "item_at (st_data st) (unat off) = Some (flag, expire, body)" and "\<not> expired now expire"
    and "tot + length (value_line sign key flag (of_nat (length body)) off @ body @ crlf) \<le> length (st_vbuf st)"
  shows "\<exists>vb. get_value now sign st key off tot =
      ret (st\<lparr>st_vbuf := vb\<rparr>, tot + length (value_line sign key flag (of_nat (length body)) off @ body @ crlf)) \<and>
    puts (st_vbuf st) tot (value_line sign key flag (of_nat (length body)) off @ body @ crlf) vb"
proof -
  note R = read_item_at [OF assms(1)]
  let ?line = "value_line sign key flag (of_nat (length body)) off"
  have "tot + length (?line @ [0]) \<le> length (st_vbuf st)"
    using assms(3) by (simp add: crlf_def)
  then obtain v1 where v1: "mem_put (st_vbuf st) (int tot) (?line @ [0]) = ret v1" "puts (st_vbuf st) tot (?line @ [0]) v1"
    using puts_mem by blast
  have p1: "puts (st_vbuf st) tot ?line v1"
    using puts_part [OF v1(2)] assms(3) by simp
  have l1: "length v1 = length (st_vbuf st)" using p1 by (simp add: puts_def)
  obtain v2 where v2: "mem_put v1 (int (tot + length ?line)) body = ret v2" "puts v1 (tot + length ?line) body v2"
    using puts_mem [of "tot + length ?line" body v1] assms(3) l1 by auto
  have l2: "length v2 = length (st_vbuf st)" using v2(2) l1 by (simp add: puts_def)
  obtain v3 where v3: "mem_put v2 (int (tot + length ?line + length body)) crlf = ret v3"
    "puts v2 (tot + length ?line + length body) crlf v3"
    using puts_mem [of "tot + length ?line + length body" crlf v2] assms(3) l2 by auto
  have "puts (st_vbuf st) tot (?line @ body @ crlf) v3"
    using puts_trans [OF puts_trans [OF p1 v2(2)], of crlf v3] v3(2) by (simp add: add.assoc)
  moreover have "get_value now sign st key off tot = ret (st\<lparr>st_vbuf := v3\<rparr>, tot + length (?line @ body @ crlf))"
    using R assms(2) v1(1) v2(1) v3(1) by (simp add: get_value_def Let_def add.assoc)
  ultimately show ?thesis by blast
qed

definition key_ok :: "cstr \<Rightarrow> bool" where
  "key_ok k \<longleftrightarrow> 0 \<notin> set k \<and> space \<notin> set k \<and> length k < max_key_size"

lemma words_parts:
  assumes "\<forall>k \<in> set (k # ks). key_ok k"
  shows "takeWhile (\<lambda>c. c \<noteq> space) (words (k # ks)) = k" and "0 \<notin> set (words (k # ks))"
    and "length k = length (words (k # ks)) \<longleftrightarrow> ks = []"
    and "ks \<noteq> [] \<Longrightarrow> words (k # ks) = k @ space # words ks"
proof -
  show w: "ks \<noteq> [] \<Longrightarrow> words (k # ks) = k @ space # words ks" for k ks by (cases ks) auto
  have k: "\<forall>c \<in> set k. c \<noteq> space" using assms by (auto simp: key_ok_def)
  show "takeWhile (\<lambda>c. c \<noteq> space) (words (k # ks)) = k"
    using k w by (cases "ks = []") (auto simp: takeWhile_tail takeWhile_eq_all_conv)
  show "0 \<notin> set (words (k # ks))"
    using assms
  proof (induction ks arbitrary: k)
    case Nil
    then show ?case by (simp add: key_ok_def)
  next
    case (Cons k' ks)
    then show ?case using w [of "k' # ks" k] by (auto simp: key_ok_def space_def)
  qed
  show "length k = length (words (k # ks)) \<longleftrightarrow> ks = []"
    using w by (cases "ks = []") auto
qed

lemma tst_get_offset: "store_inv st \<Longrightarrow> tst_get (st_tst st) k = ret (offset_of st k)"
  using node_array.get_view node_array.linked_wf by (auto simp: store_inv_def offset_of_def)

lemma get_key_ok:
  assumes inv: "store_inv st" and live: "live now st k" and room: "tot + length (answer sign st k) < length (st_vbuf st)"
  shows "\<exists>v1 vb. mem_put (st_vbuf st) (int tot) [0] = ret v1 \<and>
    (if 0 < offset_of st k then get_value now sign (st\<lparr>st_vbuf := v1\<rparr>) k (offset_of st k) tot
     else ret (st\<lparr>st_vbuf := v1\<rparr>, tot)) = ret (st\<lparr>st_vbuf := vb\<rparr>, tot + length (answer sign st k)) \<and>
    puts (st_vbuf st) tot (answer sign st k) vb"
proof -
  obtain v1 where v1: "mem_put (st_vbuf st) (int tot) [0] = ret v1" "puts (st_vbuf st) tot [0] v1"
    using puts_mem [of tot "[0]" "st_vbuf st"] room by auto
  have p1: "puts (st_vbuf st) tot [] v1"
    using puts_part [of "st_vbuf st" tot "[]" "[0]" v1] v1(2) room by simp
  have l1: "length v1 = length (st_vbuf st)" using p1 by (simp add: puts_def)
  show ?thesis
  proof (cases "offset_of st k = 0")
    case True
    then have "answer sign st k = []" by (simp add: answer_def item_of_def)
    then show ?thesis using True v1(1) p1 by auto
  next
    case False
    then obtain flag expire body where it: "item_at (st_data st) (unat (offset_of st k)) = Some (flag, expire, body)"
      using inv unfolding store_inv_def by (metis option.exhaust prod_cases3)
    then have io: "item_of st k = Some (flag, expire, body)" using False by (simp add: item_of_def)
    have a: "answer sign st k = value_line sign k flag (of_nat (length body)) (offset_of st k) @ body @ crlf"
      using io by (simp add: answer_def)
    have ne: "\<not> expired now expire" using live io by (simp add: live_def)
    obtain vb where vb: "get_value now sign (st\<lparr>st_vbuf := v1\<rparr>) k (offset_of st k) tot =
        ret (st\<lparr>st_vbuf := vb\<rparr>, tot + length (answer sign st k))" "puts v1 tot (answer sign st k) vb"
      using get_value_ok [of "st\<lparr>st_vbuf := v1\<rparr>" "offset_of st k" flag expire body now tot sign k] it ne room l1
      unfolding a by auto
    have "0 < offset_of st k" using False by (simp add: word_neq_0_conv)
    then show ?thesis
      using v1(1) vb puts_trans [of _ tot "[]" v1] p1 by auto
  qed
qed

lemma holds_drop: "holds b (x @ y) \<Longrightarrow> holds (drop (length x) b) y"
proof -
  assume h: "holds b (x @ y)"
  have "take (Suc (length y)) (drop (length x) b) = drop (length x) (take (Suc (length (x @ y))) b)"
    by (simp add: take_drop add.commute)
  then show ?thesis using h by (simp add: holds_def)
qed

lemma get_loop_step:
  assumes "cstr_of (drop ptr header) = ret s" and "takeWhile (\<lambda>c. c \<noteq> space) s = k" and "length k < max_key_size"
    and "tst_get (st_tst st) k = ret off" and "mem_put (st_vbuf st) (int tot) [0] = ret v1"
    and "(if 0 < off then get_value now sign (st\<lparr>st_vbuf := v1\<rparr>) k off tot else ret (st\<lparr>st_vbuf := v1\<rparr>, tot)) =
      ret (st2, tot2)"
  shows "get_loop now sign header st ptr tot =
    (if length k = length s then ret (st2, tot2) else get_loop now sign header st2 (ptr + length k + 1) tot2)"
  using assms by (subst get_loop.simps, cases "0 < off") (simp_all add: Let_def)

lemma get_loop_ok:
  assumes "store_inv st" and "\<forall>k \<in> set (k # ks). key_ok k \<and> live now st k"
    and "holds (drop ptr header) (words (k # ks))"
    and "tot + length (concat (map (answer sign st) (k # ks))) < length (st_vbuf st)"
  shows "\<exists>vb. get_loop now sign header st ptr tot =
      ret (st\<lparr>st_vbuf := vb\<rparr>, tot + length (concat (map (answer sign st) (k # ks)))) \<and>
    puts (st_vbuf st) tot (concat (map (answer sign st) (k # ks))) vb"
  using assms
proof (induction ks arbitrary: k st ptr tot)
  case Nil
  have k: "key_ok k" "live now st k" using Nil.prems(2) by auto
  have W: "takeWhile (\<lambda>c. c \<noteq> space) k = k" "0 \<notin> set k" "length k < max_key_size"
    using words_parts [of k "[]"] k(1) by (auto simp: key_ok_def)
  have s: "cstr_of (drop ptr header) = ret k"
    using cstr_of_holds [of "drop ptr header" k] Nil.prems(3) W(2) by simp
  have room: "tot + length (answer sign st k) < length (st_vbuf st)" using Nil.prems(4) by simp
  obtain v1 vb where v: "mem_put (st_vbuf st) (int tot) [0] = ret v1"
    "(if 0 < offset_of st k then get_value now sign (st\<lparr>st_vbuf := v1\<rparr>) k (offset_of st k) tot
     else ret (st\<lparr>st_vbuf := v1\<rparr>, tot)) = ret (st\<lparr>st_vbuf := vb\<rparr>, tot + length (answer sign st k))"
    "puts (st_vbuf st) tot (answer sign st k) vb"
    using get_key_ok [OF Nil.prems(1) k(2) room] by blast
  have "get_loop now sign header st ptr tot = ret (st\<lparr>st_vbuf := vb\<rparr>, tot + length (answer sign st k))"
    using get_loop_step [OF s W(1,3) tst_get_offset [OF Nil.prems(1)] v(1,2)] by simp
  then show ?case using v(3) by (intro exI [of _ vb]) simp
next
  case (Cons k' ks)
  have k: "key_ok k" "live now st k" using Cons.prems(2) by auto
  let ?w = "words (k # k' # ks)"
  have ko: "\<forall>k \<in> set (k # k' # ks). key_ok k" using Cons.prems(2) by blast
  note W = words_parts [OF ko]
  have kl: "length k < max_key_size" using k(1) by (simp add: key_ok_def)
  have s: "cstr_of (drop ptr header) = ret ?w"
    using cstr_of_holds [OF Cons.prems(3) W(2)] .
  have room: "tot + length (answer sign st k) < length (st_vbuf st)" using Cons.prems(4) by simp
  obtain v1 v2 where v: "mem_put (st_vbuf st) (int tot) [0] = ret v1"
    "(if 0 < offset_of st k then get_value now sign (st\<lparr>st_vbuf := v1\<rparr>) k (offset_of st k) tot
     else ret (st\<lparr>st_vbuf := v1\<rparr>, tot)) = ret (st\<lparr>st_vbuf := v2\<rparr>, tot + length (answer sign st k))"
    "puts (st_vbuf st) tot (answer sign st k) v2"
    using get_key_ok [OF Cons.prems(1) k(2) room] by blast
  let ?st = "st\<lparr>st_vbuf := v2\<rparr>" and ?ptr = "ptr + length k + 1" and ?tot = "tot + length (answer sign st k)"
  have go: "get_loop now sign header st ptr tot = get_loop now sign header ?st ?ptr ?tot"
    using get_loop_step [OF s W(1) kl tst_get_offset [OF Cons.prems(1)] v(1,2)] W(3) by simp
  have "holds (drop ptr header) ((k @ [space]) @ words (k' # ks))"
    using Cons.prems(3) by simp
  from holds_drop [OF this] have h: "holds (drop ?ptr header) (words (k' # ks))"
    by (simp add: add.commute)
  have l2: "length v2 = length (st_vbuf st)" using v(3) by (simp add: puts_def)
  obtain vb where vb: "get_loop now sign header ?st ?ptr ?tot =
      ret (?st\<lparr>st_vbuf := vb\<rparr>, ?tot + length (concat (map (answer sign ?st) (k' # ks))))"
    "puts (st_vbuf ?st) ?tot (concat (map (answer sign ?st) (k' # ks))) vb"
    using Cons.IH [of ?st k' ?ptr ?tot] Cons.prems(1,2,4) h l2 by auto
  show ?case
    unfolding go using vb puts_trans [OF v(3), of "concat (map (answer sign st) (k' # ks))" vb]
    by (intro exI [of _ vb]) (simp add: add.assoc)
qed

text \<open>A whole \<open>get\<close> request.\<close>

definition get_request :: "cstr \<Rightarrow> cstr list \<Rightarrow> cstr" where
  "get_request m ws = m @ space # words ws"

lemma cmd_do_get_ok:
  assumes inv: "store_inv st" and ks: "ws \<noteq> []" "\<forall>k \<in> set ws. key_ok k \<and> live now st k"
    and m: "0 \<notin> set m" "space \<notin> set m" and h: "holds header (get_request m ws)"
    and room: "length (concat (map (answer sign st) ws)) + 5 \<le> length (st_vbuf st)"
    and c: "conn_inv c fl qi qo A" "send_need c qo (length (concat (map (answer sign st) ws)) + 5) < length fl"
  shows "\<exists>vb c'. cmd_do_get now sign st c header = ret (st\<lparr>st_vbuf := vb\<rparr>, c') \<and>
    length vb = length (st_vbuf st) \<and>
    replied A qi qo c (concat (map (answer sign st) ws) @ text_line ''END'') c'"
proof -
  obtain k ks where k: "ws = k # ks" using ks(1) by (cases ws) auto
  let ?R = "concat (map (answer sign st) ws)"
  have w0: "0 \<notin> set (words ws)" using words_parts(2) [of k ks] ks(2) k by auto
  have tw: "takeWhile (\<lambda>c. c \<noteq> space) (get_request m ws) = m"
    using m(2) by (auto simp: get_request_def takeWhile_tail takeWhile_eq_all_conv)
  have s: "cstr_of header = ret (get_request m ws)"
    by (rule cstr_of_holds [OF h]) (use m w0 in \<open>auto simp: get_request_def space_def\<close>)
  have "holds header ((m @ [space]) @ words ws)" using h by (simp add: get_request_def)
  from holds_drop [OF this] have h2: "holds (drop (length m + 1) header) (words (k # ks))"
    by (simp add: k)
  obtain vb where vb: "get_loop now sign header st (length m + 1) 0 = ret (st\<lparr>st_vbuf := vb\<rparr>, length ?R)"
    "puts (st_vbuf st) 0 ?R vb"
    using get_loop_ok [OF inv _ h2, of now 0 sign] ks(2) room unfolding k by auto
  have e: "length (text_line ''END'') = 5" by (simp add: text_line_def cs_def crlf_def)
  have l: "length vb = length (st_vbuf st)" using vb(2) by (simp add: puts_def)
  obtain v2 where v2: "mem_put vb (int (length ?R)) (text_line ''END'') = ret v2" "puts vb (length ?R) (text_line ''END'') v2"
    using puts_mem [of "length ?R" "text_line ''END''" vb] room l e by auto
  have "puts (st_vbuf st) 0 (?R @ text_line ''END'') v2"
    using puts_trans [OF vb(2), of "text_line ''END''" v2] v2(2) by simp
  then have t: "take (length ?R + length (text_line ''END'')) v2 = ?R @ text_line ''END''" "length v2 = length (st_vbuf st)"
    by (simp_all add: puts_def)
  obtain c' where c': "append_send_data c (?R @ text_line ''END'') = ret c'" "replied A qi qo c (?R @ text_line ''END'') c'"
    by (rule reply_ok [OF c(1), of "?R @ text_line ''END''"]) (use c(2) e in simp)
  have "cmd_do_get now sign st c header = ret (st\<lparr>st_vbuf := v2\<rparr>, c')"
    using s tw vb(1) v2(1) t(1) c'(1) by (simp add: cmd_do_get_def Let_def)
  then show ?thesis using c'(2) t(2) by auto
qed

section \<open>Changes\<close>

text \<open>A time of expiry counts from the moment of the request.\<close>

definition expire_at :: "int \<Rightarrow> i32 \<Rightarrow> i32" where
  "expire_at now expire = (if 0 < sint expire then word_of_int (sint expire + now) else expire)"

text \<open>A request line: words that fit their arrays, and what may follow them.\<close>

definition line_ok :: "cstr \<Rightarrow> cstr \<Rightarrow> cstr \<Rightarrow> bool" where
  "line_ok m key rest \<longleftrightarrow> word_ok m \<and> length m < header_buf_size \<and> word_ok key \<and> length key < max_key_size \<and>
     spaced rest \<and> 0 \<notin> set rest"

definition set_request :: "cstr \<Rightarrow> cstr \<Rightarrow> i32 \<Rightarrow> i32 \<Rightarrow> i32 \<Rightarrow> cstr \<Rightarrow> cstr" where
  "set_request m key flag expire len rest = words [m, key, num flag, num expire, num len] @ rest"

definition cas_request :: "cstr \<Rightarrow> cstr \<Rightarrow> i32 \<Rightarrow> i32 \<Rightarrow> i32 \<Rightarrow> u64 \<Rightarrow> cstr \<Rightarrow> cstr" where
  "cas_request m key flag expire len sign rest =
     words [m, key, num flag, num expire, num len, print_int (uint sign)] @ rest"

lemma word_ok_text: "word_ok w \<Longrightarrow> 0 \<notin> set w"
  by (auto simp: word_ok_def list_all_iff)

lemma request_text:
  assumes "line_ok m key rest"
  shows "0 \<notin> set (set_request m key flag expire len rest)"
    and "0 \<notin> set (cas_request m key flag expire len sign rest)"
    and "0 \<notin> set (words [m, key] @ rest)" and "0 \<notin> set (words [m, key, num delta] @ rest)"
  using assms word_ok_text [of m] word_ok_text [of key] print_int_text(1)
  by (auto simp: line_ok_def set_request_def cas_request_def num_def space_def)

text \<open>What \<open>get_body_len\<close> makes of the same line.\<close>

lemma header_body_set:
  assumes "line_ok (cs ''set'') key rest"
  shows "header_body (set_request (cs ''set'') key flag expire len rest) = ret (True, clamp_value_len (sint len))"
proof -
  have k: "word_ok key" "length key < 1024" "spaced rest"
    using assms by (auto simp: line_ok_def max_key_size_def)
  have "sscanf set_format (set_request (cs ''set'') key flag expire len rest) = ret [AStr key, AInt flag, AInt expire, AInt len]"
    using k by (simp add: set_format_def set_request_def num_def space_def scan_steps sscanf_Lit del: sscanf.simps(2-6))
  then show ?thesis by (simp add: header_body_def)
qed

text \<open>The outcome of a handler that changes the store to \<open>st'\<close> and answers \<open>k\<close>.\<close>

definition handled ::
  "nat set \<Rightarrow> nat list \<Rightarrow> nat list \<Rightarrow> conn \<Rightarrow> (store \<times> conn) run \<Rightarrow> store \<Rightarrow> cchar list \<Rightarrow> bool"
where
  "handled A qi qo c r st' k \<longleftrightarrow> (\<exists>c'. r = ret (st', c') \<and> replied A qi qo c k c')"

lemma cmd_do_set_ok:
  assumes inv: "store_inv st" and l: "line_ok m key rest" and h: "holds header (set_request m key flag expire len rest)"
    and b: "0 \<le> sint len" "holds body bytes" "int (length bytes) = sint len"
    and fits: "room rl (st_tst st) (length key)" "length (st_data st) < 2 ^ 64"
    and c: "conn_inv c fl qi qo A" "send_need c qo 8 < length fl"
  shows "\<exists>st'. handled A qi qo c (cmd_do_set rl now st c header body) st'
      (if ends_with (set_request m key flag expire len rest) (cs '' noreply'') then [] else text_line ''STORED'') \<and>
    store_inv st' \<and> item_of st' = (item_of st)(key \<mapsto> (flag, expire_at now expire, bytes)) \<and>
    offset_of st' = (offset_of st)(key := of_nat (length (st_data st))) \<and> st_vbuf st' = st_vbuf st \<and>
    st_data st' = st_data st @ record_bytes len flag (expire_at now expire) bytes \<and>
    st_log st' = st_log st @ log_entry key (of_nat (length (st_data st))) \<and>
    (\<forall>n. room rl (st_tst st) (length key + n) \<longrightarrow> room rl (st_tst st') n)"
proof -
  let ?h = "set_request m key flag expire len rest"
  have s: "cstr_of header = ret ?h" by (rule cstr_of_holds [OF h request_text(1) [OF l]])
  have p: "sscanf cmd_set_format ?h = ret [AStr m, AStr key, AInt flag, AInt expire, AInt len]"
    using parse_set l unfolding set_request_def line_ok_def by blast
  have g: "mem_get body 0 (sint len) = ret bytes" using mem_get_holds [OF b(2)] b(3) by simp
  have key: "word_ok key" using l by (simp add: line_ok_def)
  have n: "nat (sint len) = length bytes" using b(3) by simp
  obtain st' where st': "store_value rl st key len flag (expire_at now expire) bytes = ret st'" "store_inv st'"
    "item_of st' = (item_of st)(key \<mapsto> (flag, expire_at now expire, bytes))"
    "offset_of st' = (offset_of st)(key := of_nat (length (st_data st)))" "st_vbuf st' = st_vbuf st"
    "st_data st' = st_data st @ record_bytes len flag (expire_at now expire) bytes"
    "st_log st' = st_log st @ log_entry key (of_nat (length (st_data st)))"
    using store_value_ok [OF inv key fits n b(1), of flag "expire_at now expire"] by blast
  have r: "length (text_line ''STORED'') = 8" by (simp add: text_line_def cs_def crlf_def)
  obtain c' where c': "reply_unless_noreply c ?h (text_line ''STORED'') = ret c'"
    "replied A qi qo c (if ends_with ?h (cs '' noreply'') then [] else text_line ''STORED'') c'"
    by (rule noreply_ok [OF c(1), of "text_line ''STORED''"]) (use c(2) r in simp)
  have "cmd_do_set rl now st c header body = ret (st', c')"
    using s p g b(1) st'(1) c'(1) by (simp add: cmd_do_set_def expire_at_def Let_def)
  then show ?thesis
    using st' c'(2) store_value_room [OF inv key st'(1)] unfolding handled_def by blast
qed

lemma cmd_do_cas_ok:
  assumes inv: "store_inv st" and l: "line_ok m key rest" and h: "holds header (cas_request m key flag expire len sign rest)"
    and b: "0 \<le> sint len" "holds body bytes" "int (length bytes) = sint len"
    and fits: "room rl (st_tst st) (length key)" "length (st_data st) < 2 ^ 64"
    and c: "conn_inv c fl qi qo A" "send_need c qo 8 < length fl"
  shows "\<exists>st'. handled A qi qo c (cmd_do_cas rl st c header body) st'
      (if ends_with (cas_request m key flag expire len sign rest) (cs '' noreply'') then []
       else if offset_of st key = sign then text_line ''STORED'' else text_line ''EXISTS'') \<and>
    store_inv st' \<and>
    (if offset_of st key = sign
     then item_of st' = (item_of st)(key \<mapsto> (flag, expire, bytes)) \<and>
          offset_of st' = (offset_of st)(key := of_nat (length (st_data st)))
     else st' = st)"
proof -
  let ?h = "cas_request m key flag expire len sign rest"
  let ?msg = "if offset_of st key = sign then text_line ''STORED'' else text_line ''EXISTS''"
  have s: "cstr_of header = ret ?h" by (rule cstr_of_holds [OF h request_text(2) [OF l]])
  have p: "sscanf cmd_cas_format ?h = ret [AStr m, AStr key, AInt flag, AInt expire, AInt len, AUll sign]"
    using parse_cas l unfolding cas_request_def line_ok_def by blast
  have g: "mem_get body 0 (sint len) = ret bytes" using mem_get_holds [OF b(2)] b(3) by simp
  have key: "word_ok key" using l by (simp add: line_ok_def)
  have n: "nat (sint len) = length bytes" using b(3) by simp
  have r: "length ?msg = 8" by (simp add: text_line_def cs_def crlf_def)
  obtain c' where c': "reply_unless_noreply c ?h ?msg = ret c'"
    "replied A qi qo c (if ends_with ?h (cs '' noreply'') then [] else ?msg) c'"
    by (rule noreply_ok [OF c(1), of ?msg]) (use c(2) r in simp)
  obtain st' where st': "store_value rl st key len flag expire bytes = ret st'" "store_inv st'"
    "item_of st' = (item_of st)(key \<mapsto> (flag, expire, bytes))"
    "offset_of st' = (offset_of st)(key := of_nat (length (st_data st)))"
    using store_value_ok [OF inv key fits n b(1), of flag expire] by blast
  show ?thesis
  proof (cases "offset_of st key = sign")
    case True
    then have "cmd_do_cas rl st c header body = ret (st', c')"
      using s p g b(1) st'(1) c'(1) tst_get_offset [OF inv] by (simp add: cmd_do_cas_def Let_def)
    then show ?thesis
      using True st' c'(2) by (intro exI [of _ st']) (simp add: handled_def)
  next
    case False
    then have "cmd_do_cas rl st c header body = ret (st, c')"
      using s p b(1) c'(1) tst_get_offset [OF inv] by (simp add: cmd_do_cas_def Let_def)
    then show ?thesis
      using False inv c'(2) by (intro exI [of _ st]) (simp add: handled_def)
  qed
qed

lemma cmd_do_delete_ok:
  assumes inv: "store_inv st" and l: "line_ok m key rest" and h: "holds header (words [m, key] @ rest)"
    and safe: "offset_of st key \<noteq> 0 \<longrightarrow> key_safe st key"
    and c: "conn_inv c fl qi qo A" "send_need c qo (if offset_of st key = 0 then 11 else 9) < length fl"
  shows "\<exists>st'. handled A qi qo c (cmd_do_delete st c header) st'
      (if item_of st key = None then text_line ''NOT_FOUND'' else text_line ''DELETED'') \<and>
    store_inv st' \<and> item_of st' = (item_of st)(key := None) \<and> (item_of st key = None \<longrightarrow> st' = st) \<and>
    (item_of st key \<noteq> None \<longrightarrow> st_log st' = st_log st @ log_entry key 0) \<and> st_data st' = st_data st"
proof -
  let ?h = "words [m, key] @ rest"
  let ?msg = "if offset_of st key = 0 then text_line ''NOT_FOUND'' else text_line ''DELETED''"
  have s: "cstr_of header = ret ?h" by (rule cstr_of_holds [OF h request_text(3) [OF l]])
  have p: "sscanf key_format ?h = ret [AStr m, AStr key]"
    using parse_key l unfolding line_ok_def by blast
  have r: "length ?msg = (if offset_of st key = 0 then 11 else 9)" by (simp add: text_line_def cs_def crlf_def)
  have n: "item_of st key = None \<longleftrightarrow> offset_of st key = 0"
    using inv by (auto simp: item_of_def store_inv_def)
  obtain c' where c': "append_send_data c ?msg = ret c'" "replied A qi qo c ?msg c'"
    by (rule reply_ok [OF c(1), of ?msg]) (use c(2) r in simp)
  show ?thesis
  proof (cases "offset_of st key = 0")
    case True
    then have "cmd_do_delete st c header = ret (st, c')"
      using s p c'(1) tst_get_offset [OF inv] by (simp add: cmd_do_delete_def Let_def)
    moreover have "item_of st = (item_of st)(key := None)" using n True by auto
    ultimately show ?thesis
      using True n inv c'(2) by (intro exI [of _ st]) (simp add: handled_def)
  next
    case False
    obtain st' where st': "store_delete st key = ret st'" "store_inv st'" "item_of st' = (item_of st)(key := None)"
      "st_data st' = st_data st" "st_log st' = st_log st @ log_entry key 0"
      using store_delete_ok [OF inv] safe False by (auto simp: key_safe_def)
    then have "cmd_do_delete st c header = ret (st', c')"
      using False s p c'(1) tst_get_offset [OF inv] by (simp add: cmd_do_delete_def Let_def)
    moreover have "item_of st key \<noteq> None" using False n by simp
    ultimately show ?thesis
      using st' c'(2) False unfolding handled_def by auto
  qed
qed

text \<open>An \<open>int\<close> is at most eleven characters.\<close>

lemma print_nat_length: "n < 10 ^ Suc k \<Longrightarrow> length (print_nat n) \<le> Suc k"
proof (induction k arbitrary: n)
  case 0
  then show ?case by (subst print_nat.simps) simp
next
  case (Suc k)
  have "n div 10 < 10 ^ Suc k" using Suc.prems by (simp add: div_less_iff_less_mult)
  then show ?case
    using Suc.IH [of "n div 10"] by (subst print_nat.simps) simp
qed

lemma print_int_length:
  assumes "- (2 ^ 31) \<le> z" and "z < 2 ^ 31"
  shows "length (print_int z) \<le> 11"
proof -
  have "nat \<bar>z\<bar> < 10 ^ Suc 9" using assms by simp
  from print_nat_length [OF this] show ?thesis
    by (cases "z < 0") (simp_all add: print_int_def)
qed

text \<open>The number in an item: the digits up to the first byte that is none.\<close>

lemma incr_or_decr_ok:
  assumes inv: "store_inv st" and l: "line_ok m key rest" and h: "holds header (words [m, key, num delta] @ rest)"
    and it: "item_of st key = Some (flag, expire, body)" "0 \<notin> set body" "length body < header_buf_size"
    and z: "z = (if is_decr then sint (atoi body) - sint delta else sint (atoi body) + sint delta)"
    and rng: "- (2 ^ 31) \<le> z" "z < 2 ^ 31"
    and fits: "room rl (st_tst st) (length key)" "length (st_data st) < 2 ^ 64"
    and c: "conn_inv c fl qi qo A" "send_need c qo (length (print_int z) + 2) < length fl"
  shows "\<exists>st'. handled A qi qo c (incr_or_decr rl st c header is_decr) st' (print_int z @ crlf) \<and>
    store_inv st' \<and> item_of st' = (item_of st)(key \<mapsto> (flag, expire, print_int z))"
proof -
  let ?h = "words [m, key, num delta] @ rest"
  have s: "cstr_of header = ret ?h" by (rule cstr_of_holds [OF h request_text(4) [OF l]])
  have p: "sscanf incr_format ?h = ret [AStr m, AStr key, AInt delta]"
    using parse_incr l unfolding line_ok_def by blast
  have off: "offset_of st key \<noteq> 0" "item_at (st_data st) (unat (offset_of st key)) = Some (flag, expire, body)"
    using it(1) by (auto simp: item_of_def split: if_splits)
  note R = read_item_at [OF off(2)]
  have key: "word_ok key" using l by (simp add: line_ok_def)
  have zi: "sint (word_of_int z :: i32) = z"
    using rng by (simp add: signed_of_int signed_take_bit_int_eq_self)
  have ir: "int_result z = ret (word_of_int z)" using rng by (simp add: int_result_def)
  have small: "length (print_int z) < 2 ^ 31"
    using print_int_length [OF rng] by simp
  note L = len_of_nat [OF small]
  obtain buf where buf: "mem_put (replicate header_buf_size 0) 0 body = ret buf" "cstr_of buf = ret body"
  proof -
    have "mem_put (replicate header_buf_size 0) 0 body = ret (body @ replicate (header_buf_size - length body) 0)"
      using it(3) by (simp add: mem_put_def)
    moreover have "cstr_of (body @ replicate (header_buf_size - length body) 0) = ret body"
    proof (rule cstr_of_holds [OF _ it(2)])
      obtain j where "header_buf_size - length body = Suc j" using it(3) by (metis Suc_diff_Suc)
      then show "holds (body @ replicate (header_buf_size - length body) 0) body" by (simp add: holds_def)
    qed
    ultimately show thesis by (rule that)
  qed
  obtain st' where st': "store_value rl st key (of_nat (length (print_int z))) flag expire (print_int z) = ret st'"
    "store_inv st'" "item_of st' = (item_of st)(key \<mapsto> (flag, expire, print_int z))"
    using store_value_ok [OF inv key fits, of "of_nat (length (print_int z))" "print_int z" flag expire] L by blast
  have r: "length (print_int z @ crlf) = length (print_int z) + 2" by (simp add: crlf_def)
  obtain c' where c': "append_send_data c (print_int z @ crlf) = ret c'" "replied A qi qo c (print_int z @ crlf) c'"
    by (rule reply_ok [OF c(1), of "print_int z @ crlf"]) (use c(2) r in simp)
  have "incr_or_decr rl st c header is_decr = ret (st', c')"
    using s p off(1) R buf ir zi st'(1) c'(1) tst_get_offset [OF inv] z
    by (cases is_decr) (simp_all add: incr_or_decr_def Let_def)
  then show ?thesis
    using st' c'(2) by (intro exI [of _ st']) (simp add: handled_def)
qed

section \<open>Expired items and requests that do not fit\<close>

lemma cmd_do_get_expired_ok:
  assumes inv: "store_inv st" and k: "key_ok key" and it: "item_of st key = Some (flag, expire, body)" "expired now expire"
    and safe: "key_safe st key" and m: "0 \<notin> set m" "space \<notin> set m" and h: "holds header (get_request m [key])"
    and room: "5 \<le> length (st_vbuf st)" and c: "conn_inv c fl qi qo A" "send_need c qo 5 < length fl"
  shows "\<exists>st'. handled A qi qo c (cmd_do_get now sign st c header) st' (text_line ''END'') \<and>
    store_inv st' \<and> item_of st' = (item_of st)(key := None) \<and> st_log st' = st_log st @ log_entry key 0"
proof -
  have off: "offset_of st key \<noteq> 0" "item_at (st_data st) (unat (offset_of st key)) = Some (flag, expire, body)"
    using it(1) by (auto simp: item_of_def split: if_splits)
  have K: "takeWhile (\<lambda>c. c \<noteq> space) key = key" "0 \<notin> set key" "length key < max_key_size"
    using k words_parts(1) [of key "[]"] by (auto simp: key_ok_def)
  have tw: "takeWhile (\<lambda>c. c \<noteq> space) (get_request m [key]) = m"
    using m(2) by (auto simp: get_request_def takeWhile_tail takeWhile_eq_all_conv)
  have s: "cstr_of header = ret (get_request m [key])"
    by (rule cstr_of_holds [OF h]) (use m K in \<open>auto simp: get_request_def space_def zero_cchar_def\<close>)
  have "holds header ((m @ [space]) @ key)" using h by (simp add: get_request_def)
  from holds_drop [OF this] have s2: "cstr_of (drop (length m + 1) header) = ret key"
    using cstr_of_holds [OF _ K(2)] by simp
  obtain v1 where v1: "mem_put (st_vbuf st) (int 0) [0] = ret v1" "puts (st_vbuf st) 0 [0] v1"
    using puts_mem [of 0 "[0]" "st_vbuf st"] room by auto
  let ?st = "st\<lparr>st_vbuf := v1\<rparr>"
  have "store_inv ?st" "tst_clean (st_tst ?st) key" using inv safe by (simp_all add: key_safe_def)
  then obtain st' where st': "store_delete ?st key = ret st'" "store_inv st'" "item_of st' = (item_of st)(key := None)"
    "st_log st' = st_log st @ log_entry key 0" "st_vbuf st' = v1"
    using store_delete_ok [of ?st key] by auto
  have g: "get_value now sign ?st key (offset_of st key) 0 = ret (st', 0)"
    using read_item_at(1) [OF off(2)] it(2) st'(1) by (simp add: get_value_def delete_expire_value_def)
  have "get_loop now sign header st (length m + 1) 0 = ret (st', 0)"
    using get_loop_step [OF s2 K(1,3) tst_get_offset [OF inv] v1(1), of now sign st' 0] g off(1)
    by (simp add: word_neq_0_conv)
  moreover have e: "length (text_line ''END'') = 5" by (simp add: text_line_def cs_def crlf_def)
  obtain v2 where v2: "mem_put v1 (int 0) (text_line ''END'') = ret v2" "puts v1 0 (text_line ''END'') v2"
    using puts_mem [of 0 "text_line ''END''" v1] room e v1(2) by (auto simp: puts_def)
  moreover have "take 5 v2 = text_line ''END''" using v2(2) e by (simp add: puts_def)
  moreover obtain c' where c': "append_send_data c (text_line ''END'') = ret c'" "replied A qi qo c (text_line ''END'') c'"
    by (rule reply_ok [OF c(1), of "text_line ''END''"]) (use c(2) e in simp)
  ultimately have "cmd_do_get now sign st c header = ret (st'\<lparr>st_vbuf := v2\<rparr>, c')"
    using s tw st'(5) e by (simp add: cmd_do_get_def Let_def)
  then show ?thesis
    using st' c'(2) by (intro exI [of _ "st'\<lparr>st_vbuf := v2\<rparr>"]) (simp add: handled_def)
qed

lemma mem_get_beyond: "int (length a) < n \<Longrightarrow> mem_get a 0 n = abort_with Undefined"
  by (auto simp: mem_get_def)

text \<open>What may be safely removed from a store with one item.\<close>

lemma single_item:
  assumes "word_ok key" and "length key < 2 ^ 31" and "nat (sint len) = length body" "0 \<le> sint len"
    and "\<And>v. lone (ins Lf key v) key"
  obtains st where "store_value (\<lambda>_. True) (start_store n) key len flag expire body = ret st" and "store_inv st"
    and "item_of st key = Some (flag, expire, body)" and "key_safe st key" and "length (st_vbuf st) = n"
    and "offset_of st key = 6"
    and "\<And>m. room (\<lambda>_. True) (create_tst_db (\<lambda>_. zero_node)) (length key + m) \<Longrightarrow> room (\<lambda>_. True) (st_tst st) m"
proof -
  let ?db = "create_tst_db (\<lambda>_. zero_node)"
  have k: "key \<noteq> []" "0 \<notin> set key" using assms(1) word_ok_text by (auto simp: word_ok_def)
  have r: "room (\<lambda>_. True) (st_tst (start_store n)) (length key)" using start_store_ok(4) [OF assms(2)] .
  have sound: "tst_sound ?db Lf []" using create_tst_db_sound [of "\<lambda>_. zero_node"] by (simp add: zero_node_def)
  obtain st where st: "store_value (\<lambda>_. True) (start_store n) key len flag expire body = ret st" "store_inv st"
    "item_of st = (item_of (start_store n))(key \<mapsto> (flag, expire, body))" "st_vbuf st = st_vbuf (start_store n)"
    "offset_of st = (offset_of (start_store n))(key := of_nat (length (st_data (start_store n))))"
    using store_value_ok [OF start_store_ok(1) assms(1) r _ assms(3,4), of flag expire] start_store_ok(5) [of n] by auto
  have put: "tst_put (\<lambda>_. True) ?db key 6 = ret (st_tst st)"
    using st(1) start_store_ok(5) [of n]
    by (auto simp: store_value_def write_record_def write_log_def index_put_def Let_def run_bind_eq_ret start_store_def)
  have "clean_run (tst_put (\<lambda>_. True)) tst_delete tst_clean ?db [Put key 6, Del key]"
    by (rule clean_ops_run [OF sound]) (use k r assms(5) in \<open>auto simp: start_store_def\<close>)
  then have "key_safe st key" using put by (simp add: key_safe_def)
  moreover have "room (\<lambda>_. True) (st_tst st) m" if "room (\<lambda>_. True) ?db (length key + m)" for m
    using node_array.put_law [of ?db "\<lambda>_. True" key m 6] that k put node_array.linked_wf [OF fresh_linked] by auto
  ultimately show thesis
    using that st start_store_ok(5) [of n] by (simp add: start_store_def)
qed

section \<open>Range queries\<close>

lemma append_send_data_room:
  assumes "conn_inv c fl qi qo A" and "chunks (length k) + m < length fl"
  obtains c' fl' qo' where "append_send_data c k = ret c'" and "conn_inv c' fl' qi qo' A"
    and "appended A c c' qi qo qo' k" and "m < length fl'" and "length qo' \<le> length qo + length k div buf_unit + 1"
proof -
  have n: "send_need c qo (length k) < length fl" "m < length (drop (send_need c qo (length k)) fl)"
    using send_need_le [of c qo "length k"] assms(2) by simp_all
  show thesis
    by (rule append_send_data_count [OF assms(1) n(1)]) (use n(2) that in simp)
qed

definition keys_header :: "cstr \<times> int \<Rightarrow> cstr" where
  "keys_header out = cs ''KEYS '' @ print_int (snd out) @ cs '' '' @ print_int (int (length (fst out))) @ crlf"

lemma send_keys_ok:
  assumes "conn_inv c fl qi qo A"
    and "chunks (length (keys_header out)) + (chunks (length (fst out)) + (chunks 5 + 0)) < length fl"
  shows "\<exists>c'. send_keys c out = ret c' \<and> replied A qi qo c (keys_header out @ fst out @ text_line ''END'') c'"
proof -
  have e: "length (text_line ''END'') = 5" by (simp add: text_line_def cs_def crlf_def)
  obtain c1 fl1 qo1 where 1: "append_send_data c (keys_header out) = ret c1" "conn_inv c1 fl1 qi qo1 A"
    "appended A c c1 qi qo qo1 (keys_header out)" "chunks (length (fst out)) + (chunks 5 + 0) < length fl1"
    "length qo1 \<le> length qo + length (keys_header out) div buf_unit + 1"
    by (rule append_send_data_room [OF assms])
  obtain c2 fl2 qo2 where 2: "append_send_data c1 (fst out) = ret c2" "conn_inv c2 fl2 qi qo2 A"
    "appended A c1 c2 qi qo1 qo2 (fst out)" "chunks (length (text_line ''END'')) + 0 < length fl2"
    "length qo2 \<le> length qo1 + length (fst out) div buf_unit + 1"
    unfolding e by (rule append_send_data_room [OF 1(2,4)])
  obtain c3 fl3 qo3 where 3: "append_send_data c2 (text_line ''END'') = ret c3" "conn_inv c3 fl3 qi qo3 A"
    "appended A c2 c3 qi qo2 qo3 (text_line ''END'')" "length qo3 \<le> length qo2 + length (text_line ''END'') div buf_unit + 1"
    by (rule append_send_data_room [OF 2(2,4)])
  have "appended A c c3 qi qo qo3 (keys_header out @ fst out @ text_line ''END'')"
    using appended_trans [OF 1(3) appended_trans [OF 2(3) 3(3)]] by simp
  moreover have "send_keys c out = ret c3"
    using 1(1) 2(1) 3(1) by (cases out) (simp add: send_keys_def keys_header_def Let_def)
  moreover have "length qo3 \<le> length qo + length (keys_header out @ fst out @ text_line ''END'') div buf_unit + 3"
    using 1(5) 2(5) 3(4) by (simp add: buf_unit_def)
  ultimately show ?thesis
    using 3(2) unfolding replied_def by blast
qed

definition prefix_request :: "cstr \<Rightarrow> i32 \<Rightarrow> bool \<Rightarrow> cstr" where
  "prefix_request p limit asc = words [cs ''prefix'', p, num limit, cs (if asc then ''asc'' else ''desc'')]"

definition bound_request :: "string \<Rightarrow> cstr \<Rightarrow> i32 \<Rightarrow> cstr" where
  "bound_request m p limit = words [cs m, p, num limit]"

lemma parse_prefix:
  assumes "word_ok p" "length p < max_key_size"
  shows "sscanf prefix_format (prefix_request p limit asc) = ret [AStr p, AInt limit, AStr (cs (if asc then ''asc'' else ''desc''))]"
proof -
  let ?o = "cs (if asc then ''asc'' else ''desc'')"
  have "word_ok (cs ''asc'')" "word_ok (cs ''desc'')" "length (cs ''asc'') < 10" "length (cs ''desc'') < 10"
    by code_simp+
  then have o: "word_ok ?o" "length ?o < 10" by simp_all
  have "sscanf (Str 10 # []) (?o @ []) = ret [AStr ?o]"
    using sscanf_Str [OF o, of "[]" "[]"] by simp
  moreover have "sscanf (Ws # Str 10 # []) (CC 32 # ?o @ []) = sscanf (Str 10 # []) (?o @ [])"
    by (rule sscanf_Ws(1) [OF word_not_space [OF o(1)]])
  ultimately have w: "sscanf [Ws, Str 10] (CC 32 # ?o) = ret [AStr ?o]" by (simp only: append_Nil2)
  show ?thesis
    using assms by (simp add: prefix_format_def prefix_request_def num_def space_def scan_steps sscanf_Lit w del: sscanf.simps(2-6))
qed

lemma parse_bound:
  assumes "word_ok p" "length p < max_key_size"
  shows "sscanf less_format (bound_request ''less'' p limit) = ret [AStr p, AInt limit]"
    and "sscanf greater_format (bound_request ''greater'' p limit) = ret [AStr p, AInt limit]"
proof -
  have "sscanf [Dec] (print_int (sint limit) @ []) = ret [AInt limit]"
    using sscanf_Dec [of "[]" "[]" limit] by simp
  moreover have "sscanf [Ws, Dec] (CC 32 # print_int (sint limit) @ []) = sscanf [Dec] (print_int (sint limit) @ [])"
    by (rule sscanf_Ws(1) [OF print_int_not_space])
  ultimately have w: "sscanf [Ws, Dec] (CC 32 # print_int (sint limit)) = ret [AInt limit]"
    by (simp only: append_Nil2)
  show "sscanf less_format (bound_request ''less'' p limit) = ret [AStr p, AInt limit]"
    "sscanf greater_format (bound_request ''greater'' p limit) = ret [AStr p, AInt limit]"
    using assms by (simp_all add: w less_format_def greater_format_def bound_request_def num_def space_def scan_steps sscanf_Lit
        del: sscanf.simps(2-6))
qed

text \<open>The outcome of a query whose scan has the outcome \<open>res\<close>; \<open>keys_room\<close> is the buffers it takes.\<close>

definition keys_room :: "cstr \<times> int \<Rightarrow> nat" where
  "keys_room out = chunks (length (keys_header out)) + (chunks (length (fst out)) + chunks 5)"

definition keys_answered ::
  "nat set \<Rightarrow> nat list \<Rightarrow> nat list \<Rightarrow> nat list \<Rightarrow> conn \<Rightarrow> (cstr \<times> int) run \<Rightarrow> conn run \<Rightarrow> bool"
where
  "keys_answered A fl qi qo c res r \<longleftrightarrow>
     (\<forall>e. res = abort_with e \<longrightarrow> r = abort_with e) \<and>
     (\<forall>out. res = ret out \<and> keys_room out < length fl \<longrightarrow>
        (\<exists>c'. r = ret c' \<and> replied A qi qo c (keys_header out @ fst out @ text_line ''END'') c'))"

lemma keys_answered_bind:
  assumes "conn_inv c fl qi qo A"
  shows "keys_answered A fl qi qo c res (run_bind res (send_keys c))"
  using send_keys_ok [OF assms] by (auto simp: keys_answered_def keys_room_def)

lemma range_request_text:
  assumes "word_ok p"
  shows "0 \<notin> set (prefix_request p limit asc)" and "0 \<notin> set (bound_request ''less'' p limit)"
    and "0 \<notin> set (bound_request ''greater'' p limit)"
proof -
  have "0 \<notin> set (cs ''prefix'')" "0 \<notin> set (cs ''asc'')" "0 \<notin> set (cs ''desc'')" "0 \<notin> set (cs ''less'')"
    "0 \<notin> set (cs ''greater'')" by code_simp+
  then show "0 \<notin> set (prefix_request p limit asc)" "0 \<notin> set (bound_request ''less'' p limit)"
    "0 \<notin> set (bound_request ''greater'' p limit)"
    using word_ok_text [OF assms] print_int_text(1) by (auto simp: prefix_request_def bound_request_def num_def space_def)
qed

lemma prefix_query:
  assumes "conn_inv c fl qi qo A" and p: "word_ok p" "length p < max_key_size" and h: "holds header (prefix_request p limit asc)"
  shows "keys_answered A fl qi qo c (tst_prefix (st_tst st) prefix_buf_size p ([], 0) (clamp_limit limit) asc)
    (cmd_do_prefix st c header)"
proof -
  have "cs ''desc'' \<noteq> cs ''asc''" by code_simp
  then have "(cs (if asc then ''asc'' else ''desc'') = cs ''asc'') = asc" by simp
  then have "cmd_do_prefix st c header =
      run_bind (tst_prefix (st_tst st) prefix_buf_size p ([], 0) (clamp_limit limit) asc) (send_keys c)"
    by (simp add: cmd_do_prefix_def cstr_of_holds [OF h range_request_text(1) [OF p(1)]] parse_prefix [OF p] Let_def)
  then show ?thesis using keys_answered_bind [OF assms(1)] by simp
qed

lemma bound_query:
  assumes "conn_inv c fl qi qo A" and p: "word_ok p" "length p < max_key_size"
  shows "holds header (bound_request ''less'' p limit) \<Longrightarrow>
      keys_answered A fl qi qo c (tst_less (st_tst st) prefix_buf_size p ([], 0) (clamp_limit limit)) (cmd_do_less st c header)"
    and "holds header (bound_request ''greater'' p limit) \<Longrightarrow>
      keys_answered A fl qi qo c (tst_greater (st_tst st) prefix_buf_size p ([], 0) (clamp_limit limit)) (cmd_do_greater st c header)"
proof -
  assume h: "holds header (bound_request ''less'' p limit)"
  have "cmd_do_less st c header =
      run_bind (tst_less (st_tst st) prefix_buf_size p ([], 0) (clamp_limit limit)) (send_keys c)"
    by (simp add: cmd_do_less_def cstr_of_holds [OF h range_request_text(2) [OF p(1)]] parse_bound(1) [OF p])
  then show "keys_answered A fl qi qo c (tst_less (st_tst st) prefix_buf_size p ([], 0) (clamp_limit limit)) (cmd_do_less st c header)"
    using keys_answered_bind [OF assms(1)] by simp
next
  assume h: "holds header (bound_request ''greater'' p limit)"
  have "cmd_do_greater st c header =
      run_bind (tst_greater (st_tst st) prefix_buf_size p ([], 0) (clamp_limit limit)) (send_keys c)"
    by (simp add: cmd_do_greater_def cstr_of_holds [OF h range_request_text(3) [OF p(1)]] parse_bound(2) [OF p])
  then show "keys_answered A fl qi qo c (tst_greater (st_tst st) prefix_buf_size p ([], 0) (clamp_limit limit)) (cmd_do_greater st c header)"
    using keys_answered_bind [OF assms(1)] by simp
qed

section \<open>Properties\<close>

text \<open>
  C14. What is set is got: after a \<open>set\<close> has been handled, a \<open>get\<close> of the key on any connection
  answers with the flag and exactly the bytes of the body, as long as the item has not expired and
  the answer fits the value buffer.
\<close>

theorem set_then_get:
  assumes "store_inv st" and "line_ok m key rest" and "key_ok key"
    and "holds header (set_request m key flag expire len rest)"
    and "0 \<le> sint len" and "holds body bytes" and "int (length bytes) = sint len"
    and "room rl (st_tst st) (length key)" and "length (st_data st) < 2 ^ 64"
    and "conn_inv c fl qi qo A" and "send_need c qo 8 < length fl"
    and "\<not> expired now2 (expire_at now expire)" and "0 \<notin> set m2" and "space \<notin> set m2"
    and "holds header2 (get_request m2 [key])"
    and "length (value_line False key flag len 0 @ bytes @ crlf) + 5 \<le> length (st_vbuf st)"
    and "conn_inv c2 fl2 qi2 qo2 A2"
    and "send_need c2 qo2 (length (value_line False key flag len 0 @ bytes @ crlf) + 5) < length fl2"
  shows "\<exists>st1 c1 st2. cmd_do_set rl now st c header body = ret (st1, c1) \<and>
    handled A2 qi2 qo2 c2 (cmd_do_get now2 False st1 c2 header2) st2
      (value_line False key flag len 0 @ bytes @ crlf @ text_line ''END'')"
proof -
  obtain st1 where st1: "handled A qi qo c (cmd_do_set rl now st c header body) st1
      (if ends_with (set_request m key flag expire len rest) (cs '' noreply'') then [] else text_line ''STORED'')"
    "store_inv st1" "item_of st1 = (item_of st)(key \<mapsto> (flag, expire_at now expire, bytes))" "st_vbuf st1 = st_vbuf st"
    using cmd_do_set_ok [OF assms(1,2,4-11)] by blast
  have "(of_nat (length bytes) :: i32) = of_int (int (length bytes))" by simp
  then have l: "of_nat (length bytes) = len" unfolding assms(7) by simp
  have v: "value_line False key flag len off = value_line False key flag len 0" for off
    by (simp add: value_line_def)
  have a: "answer False st1 key = value_line False key flag len 0 @ bytes @ crlf"
    using st1(3) l v [of "offset_of st1 key"] by (simp add: answer_def)
  have live: "\<forall>k \<in> set [key]. key_ok k \<and> live now2 st1 k"
    using assms(3,12) st1(3) by (simp add: live_def)
  show ?thesis
    using cmd_do_get_ok [OF st1(2) _ live assms(13-15) _ assms(17), of False] st1(1,4) a assms(16,18)
    by (auto simp: handled_def)
qed

text \<open>The server after start and two connections of one worker's pool, for the closed instances.\<close>

lemma fresh_conn:
  obtains p where "bp_new True 20 = ret p" and "conn_inv (new_conn p) [0..<20] [] [] {}"
    and "\<forall>n \<le> 1000. send_need (new_conn p) [] n < length [0..<20]"
proof -
  obtain p where p: "bp_new True 20 = ret p" "pool_inv p [0..<20] {}"
    using bp_new_ok [of 20] by auto
  have "send_need (new_conn p) [] n < length [0..<20]" if "n \<le> 1000" for n
  proof -
    have "(n + 511) div 512 \<le> 2" using that by simp
    then show ?thesis by (simp add: send_need_def chunks_def buf_unit_def)
  qed
  then show thesis using that p new_conn_ok by blast
qed

lemma sample_words:
  "line_ok (cs ''set'') (cs ''a'') []" "line_ok (cs ''cas'') (cs ''a'') []" "line_ok (cs ''delete'') (cs ''a'') []"
  "line_ok (cs ''incr'') (cs ''a'') []" "key_ok (cs ''a'')" "word_ok (cs ''a'')" "0 \<notin> set (cs ''get'')" "space \<notin> set (cs ''get'')"
  by code_simp+

lemma sample_lone: "lone (ins Lf (cs ''a'') v) (cs ''a'')"
  by (simp add: cs_def lone_def)

theorem set_then_get_witness:
  "\<exists>p st1 c1 st2. bp_new True 20 = ret p \<and>
    cmd_do_set (\<lambda>_. True) 1000 (start_store 100) (new_conn p) (set_request (cs ''set'') (cs ''a'') 5 0 2 [] @ [0])
      (cs ''hi'' @ [0]) = ret (st1, c1) \<and>
    handled {} [] [] (new_conn p) (cmd_do_get 2000 False st1 (new_conn p) (cs ''get a'' @ [0])) st2
      (value_line False (cs ''a'') 5 2 0 @ cs ''hi'' @ crlf @ text_line ''END'')"
proof (rule fresh_conn)
  fix p assume p: "bp_new True 20 = ret p" "conn_inv (new_conn p) [0..<20] [] [] {}"
    "\<forall>n \<le> 1000. send_need (new_conn p) [] n < length [0..<20]"
  note p = p(1,2) p(3) [rule_format]
  have e: "\<not> expired 2000 (expire_at 1000 0)" by (simp add: expired_def expire_at_def)
  have l: "length (value_line False (cs ''a'') 5 2 0 @ cs ''hi'' @ crlf) = 17" by code_simp
  have g: "get_request (cs ''get'') [cs ''a''] = cs ''get a''" by code_simp
  have r: "room (\<lambda>_. True) (st_tst (start_store 100)) (length (cs ''a''))"
    by (rule start_store_ok(4)) (simp add: cs_def)
  show ?thesis
    using set_then_get [OF start_store_ok(1) sample_words(1,5) _ _ _ _ r _ p(2) p(3) e sample_words(7,8) _ _ p(2) p(3),
        of "set_request (cs ''set'') (cs ''a'') 5 0 2 [] @ [0]" 5 2 "cs ''hi'' @ [0]" "cs ''hi''" "cs ''get a'' @ [0]"]
      p(1) start_store_ok(5) [of 100] unfolding l g by (auto simp: holds_def start_store_def cs_def)
qed

text \<open>
  C15. A \<open>get\<close> of several keys answers for each key in the order asked: nothing for a key without
  item, otherwise the line with key, flag and length (and the offset as \<open>cas\<close> sign for \<open>gets\<close>)
  and the body; the store stays as it is.
\<close>

theorem get_answers:
  assumes "store_inv st" and "ws \<noteq> []" and "\<forall>k \<in> set ws. key_ok k \<and> live now st k"
    and "0 \<notin> set m" and "space \<notin> set m" and "holds header (get_request m ws)"
    and "length (concat (map (answer sign st) ws)) + 5 \<le> length (st_vbuf st)"
    and "conn_inv c fl qi qo A" and "send_need c qo (length (concat (map (answer sign st) ws)) + 5) < length fl"
  shows "\<exists>vb. handled A qi qo c (cmd_do_get now sign st c header) (st\<lparr>st_vbuf := vb\<rparr>)
    (concat (map (answer sign st) ws) @ text_line ''END'')"
  using cmd_do_get_ok [OF assms] unfolding handled_def by blast

theorem get_answers_witness:
  "\<exists>p st vb. bp_new True 20 = ret p \<and> item_of st (cs ''a'') = Some (5, 0, cs ''hi'') \<and>
    handled {} [] [] (new_conn p) (cmd_do_get 2000 True st (new_conn p) (cs ''gets b a'' @ [0])) (st\<lparr>st_vbuf := vb\<rparr>)
      (cs ''VALUE a 5 2 6'' @ crlf @ cs ''hi'' @ crlf @ text_line ''END'')"
proof -
  obtain p where p: "bp_new True 20 = ret p" "conn_inv (new_conn p) [0..<20] [] [] {}"
    "\<forall>n \<le> 1000. send_need (new_conn p) [] n < length [0..<20]"
    by (rule fresh_conn)
  note p = p(1,2) p(3) [rule_format]
  obtain st where st: "store_value (\<lambda>_. True) (start_store 100) (cs ''a'') 2 5 0 (cs ''hi'') = ret st"
    "store_inv st" "item_of st (cs ''a'') = Some (5, 0, cs ''hi'')" "length (st_vbuf st) = 100" "offset_of st (cs ''a'') = 6"
    by (rule single_item [OF sample_words(6) _ _ _ sample_lone, of 2 "cs ''hi''" 100 5 0]) (auto simp: cs_def)
  have b: "offset_of st (cs ''b'') = 0"
    using store_value_ok [OF start_store_ok(1) sample_words(6), of "\<lambda>_. True" 100 2 "cs ''hi''" 5 0] st(1)
      start_store_ok(2,4,5) by (auto simp: cs_def)
  then have "answer True st (cs ''b'') = []" by (simp add: answer_def item_of_def)
  moreover have "answer True st (cs ''a'') = cs ''VALUE a 5 2 6'' @ crlf @ cs ''hi'' @ crlf"
  proof -
    have "answer True st (cs ''a'') = value_line True (cs ''a'') 5 (of_nat (length (cs ''hi''))) 6 @ cs ''hi'' @ crlf"
      using st(3,5) by (simp add: answer_def)
    also have "\<dots> = cs ''VALUE a 5 2 6'' @ crlf @ cs ''hi'' @ crlf" by code_simp
    finally show ?thesis .
  qed
  ultimately have a: "concat (map (answer True st) [cs ''b'', cs ''a'']) = cs ''VALUE a 5 2 6'' @ crlf @ cs ''hi'' @ crlf"
    by simp
  have k: "\<forall>k \<in> set [cs ''b'', cs ''a'']. key_ok k \<and> live 2000 st k"
  proof -
    have "key_ok (cs ''b'')" "key_ok (cs ''a'')" by code_simp+
    moreover have "live 2000 st (cs ''b'')" "live 2000 st (cs ''a'')"
      using b st(3) by (simp_all add: live_def item_of_def expired_def)
    ultimately show ?thesis by simp
  qed
  have g: "get_request (cs ''gets'') [cs ''b'', cs ''a''] = cs ''gets b a''" by code_simp
  have m: "0 \<notin> set (cs ''gets'')" "space \<notin> set (cs ''gets'')" by code_simp+
  have l: "length (cs ''VALUE a 5 2 6'' @ crlf @ cs ''hi'' @ crlf) = 19" by code_simp
  have h: "holds (cs ''gets b a'' @ [0]) (cs ''gets b a'')" by (simp add: holds_def)
  have "\<exists>vb. handled {} [] [] (new_conn p) (cmd_do_get 2000 True st (new_conn p) (cs ''gets b a'' @ [0]))
      (st\<lparr>st_vbuf := vb\<rparr>) (concat (map (answer True st) [cs ''b'', cs ''a'']) @ text_line ''END'')"
    by (rule get_answers [OF st(2) _ k m _ _ p(2) p(3)]) (use a l g h st(4) in simp_all)
  then show ?thesis
    using p(1) st(3) unfolding a by auto
qed

text \<open>
  C16. \<open>cas\<close> stores its body exactly when the key's item is still the one whose sign the request
  carries (0 for no item), and says which; otherwise nothing changes. Storing changes the sign.
\<close>

theorem cas_stores_if_unchanged:
  assumes "store_inv st" and "line_ok m key rest" and "holds header (cas_request m key flag expire len sign rest)"
    and "0 \<le> sint len" and "holds body bytes" and "int (length bytes) = sint len"
    and "room rl (st_tst st) (length key)" and "length (st_data st) < 2 ^ 64"
    and "conn_inv c fl qi qo A" and "send_need c qo 8 < length fl"
  shows "\<exists>st'. handled A qi qo c (cmd_do_cas rl st c header body) st'
      (if ends_with (cas_request m key flag expire len sign rest) (cs '' noreply'') then []
       else if offset_of st key = sign then text_line ''STORED'' else text_line ''EXISTS'') \<and>
    store_inv st' \<and>
    (if offset_of st key = sign
     then item_of st' = (item_of st)(key \<mapsto> (flag, expire, bytes)) \<and>
          offset_of st' = (offset_of st)(key := of_nat (length (st_data st)))
     else st' = st)"
  using cmd_do_cas_ok [OF assms] .

theorem cas_stores_if_unchanged_witness:
  "\<exists>p st'. bp_new True 20 = ret p \<and>
    handled {} [] [] (new_conn p) (cmd_do_cas (\<lambda>_. True) (start_store 100) (new_conn p)
      (cas_request (cs ''cas'') (cs ''a'') 5 0 2 0 [] @ [0]) (cs ''hi'' @ [0])) st' (text_line ''STORED'') \<and>
    item_of st' (cs ''a'') = Some (5, 0, cs ''hi'')"
proof (rule fresh_conn)
  fix p assume p: "bp_new True 20 = ret p" "conn_inv (new_conn p) [0..<20] [] [] {}"
    "\<forall>n \<le> 1000. send_need (new_conn p) [] n < length [0..<20]"
  note p = p(1,2) p(3) [rule_format]
  have e: "\<not> ends_with (cas_request (cs ''cas'') (cs ''a'') 5 0 2 0 []) (cs '' noreply'')" by code_simp
  have r: "room (\<lambda>_. True) (st_tst (start_store 100)) (length (cs ''a''))"
    by (rule start_store_ok(4)) (simp add: cs_def)
  show ?thesis
    using cas_stores_if_unchanged [OF start_store_ok(1) sample_words(2) _ _ _ _ r _ p(2) p(3),
        of "cas_request (cs ''cas'') (cs ''a'') 5 0 2 0 [] @ [0]" 5 0 2 0 "cs ''hi'' @ [0]" "cs ''hi''"]
      p(1) start_store_ok(2,5) e by (auto simp: holds_def cs_def)
qed

text \<open>
  C17. \<open>delete\<close> takes the key's item away, logs it, and answers whether there was one; a key without
  item changes nothing. The hypothesis on the index is that no node with two children goes.
\<close>

theorem delete_removes_item:
  assumes "store_inv st" and "line_ok m key rest" and "holds header (words [m, key] @ rest)"
    and "offset_of st key \<noteq> 0 \<longrightarrow> key_safe st key"
    and "conn_inv c fl qi qo A" and "send_need c qo (if offset_of st key = 0 then 11 else 9) < length fl"
  shows "\<exists>st'. handled A qi qo c (cmd_do_delete st c header) st'
      (if item_of st key = None then text_line ''NOT_FOUND'' else text_line ''DELETED'') \<and>
    store_inv st' \<and> item_of st' = (item_of st)(key := None) \<and> (item_of st key = None \<longrightarrow> st' = st) \<and>
    (item_of st key \<noteq> None \<longrightarrow> st_log st' = st_log st @ log_entry key 0) \<and> st_data st' = st_data st"
  using cmd_do_delete_ok [OF assms] .

theorem delete_removes_item_witness:
  "\<exists>p st st'. bp_new True 20 = ret p \<and> item_of st (cs ''a'') = Some (5, 0, cs ''hi'') \<and>
    handled {} [] [] (new_conn p) (cmd_do_delete st (new_conn p) (words [cs ''delete'', cs ''a''] @ [0])) st'
      (text_line ''DELETED'') \<and> item_of st' (cs ''a'') = None"
proof -
  obtain p where p: "bp_new True 20 = ret p" "conn_inv (new_conn p) [0..<20] [] [] {}"
    "\<forall>n \<le> 1000. send_need (new_conn p) [] n < length [0..<20]"
    by (rule fresh_conn)
  note p = p(1,2) p(3) [rule_format]
  obtain st where st: "store_inv st" "item_of st (cs ''a'') = Some (5, 0, cs ''hi'')" "key_safe st (cs ''a'')"
    by (rule single_item [OF sample_words(6) _ _ _ sample_lone, of 2 "cs ''hi''" 100 5 0]) (auto simp: cs_def)
  have h: "holds (words [cs ''delete'', cs ''a''] @ [0]) (words [cs ''delete'', cs ''a''] @ [])"
    by (simp add: holds_def)
  have s: "send_need (new_conn p) [] (if offset_of st (cs ''a'') = 0 then 11 else 9) < length [0..<20]"
    by (rule p(3)) simp
  obtain st' where "handled {} [] [] (new_conn p)
      (cmd_do_delete st (new_conn p) (words [cs ''delete'', cs ''a''] @ [0])) st' (text_line ''DELETED'')"
    "item_of st' = (item_of st)(cs ''a'' := None)"
    using delete_removes_item [OF st(1) sample_words(3) h _ p(2) s] st(2,3) by auto
  moreover from this(2) have "item_of st' (cs ''a'') = None" by simp
  ultimately show ?thesis
    using p(1) st(2) by blast
qed



text \<open>
  C19. A \<open>get\<close> of a key whose item has expired answers nothing for it and removes the item, in the
  index and in the log.
\<close>

theorem expired_get_removes:
  assumes "store_inv st" and "key_ok key" and "item_of st key = Some (flag, expire, body)" and "expired now expire"
    and "key_safe st key" and "0 \<notin> set m" and "space \<notin> set m" and "holds header (get_request m [key])"
    and "5 \<le> length (st_vbuf st)" and "conn_inv c fl qi qo A" and "send_need c qo 5 < length fl"
  shows "\<exists>st'. handled A qi qo c (cmd_do_get now sign st c header) st' (text_line ''END'') \<and>
    store_inv st' \<and> item_of st' = (item_of st)(key := None) \<and> st_log st' = st_log st @ log_entry key 0"
  using cmd_do_get_expired_ok [OF assms] .

theorem expired_get_removes_witness:
  "\<exists>p st st'. bp_new True 20 = ret p \<and> item_of st (cs ''a'') = Some (5, 1000, cs ''hi'') \<and>
    handled {} [] [] (new_conn p) (cmd_do_get 1000 False st (new_conn p) (cs ''get a'' @ [0])) st' (text_line ''END'') \<and>
    item_of st' (cs ''a'') = None"
proof -
  obtain p where p: "bp_new True 20 = ret p" "conn_inv (new_conn p) [0..<20] [] [] {}"
    "\<forall>n \<le> 1000. send_need (new_conn p) [] n < length [0..<20]"
    by (rule fresh_conn)
  note p = p(1,2) p(3) [rule_format]
  obtain st where st: "store_inv st" "item_of st (cs ''a'') = Some (5, 1000, cs ''hi'')" "key_safe st (cs ''a'')"
    "length (st_vbuf st) = 100"
    by (rule single_item [OF sample_words(6) _ _ _ sample_lone, of 2 "cs ''hi''" 100 5 1000]) (auto simp: cs_def)
  have h: "holds (cs ''get a'' @ [0]) (get_request (cs ''get'') [cs ''a''])" by code_simp
  have e: "expired 1000 1000" by (simp add: expired_def)
  obtain st' where "handled {} [] [] (new_conn p) (cmd_do_get 1000 False st (new_conn p) (cs ''get a'' @ [0])) st'
      (text_line ''END'')" "item_of st' = (item_of st)(cs ''a'' := None)"
    using expired_get_removes [OF st(1) sample_words(5) st(2) e st(3) sample_words(7,8) h _ p(2) p(3), of False] st(4)
    by auto
  moreover from this(2) have "item_of st' (cs ''a'') = None" by simp
  ultimately show ?thesis
    using p(1) st(2) by blast
qed

text \<open>
  C21. A key of 256 bytes or more in a request that changes the store is written beyond the key
  array: all of \<open>set\<close>, \<open>cas\<close>, \<open>delete\<close>, \<open>incr\<close> and \<open>decr\<close> run into undefined behaviour.
\<close>

theorem long_key_overflows:
  assumes "word_ok m" and "length m < header_buf_size" and "word_ok key" and "max_key_size \<le> length key"
    and "spaced rest" and "0 \<notin> set rest" and "holds header (words [m, key] @ rest)"
  shows "cmd_do_set rl now st c header body = abort_with Undefined \<and>
    cmd_do_cas rl st c header body = abort_with Undefined \<and> cmd_do_delete st c header = abort_with Undefined \<and>
    incr_or_decr rl st c header is_decr = abort_with Undefined"
proof -
  have s: "cstr_of header = ret (words [m, key] @ rest)"
    by (rule cstr_of_holds [OF assms(7)]) (use assms word_ok_text in \<open>auto simp: space_def\<close>)
  note P = parse_long_key [OF assms(1-5)]
  show ?thesis
    unfolding cmd_do_set_def cmd_do_cas_def cmd_do_delete_def incr_or_decr_def s
    by (simp add: cmd_set_format_def cmd_cas_format_def key_format_def incr_format_def P [simplified])
qed

theorem long_key_overflows_witness:
  "\<forall>st c. cmd_do_delete st c (words [cs ''delete'', replicate 256 (CC 97)] @ [0]) = abort_with Undefined"
proof -
  have w: "word_ok (cs ''delete'')" "length (cs ''delete'') < header_buf_size" by code_simp+
  have k: "word_ok (replicate 256 (CC 97))" by (simp add: word_ok_def list_all_iff is_space_def)
  show ?thesis
    using long_key_overflows [OF w k, of "[]" "words [cs ''delete'', replicate 256 (CC 97)] @ [0]"]
    by (simp add: holds_def max_key_size_def)
qed

text \<open>
  C22. \<open>get_body_len\<close> cuts the announced length down to 1,000,000 bytes, \<open>cmd_do_set\<close> parses the
  header again and does not: an announced length above the size of the body buffer makes it write
  memory beyond the buffer to the data file.
\<close>

theorem set_reads_beyond_body:
  assumes "line_ok m key rest" and "holds header (set_request m key flag expire len rest)"
    and "int (length body) < sint len"
  shows "cmd_do_set rl now st c header body = abort_with Undefined"
proof -
  have s: "cstr_of header = ret (set_request m key flag expire len rest)"
    by (rule cstr_of_holds [OF assms(2) request_text(1) [OF assms(1)]])
  have p: "sscanf cmd_set_format (set_request m key flag expire len rest) =
      ret [AStr m, AStr key, AInt flag, AInt expire, AInt len]"
    using parse_set assms(1) unfolding set_request_def line_ok_def by blast
  show ?thesis
    using s p mem_get_beyond [OF assms(3)] assms(3) by (simp add: cmd_do_set_def Let_def)
qed

theorem set_reads_beyond_body_witness:
  "header_body (set_request (cs ''set'') (cs ''a'') 0 0 2000001 []) = ret (True, 1000000) \<and>
   (\<forall>rl now st c. cmd_do_set rl now st c (set_request (cs ''set'') (cs ''a'') 0 0 2000001 [] @ [0])
      (replicate 2000000 0) = abort_with Undefined)"
proof -
  have "sint (2000001 :: i32) = 2000001" by simp
  then have "header_body (set_request (cs ''set'') (cs ''a'') 0 0 2000001 []) = ret (True, 1000000)"
    using header_body_set [OF sample_words(1), of 0 0 2000001] by (simp add: clamp_value_len_def value_limit_def)
  moreover have h: "holds (set_request (cs ''set'') (cs ''a'') 0 0 2000001 [] @ [0]) (set_request (cs ''set'') (cs ''a'') 0 0 2000001 [])"
    by (simp add: holds_def)
  have l: "int (length (replicate 2000000 (0 :: cchar))) < sint (2000001 :: i32)" by simp
  note set_reads_beyond_body [OF sample_words(1) h l]
  ultimately show ?thesis by blast
qed



end
