(* ===== verification/Persist.thy ===== *)
theory Persist
  imports Cmd_Ok
begin

text \<open>
  Start and shutdown of \<open>v2/src/tstserver.c\<close>: \<open>init_data\<close> with \<open>reload_index\<close> and
  \<open>replay_binlog\<close>, and \<open>dump_tst\<close>. The invariant is that the binary log, replayed on the index
  the server started from, gives the index in memory, node for node: every handler keeps it, so
  a server that is killed comes back with what it had.
\<close>

section \<open>The files\<close>

text \<open>
  \<open>fs_index\<close> is the dumped index, if there is one: the file holds the bytes of the two
  structures, the model keeps the structures.
\<close>

record files =
  fs_data :: "byte list"
  fs_log :: "byte list"
  fs_index :: "tst_db option"

definition value_buf_size :: nat where
  "value_buf_size = 2000000"

definition reload_index :: "(u32 \<Rightarrow> tst_node) \<Rightarrow> tst_db option \<Rightarrow> tst_db" where
  "reload_index mem index_file =
     (case index_file of Some db \<Rightarrow> db | None \<Rightarrow> create_tst_db mem)"

text \<open>
  One entry after the other from the rest \<open>s\<close> of the file, until it ends or an entry is not
  whole; \<open>pos\<close> counts the bytes of the whole ones.
\<close>

partial_function (option) replay_loop ::
  "(u64 \<Rightarrow> bool) \<Rightarrow> tst_db \<Rightarrow> byte list \<Rightarrow> nat \<Rightarrow> (tst_db \<times> nat) run"
where
  "replay_loop rl db s pos =
     (case read_field 4 dec32 s of
        None \<Rightarrow> ret (db, pos)
      | Some (n, s) \<Rightarrow>
        if sint n \<le> 0 then ret (db, pos)
        else
          let k = nat (sint n); got = take k s in
          if max_key_size < length got then abort_with Undefined
          else if length got \<noteq> k then ret (db, pos)
          else if max_key_size \<le> k then abort_with Undefined
          else
            (case read_field 8 dec64 (drop k s) of
               None \<Rightarrow> ret (db, pos)
             | Some (v, s) \<Rightarrow>
               run_bind (cstr_of (map CC got @ [0])) (\<lambda>key.
               run_bind (if 0 < v then tst_put rl db key v else tst_delete db key) (\<lambda>db.
               replay_loop rl db s (pos + 4 + k + 8)))))"

text \<open>
  The position goes through an \<open>int\<close>; \<open>ftruncate\<close> refuses a negative length and leaves the file.
\<close>

definition truncate_log :: "byte list \<Rightarrow> nat \<Rightarrow> byte list" where
  "truncate_log log pos =
     (let last_success_pos = sint (of_nat pos :: i32) in
      if last_success_pos < 0 then log else take (nat last_success_pos) log)"

definition replay_binlog :: "(u64 \<Rightarrow> bool) \<Rightarrow> tst_db \<Rightarrow> byte list \<Rightarrow> (tst_db \<times> byte list) run" where
  "replay_binlog rl db log =
     run_bind (replay_loop rl db log 0) (\<lambda>(db, pos). ret (db, truncate_log log pos))"

text \<open>\<open>opens\<close>: the files can be opened.\<close>

definition init_data :: "(u64 \<Rightarrow> bool) \<Rightarrow> (u32 \<Rightarrow> tst_node) \<Rightarrow> bool \<Rightarrow> files \<Rightarrow> store run" where
  "init_data rl mem opens fs =
     (if \<not> opens then abort_with Assert_failed
      else
        let data = (if length (fs_data fs) = 0 then map cc_byte (cs ''[2012]'') else fs_data fs) in
        run_bind (replay_binlog rl (reload_index mem (fs_index fs)) (fs_log fs)) (\<lambda>(db, log).
        ret \<lparr>st_tst = db, st_data = data, st_log = log, st_vbuf = replicate value_buf_size 0\<rparr>))"

text \<open>The two steps of the shutdown that can be seen from outside: the new index, then no log.\<close>

definition install_index :: "store \<Rightarrow> files \<Rightarrow> files" where
  "install_index st fs = fs\<lparr>fs_index := Some (st_tst st)\<rparr>"

definition remove_binlog :: "files \<Rightarrow> files" where
  "remove_binlog fs = fs\<lparr>fs_log := []\<rparr>"

definition dump_tst :: "store \<Rightarrow> files \<Rightarrow> files" where
  "dump_tst st fs = remove_binlog (install_index st fs)"

text \<open>What is on the disk while the server runs.\<close>

definition disk_of :: "tst_db option \<Rightarrow> store \<Rightarrow> files" where
  "disk_of idx st = \<lparr>fs_data = st_data st, fs_log = st_log st, fs_index = idx\<rparr>"

section \<open>Log entries\<close>

text \<open>An entry that the handlers can write.\<close>

definition entry_ok :: "cstr \<times> u64 \<Rightarrow> bool" where
  "entry_ok e \<longleftrightarrow> fst e \<noteq> [] \<and> 0 \<notin> set (fst e) \<and> length (fst e) < max_key_size"

definition entry_bytes :: "cstr \<times> u64 \<Rightarrow> byte list" where
  "entry_bytes e = log_entry (fst e) (snd e)"

definition entry_op :: "cstr \<times> u64 \<Rightarrow> tst_op" where
  "entry_op e = (if 0 < snd e then Put (fst e) (snd e) else Del (fst e))"

lemma map_CC_byte [simp]: "map CC (map cc_byte s) = s"
  by (induction s) auto

lemma map_CC_comp [simp]: "map (CC \<circ> cc_byte) s = s"
  by (induction s) auto

lemma entry_key_len:
  assumes "length k < max_key_size"
  shows "sint (of_nat (length k) :: i32) = int (length k)"
proof -
  have "length k < 2 ^ 31" using assms by (simp add: max_key_size_def)
  from len_of_nat [OF this] show ?thesis by linarith
qed

lemma cstr_of_append_zero: "0 \<notin> set k \<Longrightarrow> cstr_of (k @ [0]) = ret k"
  by (rule cstr_of_holds) (simp_all add: holds_def)

lemma replay_entry:
  assumes "entry_ok e"
  shows "replay_loop rl db (entry_bytes e @ s) pos =
    run_bind (run_op (tst_put rl) tst_delete db (entry_op e)) (\<lambda>db. replay_loop rl db s (pos + length (entry_bytes e)))"
proof -
  obtain k v where e: "e = (k, v)" by (cases e)
  have k: "k \<noteq> []" "0 \<notin> set k" "length k < max_key_size"
    using assms by (simp_all add: entry_ok_def e)
  have r: "read_field 4 dec32 (entry_bytes e @ s) = Some (of_nat (length k), map cc_byte k @ enc64 v @ s)"
    using int32.read_enc [of "of_nat (length k)"] by (simp add: e entry_bytes_def log_entry_def)
  have r2: "read_field 8 dec64 (enc64 v @ s) = Some (v, s)"
    by (rule uint64.read_enc)
  have l: "length (entry_bytes e) = 4 + length k + 8"
    by (simp add: e entry_bytes_def log_entry_def int32.enc_length uint64.enc_length)
  have n: "sint (of_nat (length k) :: i32) = int (length k)" "0 < int (length k)"
    using entry_key_len [OF k(3)] k(1) by simp_all
  show ?thesis
    unfolding l using k(3) n r2 cstr_of_append_zero [OF k(2)]
    by (subst replay_loop.simps) (simp add: r [unfolded e] Let_def e entry_op_def add.assoc)
qed

text \<open>What a crash can leave of an entry: a part of it.\<close>

lemma replay_torn:
  assumes "entry_ok e" and "strict_prefix t (entry_bytes e)"
  shows "replay_loop rl db t pos = ret (db, pos)"
proof -
  obtain k v where e: "e = (k, v)" by (cases e)
  have k: "k \<noteq> []" "length k < max_key_size"
    using assms(1) by (simp_all add: entry_ok_def e)
  have n: "sint (of_nat (length k) :: i32) = int (length k)" "0 < int (length k)"
    using entry_key_len [OF k(2)] k(1) by simp_all
  let ?n = "of_nat (length k) :: i32"
  have b: "entry_bytes e = enc32 ?n @ map cc_byte k @ enc64 v"
    by (simp add: e entry_bytes_def log_entry_def)
  have lt: "length t < 4 + length k + 8" and pt: "prefix t (enc32 ?n @ map cc_byte k @ enc64 v)"
    using assms(2) prefix_length_less [OF assms(2)] unfolding b
    by (simp_all add: int32.enc_length uint64.enc_length strict_prefix_def)
  show ?thesis
  proof (cases "length t < 4")
    case True
    then show ?thesis by (subst replay_loop.simps) (simp add: int32.read_cut)
  next
    case False
    obtain u where u: "t @ u = enc32 ?n @ map cc_byte k @ enc64 v" using pt by (auto simp: prefix_def)
    have t4: "take 4 t = enc32 ?n"
      using arg_cong [OF u, of "take 4"] False by (simp add: int32.enc_length)
    have t4': "drop 4 t @ u = map cc_byte k @ enc64 v"
      using arg_cong [OF u, of "drop 4"] False by (simp add: int32.enc_length)
    have r: "read_field 4 dec32 t = Some (?n, drop 4 t)"
      using False by (simp add: read_field_def t4 int32.dec_enc)
    let ?s = "drop 4 t"
    show ?thesis
    proof (cases "length ?s < length k")
      case True
      then show ?thesis
        using n k(2) by (subst replay_loop.simps) (simp add: r Let_def)
    next
      case f: False
      have "length (drop (length k) ?s) < 8" using lt False by simp
      then show ?thesis
        using n k(2) f by (subst replay_loop.simps) (simp add: r Let_def uint64.read_cut)
    qed
  qed
qed

lemma replay_nil: "replay_loop rl db [] pos = ret (db, pos)"
  by (subst replay_loop.simps) (simp add: int32.read_cut)

definition log_bytes :: "(cstr \<times> u64) list \<Rightarrow> byte list" where
  "log_bytes es = concat (map entry_bytes es)"

lemma replay_entries:
  assumes "\<forall>e \<in> set es. entry_ok e" and "\<And>db pos. replay_loop rl db t pos = ret (db, pos)"
  shows "replay_loop rl db (log_bytes es @ t) pos =
    run_bind (run_ops (tst_put rl) tst_delete db (map entry_op es)) (\<lambda>db. ret (db, pos + length (log_bytes es)))"
  using assms(1)
proof (induction es arbitrary: db pos)
  case Nil
  then show ?case by (simp add: log_bytes_def assms(2))
next
  case (Cons e es)
  have "log_bytes (e # es) @ t = entry_bytes e @ log_bytes es @ t" by (simp add: log_bytes_def)
  then have "replay_loop rl db (log_bytes (e # es) @ t) pos =
      run_bind (run_op (tst_put rl) tst_delete db (entry_op e))
        (\<lambda>db. replay_loop rl db (log_bytes es @ t) (pos + length (entry_bytes e)))"
    using Cons.prems replay_entry by simp
  also have "\<dots> = run_bind (run_op (tst_put rl) tst_delete db (entry_op e))
        (\<lambda>db. run_bind (run_ops (tst_put rl) tst_delete db (map entry_op es))
          (\<lambda>db. ret (db, pos + length (log_bytes (e # es)))))"
    using Cons by (simp add: log_bytes_def add.assoc)
  finally show ?case by (simp add: run_bind_assoc)
qed

section \<open>The handlers as steps of the store\<close>

text \<open>All that requests do to the store, one change after the other.\<close>

inductive store_step :: "(u64 \<Rightarrow> bool) \<Rightarrow> store \<Rightarrow> store \<Rightarrow> bool" for rl where
  stored: "word_ok key \<Longrightarrow> length key < max_key_size \<Longrightarrow>
    store_value rl st key body_len flag expire body = ret st' \<Longrightarrow> store_step rl st st'"
| removed: "key \<noteq> [] \<Longrightarrow> 0 \<notin> set key \<Longrightarrow> length key < max_key_size \<Longrightarrow>
    store_delete st key = ret st' \<Longrightarrow> store_step rl st st'"
| scratch: "store_step rl st (st\<lparr>st_vbuf := vb\<rparr>)"

inductive_cases store_stepE: "store_step rl st st'"

abbreviation store_steps :: "(u64 \<Rightarrow> bool) \<Rightarrow> store \<Rightarrow> store \<Rightarrow> bool" where
  "store_steps rl \<equiv> (store_step rl)\<^sup>*\<^sup>*"

lemma cstr_of_text: "cstr_of b = ret h \<Longrightarrow> 0 \<notin> set h"
  by (auto simp: cstr_of_def dest: set_takeWhileD split: if_splits)

lemma key_argument:
  assumes "sscanf (Str a # Ws # Str b # ds) h = ret as" and "cstr_of header = ret h" and "2 \<le> length as"
  shows "word_ok (arg_str (as ! 1))" and "length (arg_str (as ! 1)) < b"
proof -
  have f: "fits_format (Str a # Ws # Str b # ds) as"
    using sscanf_fits [OF assms(1)] cstr_of_text [OF assms(2)] by blast
  obtain x y as' where as: "as = x # y # as'" using assms(3) by (cases as; cases "tl as") auto
  then show "word_ok (arg_str (as ! 1))" "length (arg_str (as ! 1)) < b"
    using f by (cases x; cases y; simp)+
qed

lemma value_step:
  "store_value rl st key body_len flag expire body = ret st' \<Longrightarrow> word_ok key \<Longrightarrow> length key < max_key_size \<Longrightarrow>
   store_steps rl st st'"
  using store_step.stored by blast

lemma removal_step:
  "store_delete st key = ret st' \<Longrightarrow> key \<noteq> [] \<Longrightarrow> 0 \<notin> set key \<Longrightarrow> length key < max_key_size \<Longrightarrow>
   store_steps rl st st'"
  using store_step.removed by blast

lemma cmd_do_set_steps:
  assumes "cmd_do_set rl now st c header body = ret (st', c')"
  shows "store_steps rl st st'"
proof -
  obtain h as where h: "cstr_of header = ret h" "sscanf cmd_set_format h = ret as"
    and r: "(if length as < 5 then ret (st, c) else
       let key = arg_str (as ! 1); flag = arg_int (as ! 2); expire = arg_int (as ! 3);
           body_len = arg_int (as ! 4) in
       if sint body_len < 0 then ret (st, c)
       else
         let expire = (if 0 < sint expire then word_of_int (sint expire + now) else expire) in
         run_bind (mem_get body 0 (sint body_len)) (\<lambda>bytes.
         run_bind (store_value rl st key body_len flag expire bytes) (\<lambda>st.
         run_bind (reply_unless_noreply c h (text_line ''STORED'')) (\<lambda>c. ret (st, c))))) = ret (st', c')"
    using assms by (auto simp: cmd_do_set_def run_bind_eq_ret)
  show ?thesis
  proof (cases "length as < 5")
    case True
    then show ?thesis using r by simp
  next
    case False
    then have l: "2 \<le> length as" by simp
    note k = key_argument [OF h(2) [unfolded cmd_set_format_def] h(1) l]
    show ?thesis
      using r False by (auto simp: Let_def run_bind_eq_ret intro: value_step [OF _ k] split: if_splits)
  qed
qed

lemma cmd_do_cas_steps:
  assumes "cmd_do_cas rl st c header body = ret (st', c')"
  shows "store_steps rl st st'"
proof -
  obtain h as where h: "cstr_of header = ret h" "sscanf cmd_cas_format h = ret as"
    using assms by (auto simp: cmd_do_cas_def run_bind_eq_ret)
  show ?thesis
  proof (cases "length as < 6")
    case True
    then show ?thesis using assms h by (simp add: cmd_do_cas_def)
  next
    case False
    then have l: "2 \<le> length as" by simp
    note k = key_argument [OF h(2) [unfolded cmd_cas_format_def] h(1) l]
    show ?thesis
      using assms h False
      by (auto simp: cmd_do_cas_def Let_def run_bind_eq_ret intro: value_step [OF _ k] split: if_splits)
  qed
qed

lemma cmd_do_delete_steps:
  assumes "cmd_do_delete st c header = ret (st', c')"
  shows "store_steps rl st st'"
proof -
  obtain h as where h: "cstr_of header = ret h" "sscanf key_format h = ret as"
    using assms by (auto simp: cmd_do_delete_def run_bind_eq_ret)
  show ?thesis
  proof (cases "length as \<noteq> 2")
    case True
    then show ?thesis using assms h by (simp add: cmd_do_delete_def)
  next
    case False
    then have l: "2 \<le> length as" by simp
    note k = key_argument [OF h(2) [unfolded key_format_def] h(1) l]
    then have "arg_str (as ! 1) \<noteq> []" "0 \<notin> set (arg_str (as ! 1))"
      using word_ok_text by (auto simp: word_ok_def)
    then show ?thesis
      using assms h False
      by (auto simp: cmd_do_delete_def Let_def run_bind_eq_ret intro: removal_step [OF _ _ _ k(2)] split: if_splits)
  qed
qed

lemma incr_or_decr_steps:
  assumes "incr_or_decr rl st c header is_decr = ret (st', c')"
  shows "store_steps rl st st'"
proof -
  obtain h as where h: "cstr_of header = ret h" "sscanf incr_format h = ret as"
    using assms by (auto simp: incr_or_decr_def run_bind_eq_ret)
  show ?thesis
  proof (cases "length as \<noteq> 3")
    case True
    then show ?thesis using assms h by (simp add: incr_or_decr_def)
  next
    case False
    then have l: "2 \<le> length as" by simp
    note k = key_argument [OF h(2) [unfolded incr_format_def] h(1) l]
    show ?thesis
      using assms h False
      by (auto simp: incr_or_decr_def Let_def run_bind_eq_ret intro: value_step [OF _ k] split: if_splits)
  qed
qed


lemma removed_key: "tst_get db k = ret off \<Longrightarrow> 0 < off \<Longrightarrow> k \<noteq> []"
  by (auto simp: tst_get_def)

lemma get_value_steps:
  assumes "get_value now sign st k off tot = ret (st', tot')" and "k \<noteq> []" "0 \<notin> set k" "length k < max_key_size"
  shows "store_steps rl st st'"
proof -
  obtain st1 where v: "st' = st1 \<or> (\<exists>vb. st' = st1\<lparr>st_vbuf := vb\<rparr>)" and
    s: "store_delete st k = ret st1 \<or> st1 = st"
    using assms(1)
    by (auto simp: get_value_def Let_def run_bind_eq_ret delete_expire_value_def split: if_splits)
  have "store_steps rl st st1" using s removal_step [OF _ assms(2-4)] by blast
  moreover have "store_steps rl st1 st'" using v store_step.scratch by blast
  ultimately show ?thesis by simp
qed

lemma abort_if_eq_ret: "(if b then abort_with e else r) = ret y \<longleftrightarrow> \<not> b \<and> r = ret y"
  by simp

lemma get_loop_steps:
  assumes "get_loop now sign header st ptr tot = ret (st', tot')"
  shows "store_steps rl st st'"
proof -
  have "\<forall>s t. r = Inr (s, t) \<longrightarrow> store_steps rl st s"
    if "get_loop now sign header st ptr tot = Some r" for r
    using that
  proof (rule get_loop.raw_induct [where P = "\<lambda>now sign header st ptr tot r.
      \<forall>s t. r = Inr (s, t) \<longrightarrow> store_steps rl st s", rotated])
    fix loop now sign header st ptr tot r
    assume IH: "\<And>now sign header st ptr tot r. loop now sign header st ptr tot = Some r \<Longrightarrow>
        \<forall>s t. r = Inr (s, t) \<longrightarrow> store_steps rl st s"
      and b: "run_bind (cstr_of (drop ptr header)) (\<lambda>s.
     let key = takeWhile (\<lambda>c. c \<noteq> space) s; span = length key in
     if max_key_size \<le> span then abort_with Undefined
     else
       run_bind (tst_get (st_tst st) key) (\<lambda>value_offset.
       run_bind (mem_put (st_vbuf st) (int tot) [0]) (\<lambda>vb.
       let st = st\<lparr>st_vbuf := vb\<rparr> in
       run_bind (if 0 < value_offset then get_value now sign st key value_offset tot else ret (st, tot))
         (\<lambda>(st, tot).
       if span = length s then ret (st, tot)
       else loop now sign header st (ptr + span + 1) tot)))) = Some r"
    show "\<forall>s t. r = Inr (s, t) \<longrightarrow> store_steps rl st s"
    proof (intro allI impI)
      fix s' t
      assume r: "r = Inr (s', t)"
      obtain s off vb st1 t1 where c: "cstr_of (drop ptr header) = ret s"
        and k: "length (takeWhile (\<lambda>c. c \<noteq> space) s) < max_key_size"
        and g: "tst_get (st_tst st) (takeWhile (\<lambda>c. c \<noteq> space) s) = ret off"
        and v: "(if 0 < off then get_value now sign (st\<lparr>st_vbuf := vb\<rparr>) (takeWhile (\<lambda>c. c \<noteq> space) s) off tot
           else ret (st\<lparr>st_vbuf := vb\<rparr>, tot)) = ret (st1, t1)"
        and e: "(if length (takeWhile (\<lambda>c. c \<noteq> space) s) = length s then ret (st1, t1)
          else loop now sign header st1 (ptr + length (takeWhile (\<lambda>c. c \<noteq> space) s) + 1) t1) = ret (s', t)"
        using b [unfolded r]
        by (simp only: run_bind_eq_ret Let_def abort_if_eq_ret split_paired_Ex prod.case not_le) blast
      let ?k = "takeWhile (\<lambda>c. c \<noteq> space) s"
      have n: "0 \<notin> set ?k" using cstr_of_text [OF c] by (auto dest: set_takeWhileD)
      have a: "store_steps rl st (st\<lparr>st_vbuf := vb\<rparr>)" using store_step.scratch by blast
      have "store_steps rl (st\<lparr>st_vbuf := vb\<rparr>) st1"
      proof (cases "0 < off")
        case True
        then show ?thesis using v get_value_steps [OF _ removed_key [OF g True] n k] by simp
      next
        case False
        then show ?thesis using v by simp
      qed
      moreover have "store_steps rl st1 s'"
        using e IH by (auto split: if_split_asm)
      ultimately show "store_steps rl st s'" using a by (meson rtranclp_trans)
    qed
  qed
  then show ?thesis using assms by blast
qed

lemma cmd_do_get_steps:
  assumes "cmd_do_get now sign st c header = ret (st', c')"
  shows "store_steps rl st st'"
proof -
  obtain ptr st1 tot vb where "get_loop now sign header st ptr 0 = ret (st1, tot)" "st' = st1\<lparr>st_vbuf := vb\<rparr>"
    using assms by (auto simp: cmd_do_get_def run_bind_eq_ret Let_def)
  then show ?thesis
    using get_loop_steps store_step.scratch rtranclp.rtrancl_into_rtrancl by metis
qed

lemmas handler_steps =
  cmd_do_get_steps cmd_do_set_steps cmd_do_cas_steps cmd_do_delete_steps incr_or_decr_steps


section \<open>The log follows the index\<close>

text \<open>\<open>log_of rl db0 log db\<close>: the log holds whole entries, which lead from the index \<open>db0\<close> to \<open>db\<close>.\<close>

definition log_of :: "(u64 \<Rightarrow> bool) \<Rightarrow> tst_db \<Rightarrow> byte list \<Rightarrow> tst_db \<Rightarrow> bool" where
  "log_of rl db0 log db \<longleftrightarrow>
     (\<exists>es. log = log_bytes es \<and> (\<forall>e \<in> set es. entry_ok e) \<and>
       run_ops (tst_put rl) tst_delete db0 (map entry_op es) = ret db)"

lemma log_of_nil: "log_of rl db [] db"
  unfolding log_of_def by (rule exI [of _ "[]"]) (simp add: log_bytes_def)

lemma log_of_entry:
  assumes "log_of rl db0 log db" and "entry_ok e" and "run_op (tst_put rl) tst_delete db (entry_op e) = ret db'"
  shows "log_of rl db0 (log @ entry_bytes e) db'"
proof -
  obtain es where es: "log = log_bytes es" "\<forall>e \<in> set es. entry_ok e"
    "run_ops (tst_put rl) tst_delete db0 (map entry_op es) = ret db"
    using assms(1) by (auto simp: log_of_def)
  then show ?thesis
    unfolding log_of_def using assms(2,3)
    by - (rule exI [of _ "es @ [e]"], simp add: log_bytes_def run_ops_append)
qed

lemma word_entry_ok: "word_ok key \<Longrightarrow> length key < max_key_size \<Longrightarrow> entry_ok (key, v)"
  using word_ok_text [of key] by (auto simp: entry_ok_def word_ok_def)

lemma store_value_log:
  assumes "store_value rl st key body_len flag expire body = ret st'"
  shows "st_data st' = st_data st @ record_bytes body_len flag expire body"
    and "st_log st' = st_log st @ entry_bytes (key, of_nat (length (st_data st)))"
    and "tst_put rl (st_tst st) key (of_nat (length (st_data st))) = ret (st_tst st')"
  using assms
  by (auto simp: store_value_def write_record_def write_log_def index_put_def Let_def run_bind_eq_ret
      entry_bytes_def)

lemma store_delete_log:
  assumes "store_delete st key = ret st'"
  shows "st_data st' = st_data st" and "st_log st' = st_log st @ entry_bytes (key, 0)"
    and "tst_delete (st_tst st) key = ret (st_tst st')"
  using assms by (auto simp: store_delete_def write_log_def index_delete_def run_bind_eq_ret entry_bytes_def)

lemma store_step_grows:
  assumes "store_step rl st st'"
  shows "prefix (st_data st) (st_data st')" and "prefix (st_log st) (st_log st')"
  using assms by (auto elim!: store_stepE simp: store_value_log store_delete_log)

lemma store_steps_grow:
  assumes "store_steps rl st st'"
  shows "prefix (st_data st) (st_data st') \<and> prefix (st_log st) (st_log st')"
  using assms by induction (auto dest: store_step_grows)

lemma store_step_logged:
  assumes "store_step rl st st'" and "log_of rl db0 (st_log st) (st_tst st)"
    and "st_data st \<noteq> []" and "length (st_data st) < 2 ^ 64"
  shows "log_of rl db0 (st_log st') (st_tst st')"
  using assms(1)
proof (rule store_stepE)
  fix key body_len flag expire body
  let ?off = "of_nat (length (st_data st)) :: u64"
  assume k: "word_ok key" "length key < max_key_size"
    and s: "store_value rl st key body_len flag expire body = ret st'"
  have "unat ?off = length (st_data st)"
    using assms(4) by (simp add: unat_of_nat take_bit_nat_eq_self)
  then have "?off \<noteq> 0" using assms(3) by auto
  then have "run_op (tst_put rl) tst_delete (st_tst st) (entry_op (key, ?off)) = ret (st_tst st')"
    using store_value_log(3) [OF s] by (simp add: entry_op_def word_neq_0_conv)
  then show ?thesis
    unfolding store_value_log(2) [OF s] by (rule log_of_entry [OF assms(2) word_entry_ok [OF k]])
next
  fix key
  assume k: "key \<noteq> []" "0 \<notin> set key" "length key < max_key_size" and s: "store_delete st key = ret st'"
  have "run_op (tst_put rl) tst_delete (st_tst st) (entry_op (key, 0)) = ret (st_tst st')"
    using store_delete_log(3) [OF s] by (simp add: entry_op_def)
  then show ?thesis
    unfolding store_delete_log(2) [OF s] using log_of_entry [OF assms(2)] k by (simp add: entry_ok_def)
next
  fix vb
  assume "st' = st\<lparr>st_vbuf := vb\<rparr>"
  then show ?thesis using assms(2) by simp
qed

lemma store_steps_logged:
  assumes "store_steps rl st st'" and "log_of rl db0 (st_log st) (st_tst st)"
    and "st_data st \<noteq> []" and "length (st_data st') < 2 ^ 64"
  shows "log_of rl db0 (st_log st') (st_tst st')"
  using assms
proof (induction rule: rtranclp_induct)
  case (step st1 st2)
  have p: "prefix (st_data st1) (st_data st2)" "prefix (st_data st) (st_data st1)"
    using store_step_grows [OF step.hyps(2)] store_steps_grow [OF step.hyps(1)] by simp_all
  then have "st_data st1 \<noteq> []" "length (st_data st1) < 2 ^ 64"
    using step.prems(2,3) prefix_length_le [OF p(1)] by auto
  then show ?case
    using store_step_logged [OF step.hyps(2)] step.IH step.prems(1,2) by simp
qed

section \<open>Replay\<close>

text \<open>What a crash leaves of the entry being written: a part of it, or nothing.\<close>

definition torn :: "byte list \<Rightarrow> bool" where
  "torn t \<longleftrightarrow> (\<exists>e. entry_ok e \<and> strict_prefix t (entry_bytes e))"

lemma torn_nil: "torn []"
  unfolding torn_def
  by (rule exI [of _ "([CC 97], 0)"])
    (simp add: entry_ok_def max_key_size_def entry_bytes_def log_entry_def strict_prefix_def)

lemma replay_log:
  assumes "log_of rl db0 log db" and "torn t"
  shows "replay_binlog rl db0 (log @ t) = ret (db, truncate_log (log @ t) (length log))"
proof -
  obtain es where es: "log = log_bytes es" "\<forall>e \<in> set es. entry_ok e"
    "run_ops (tst_put rl) tst_delete db0 (map entry_op es) = ret db"
    using assms(1) by (auto simp: log_of_def)
  have "replay_loop rl d t pos = ret (d, pos)" for d pos
    using assms(2) replay_torn by (auto simp: torn_def)
  then show ?thesis
    using replay_entries [OF es(2)] es(1,3) by (simp add: replay_binlog_def)
qed

lemma truncate_short: "length log < 2 ^ 31 \<Longrightarrow> truncate_log (log @ t) (length log) = log"
  using len_of_nat [of "length log"] by (simp add: truncate_log_def Let_def)

lemma truncate_long:
  assumes "2 ^ 31 \<le> n" and "n < 2 ^ 32"
  shows "truncate_log log n = log"
proof -
  have "int n div 2 ^ 31 = 1" using assms by simp
  then have "bit (int n) 31" by (simp add: bit_iff_odd)
  then have "sint (of_nat n :: i32) < 0"
    by (simp add: signed_of_nat signed_take_bit_negative_iff)
  then show ?thesis by (simp add: truncate_log_def Let_def)
qed


section \<open>Lives of a server\<close>

text \<open>
  A server on one data file: it starts on nothing, handles requests, is killed and comes back, or
  shuts down and is started again. A kill can leave bytes of an unfinished record in the data file
  and a torn entry in the log. \<open>idx\<close> is the index on the disk.
\<close>

definition killed :: "tst_db option \<Rightarrow> store \<Rightarrow> byte list \<Rightarrow> byte list \<Rightarrow> files" where
  "killed idx st d t = \<lparr>fs_data = st_data st @ d, fs_log = st_log st @ t, fs_index = idx\<rparr>"

inductive server_life ::
  "(u64 \<Rightarrow> bool) \<Rightarrow> (u32 \<Rightarrow> tst_node) \<Rightarrow> tst_db option \<Rightarrow> store \<Rightarrow> bool" for rl mem
where
  boot: "init_data rl mem True \<lparr>fs_data = [], fs_log = [], fs_index = None\<rparr> = ret st \<Longrightarrow>
    server_life rl mem None st"
| request: "server_life rl mem idx st \<Longrightarrow> store_step rl st st' \<Longrightarrow> length (st_data st') < 2 ^ 64 \<Longrightarrow>
    server_life rl mem idx st'"
| crash: "server_life rl mem idx st \<Longrightarrow> torn t \<Longrightarrow> length (st_log st) < 2 ^ 31 \<Longrightarrow>
    length (st_data st @ d) < 2 ^ 64 \<Longrightarrow>
    init_data rl mem True (killed idx st d t) = ret st' \<Longrightarrow> server_life rl mem idx st'"
| restart: "server_life rl mem idx st \<Longrightarrow>
    init_data rl mem True (dump_tst st (disk_of idx st)) = ret st' \<Longrightarrow>
    server_life rl mem (Some (st_tst st)) st'"

lemma init_data_data:
  assumes "init_data rl mem opens fs = ret st"
  shows "st_data st \<noteq> []" and "prefix (fs_data fs) (st_data st)"
  using assms by (auto simp: init_data_def Let_def run_bind_eq_ret cs_def split: if_splits)

lemma init_killed:
  assumes "log_of rl (reload_index mem idx) (st_log st) (st_tst st)" and "torn t"
    and "length (st_log st) < 2 ^ 31" and "st_data st \<noteq> []"
  shows "init_data rl mem True (killed idx st d t) =
    ret (st\<lparr>st_data := st_data st @ d, st_vbuf := replicate value_buf_size 0\<rparr>)"
  using assms
  by (simp add: init_data_def killed_def replay_log truncate_short)

lemma init_dumped:
  assumes "st_data st \<noteq> []"
  shows "init_data rl mem True (dump_tst st (disk_of idx st)) =
    ret (st\<lparr>st_log := [], st_vbuf := replicate value_buf_size 0\<rparr>)"
  using assms
  by (simp add: init_data_def dump_tst_def remove_binlog_def install_index_def disk_of_def replay_binlog_def
      replay_nil truncate_log_def reload_index_def)

lemma init_empty:
  "init_data rl mem True \<lparr>fs_data = [], fs_log = [], fs_index = None\<rparr> =
    ret \<lparr>st_tst = create_tst_db mem, st_data = map cc_byte (cs ''[2012]''), st_log = [],
      st_vbuf = replicate value_buf_size 0\<rparr>"
  by (simp add: init_data_def replay_binlog_def replay_nil truncate_log_def reload_index_def)

lemma server_life_logged:
  assumes "server_life rl mem idx st"
  shows "log_of rl (reload_index mem idx) (st_log st) (st_tst st) \<and> st_data st \<noteq> [] \<and>
    length (st_data st) < 2 ^ 64"
  using assms
proof induction
  case (boot st)
  then have "st = \<lparr>st_tst = create_tst_db mem, st_data = map cc_byte (cs ''[2012]''), st_log = [],
      st_vbuf = replicate value_buf_size 0\<rparr>" using init_empty by simp
  then show ?case by (simp add: log_of_nil reload_index_def cs_def)
next
  case (request idx st st')
  then show ?case
    using store_step_logged [OF request.hyps(2)] store_step_grows(1) [OF request.hyps(2)] by auto
next
  case (crash idx st t d st')
  then show ?case using init_killed [of rl mem idx st t d] by auto
next
  case (restart idx st st')
  then show ?case using init_dumped [of st rl mem idx] by (auto simp: log_of_nil reload_index_def)
qed


text \<open>Replaying a sequence of operations on the map it gave changes nothing.\<close>

fun op_key :: "tst_op \<Rightarrow> cstr" where
  "op_key (Put k v) = k"
| "op_key (Del k) = k"

lemma apply_op_key:
  "apply_op f p (op_key p) = apply_op g p (op_key p)" "k \<noteq> op_key p \<Longrightarrow> apply_op f p k = f k"
  by (cases p; simp)+

lemma apply_ops_untouched: "k \<notin> op_key ` set ps \<Longrightarrow> apply_ops f ps k = f k"
  by (induction ps arbitrary: f) (simp_all add: apply_op_key(2))

lemma apply_ops_cong: "f k = g k \<Longrightarrow> apply_ops f ps k = apply_ops g ps k"
proof (induction ps arbitrary: f g)
  case (Cons p ps)
  have "apply_op f p k = apply_op g p k"
  proof (cases "k = op_key p")
    case True
    show ?thesis unfolding True by (rule apply_op_key(1))
  next
    case False
    then show ?thesis using Cons.prems by (simp add: apply_op_key(2))
  qed
  then show ?case unfolding apply_ops_simps by (rule Cons.IH)
qed simp

lemma apply_ops_touched: "k \<in> op_key ` set ps \<Longrightarrow> apply_ops f ps k = apply_ops g ps k"
proof (induction ps arbitrary: f g)
  case (Cons p ps)
  show ?case
  proof (cases "k \<in> op_key ` set ps")
    case True
    then show ?thesis using Cons.IH [of "apply_op f p" "apply_op g p"] by simp
  next
    case False
    then have k: "k = op_key p" using Cons.prems by auto
    show ?thesis
      unfolding k apply_ops_simps by (rule apply_ops_cong, rule apply_op_key(1))
  qed
qed simp

lemma apply_ops_twice: "apply_ops (apply_ops f ps) ps = apply_ops f ps"
proof
  fix k
  show "apply_ops (apply_ops f ps) ps k = apply_ops f ps k"
    using apply_ops_untouched [of k ps] apply_ops_touched [of k ps] by (cases "k \<in> op_key ` set ps") simp_all
qed

section \<open>What a restart gives\<close>


text \<open>A server that has stored one value.\<close>

lemma one_value_life:
  obtains st where "server_life (\<lambda>_. True) (\<lambda>_. zero_node) None st"
    and "item_of st [CC 97] = Some (7, 0, [CC 98])" and "st_data st = map cc_byte (cs ''[2012]'') @ record_bytes 1 7 0 [CC 98]"
    and "st_log st = entry_bytes ([CC 97], 6)"
    and "tst_put (\<lambda>_. True) (create_tst_db (\<lambda>_. zero_node)) [CC 97] 6 = ret (st_tst st)"
proof -
  let ?s = "start_store value_buf_size"
  have b: "server_life (\<lambda>_. True) (\<lambda>_. zero_node) None ?s"
    by (rule server_life.boot) (simp add: init_empty start_store_def)
  have "word_ok [CC 97]" by (simp add: word_ok_def is_space_def)
  then obtain st where st: "store_value (\<lambda>_. True) ?s [CC 97] 1 7 0 [CC 98] = ret st"
    "item_of st = (item_of ?s)([CC 97] \<mapsto> (7, 0, [CC 98]))"
    using store_value_ok [of ?s "[CC 97]" "\<lambda>_. True" 1 "[CC 98]" 7 0] start_store_ok by auto
  note l = store_value_log [OF st(1)]
  have "store_step (\<lambda>_. True) ?s st"
    by (rule store_step.stored [OF _ _ st(1)]) (simp_all add: word_ok_def is_space_def max_key_size_def)
  moreover have "length (st_data st) < 2 ^ 64"
    unfolding l(1) by (simp add: start_store_ok record_bytes_def int32.enc_length)
  ultimately have "server_life (\<lambda>_. True) (\<lambda>_. zero_node) None st"
    using b server_life.request by blast
  then show thesis
    by (rule that) (use st(2) l in \<open>simp_all add: start_store_ok(5), simp_all add: start_store_def\<close>)
qed

lemma torn_four: "torn [4]"
proof -
  have "enc32 4 = [4, 0, 0, 0]" by code_simp
  then show ?thesis
    unfolding torn_def
    by - (rule exI [of _ "([CC 97, CC 97, CC 97, CC 97], 6)"],
      simp add: entry_ok_def max_key_size_def entry_bytes_def log_entry_def strict_prefix_def)
qed


text \<open>
  A shutdown and a start give back the index and the data file; the log starts empty.
\<close>

theorem restart_after_dump:
  assumes "server_life rl mem idx st"
  shows "init_data rl mem True (dump_tst st (disk_of idx st)) =
    ret (st\<lparr>st_log := [], st_vbuf := replicate value_buf_size 0\<rparr>)"
  using server_life_logged [OF assms] by (simp add: init_dumped)

theorem restart_after_dump_witness:
  "\<exists>st st'. init_data (\<lambda>_. True) (\<lambda>_. zero_node) True (dump_tst st (disk_of None st)) = ret st' \<and>
    item_of st' [CC 97] = Some (7, 0, [CC 98])"
proof -
  obtain st where st: "server_life (\<lambda>_. True) (\<lambda>_. zero_node) None st"
    "item_of st [CC 97] = Some (7, 0, [CC 98])"
    using one_value_life by blast
  let ?st = "st\<lparr>st_log := [], st_vbuf := replicate value_buf_size 0\<rparr>"
  have "item_of ?st [CC 97] = Some (7, 0, [CC 98])"
    using st(2) by (auto simp: item_of_def offset_of_def split: if_splits)
  with restart_after_dump [OF st(1)] show ?thesis by blast
qed

text \<open>
  C34. A server killed during its shutdown, after the new index has its name and before the log is
  gone, replays the log on an index that holds its operations already: every key gets the offset
  it had. The index must have been sound, and the deletions of the log harmless in both runs.
\<close>

theorem killed_in_shutdown:
  assumes "st_log st = log_bytes es" and "\<forall>e \<in> set es. entry_ok e" and "tst_linked db0" and "st_data st \<noteq> []"
    and "run_ops (tst_put rl) tst_delete db0 (map entry_op es) = ret (st_tst st)"
    and "room rl db0 (sum_list (map op_room (map entry_op es)))"
    and "room rl (st_tst st) (sum_list (map op_room (map entry_op es)))"
    and "clean_run (tst_put rl) tst_delete tst_clean db0 (map entry_op es)"
    and "clean_run (tst_put rl) tst_delete tst_clean (st_tst st) (map entry_op es)"
  shows "\<exists>st'. init_data rl mem True (install_index st (disk_of idx st)) = ret st' \<and>
    tst_linked (st_tst st') \<and> st_data st' = st_data st \<and> offset_of st' = offset_of st"
proof -
  let ?ps = "map entry_op es"
  have ok: "list_all op_ok ?ps" using assms(2) by (auto simp: list_all_iff entry_op_def entry_ok_def)
  have 1: "tst_linked (st_tst st)" "view tst_get (st_tst st) = apply_ops (view tst_get db0) ?ps"
    using node_array.run_ops_ok [OF assms(3) ok, of rl] assms(5-9) by auto
  obtain db where db: "run_ops (tst_put rl) tst_delete (st_tst st) ?ps = ret db" "tst_linked db"
    "view tst_get db = apply_ops (view tst_get (st_tst st)) ?ps"
    using node_array.run_ops_ok [OF 1(1) ok, of rl] assms(5-9) by auto
  have "log_of rl (st_tst st) (st_log st) db" using assms(1,2) db(1) by (auto simp: log_of_def)
  from replay_log [OF this torn_nil]
  have "init_data rl mem True (install_index st (disk_of idx st)) =
      ret \<lparr>st_tst = db, st_data = st_data st, st_log = truncate_log (st_log st) (length (st_log st)),
        st_vbuf = replicate value_buf_size 0\<rparr>"
    using assms(4) by (simp add: init_data_def install_index_def disk_of_def reload_index_def)
  then show ?thesis
    using db(2,3) 1(2) by (simp add: offset_of_def fun_eq_iff apply_ops_twice)
qed

theorem killed_in_shutdown_witness:
  "\<exists>st st'. init_data (\<lambda>_. True) (\<lambda>_. zero_node) True (install_index st (disk_of None st)) = ret st' \<and>
    item_of st [CC 97] = Some (7, 0, [CC 98]) \<and> offset_of st' = offset_of st"
proof -
  obtain st where st: "server_life (\<lambda>_. True) (\<lambda>_. zero_node) None st"
    "item_of st [CC 97] = Some (7, 0, [CC 98])" "st_log st = entry_bytes ([CC 97], 6)"
    "tst_put (\<lambda>_. True) (create_tst_db (\<lambda>_. zero_node)) [CC 97] 6 = ret (st_tst st)"
    using one_value_life by blast
  let ?db = "create_tst_db (\<lambda>_. zero_node)"
  have r: "room (\<lambda>_. True) ?db 1" "room (\<lambda>_. True) ?db (length [CC 97] + 1)"
    using fresh_room [of 1] fresh_room [of "length [CC 97] + 1"] by simp_all
  have s: "room (\<lambda>_. True) (st_tst st) 1"
    using node_array.put_law [OF _ r(2), of 6] node_array.linked_wf [OF fresh_linked] st(4) by auto
  have c: "clean_run (tst_put (\<lambda>_. True)) tst_delete tst_clean db [Put [CC 97] 6]" for db
    by (simp split: option.split sum.split)
  obtain st' where "init_data (\<lambda>_. True) (\<lambda>_. zero_node) True (install_index st (disk_of None st)) = ret st'"
    "offset_of st' = offset_of st"
    using killed_in_shutdown [OF _ _ fresh_linked, of st "[([CC 97], 6)]" "\<lambda>_. True"
        "\<lambda>_. zero_node" None] server_life_logged [OF st(1)] st(3,4) r(1) s
    by (auto simp: log_bytes_def entry_ok_def entry_op_def max_key_size_def c simp del: clean_run.simps(2))
  with st(2) show ?thesis by blast
qed

text \<open>
  The position up to which the log was replayed is kept in an \<open>int\<close>. From 2 GB on it is
  negative, the log is not cut, and the torn entry stays in it, in front of all that is logged
  from then on.
\<close>

theorem long_log_keeps_torn_entry:
  assumes "log_of rl db0 log db" and "torn t" and "2 ^ 31 \<le> length log" and "length log < 2 ^ 32"
  shows "replay_binlog rl db0 (log @ t) = ret (db, log @ t)"
  using replay_log [OF assms(1,2)] truncate_long [OF assms(3,4)] by simp

theorem long_log_keeps_torn_entry_witness:
  "\<exists>log. length log = 2147483650 \<and>
    replay_binlog (\<lambda>_. True) (create_tst_db (\<lambda>_. zero_node)) (log @ [4]) =
      ret (create_tst_db (\<lambda>_. zero_node), log @ [4])"
proof -
  let ?e = "([CC 97], 0)" and ?db = "create_tst_db (\<lambda>_. zero_node)"
  let ?log = "log_bytes (replicate 165191050 ?e)"
  have e: "length (entry_bytes ?e) = 13"
    by (simp add: entry_bytes_def log_entry_def int32.enc_length uint64.enc_length)
  then have l: "length ?log = 2147483650"
    by (simp add: log_bytes_def length_concat sum_list_replicate)
  have "tst_delete ?db [CC 97] = ret ?db"
    by (simp add: tst_delete_def create_tst_db_def new_tst_db_def search_loop.simps delete_climb.simps)
  then have "run_ops (tst_put (\<lambda>_. True)) tst_delete ?db (replicate n (Del [CC 97])) = ret ?db" for n
    by (induction n) simp_all
  then have "log_of (\<lambda>_. True) ?db ?log ?db"
    unfolding log_of_def
    by - (rule exI [of _ "replicate 165191050 ?e"], simp add: entry_ok_def entry_op_def max_key_size_def)
  from long_log_keeps_torn_entry [OF this torn_four] l show ?thesis by auto
qed

end
