(* ===== verification/Server.thy ===== *)
theory Server
  imports Persist
begin

text \<open>
  The event handlers of \<open>v2/src/tstserver.c\<close>: \<open>handle_cmd\<close>, which picks the handler of a request,
  and \<open>handle_input\<close>, which receives a packet and serves every request that is complete. A worker
  has one header and one body buffer for all its connections; they are arguments and results.
\<close>

section \<open>Dispatch\<close>

text \<open>\<open>memcmp\<close> with a fixed text, at the start of a buffer.\<close>

definition starts_with :: "cchar list \<Rightarrow> string \<Rightarrow> bool" where
  "starts_with s1 s2 \<longleftrightarrow> take (length s2) s1 = cs s2"

text \<open>
  \<open>destroy_fd\<close> takes the socket out of the poll set, closes it and gives the buffers back.
\<close>

definition destroy_fd :: "conn \<Rightarrow> conn run" where
  "destroy_fd c = destroy_io_data (c\<lparr>cn_poll := Closed\<rparr>)"

definition no_change :: "store \<Rightarrow> conn run \<Rightarrow> (store \<times> conn) run" where
  "no_change st r = run_bind r (\<lambda>c. ret (st, c))"

definition dispatch ::
  "(u64 \<Rightarrow> bool) \<Rightarrow> int \<Rightarrow> store \<Rightarrow> conn \<Rightarrow> cchar list \<Rightarrow> cchar list \<Rightarrow> (store \<times> conn) run"
where
  "dispatch rl now st c header body =
     (if starts_with header ''set'' then cmd_do_set rl now st c header body
      else if starts_with header ''gets'' then cmd_do_get now True st c header
      else if starts_with header ''get'' then cmd_do_get now False st c header
      else if starts_with header ''prefix'' then no_change st (cmd_do_prefix st c header)
      else if starts_with header ''less'' then no_change st (cmd_do_less st c header)
      else if starts_with header ''greater'' then no_change st (cmd_do_greater st c header)
      else if starts_with header ''cas'' then cmd_do_cas rl st c header body
      else if starts_with header ''delete'' then cmd_do_delete st c header
      else if starts_with header ''incr'' then cmd_do_incr rl st c header
      else if starts_with header ''decr'' then cmd_do_decr rl st c header
      else if starts_with header ''quit'' then no_change st (destroy_fd c)
      else no_change st (append_send_data c (text_line ''ERROR'')))"

definition handle_cmd ::
  "(u64 \<Rightarrow> bool) \<Rightarrow> int \<Rightarrow> store \<Rightarrow> conn \<Rightarrow> cchar list \<Rightarrow> cchar list \<Rightarrow>
   (store \<times> conn \<times> cchar list \<times> cchar list) run"
where
  "handle_cmd rl now st c header body =
     run_bind (mem_put header (io_header_len (cn_io c)) [0]) (\<lambda>header.
     run_bind (mem_put body (io_body_len (cn_io c)) [0]) (\<lambda>body.
     run_bind (dispatch rl now st c header body) (\<lambda>(st, c).
     ret (st, c, header, body))))"

section \<open>Input\<close>

text \<open>
  Serve the requests that are complete; the last result says whether to poll for output. The
  clock is read for each request; the model reads it once, \<open>now\<close>.
\<close>

type_synonym served = "store \<times> conn \<times> cchar list \<times> cchar list \<times> bool"

partial_function (option) input_loop ::
  "(u64 \<Rightarrow> bool) \<Rightarrow> int \<Rightarrow> store \<Rightarrow> conn \<Rightarrow> cchar list \<Rightarrow> cchar list \<Rightarrow> bool \<Rightarrow> served run"
where
  "input_loop rl now st c header body can_output =
     run_bind (next_request c header body) (\<lambda>(c, header, body, go).
     if \<not> go then ret (st, c, header, body, can_output)
     else run_bind (handle_cmd rl now st c header body) (\<lambda>(st, c, header, body).
       let c = fix_buf_len c in
       input_loop rl now st c header body (can_output \<or> io_out_head (cn_io c) \<noteq> None)))"

text \<open>
  \<open>got\<close> is what \<open>recv\<close> gives; \<open>again\<close> tells whether \<open>errno\<close> is \<open>EAGAIN\<close> or \<open>EWOULDBLOCK\<close>
  after it. A \<open>recv\<close> that returns 0 does not set \<open>errno\<close>: then \<open>again\<close> is about an earlier call.
\<close>

definition handle_input ::
  "(u64 \<Rightarrow> bool) \<Rightarrow> int \<Rightarrow> bool \<Rightarrow> cchar list option \<Rightarrow> store \<Rightarrow> conn \<Rightarrow> cchar list \<Rightarrow> cchar list \<Rightarrow> served run"
where
  "handle_input rl now again got st c header body =
     run_bind (append_recv_data c got) (\<lambda>(c, ct).
     if ct \<le> 0 \<and> \<not> again
     then run_bind (destroy_fd c) (\<lambda>c. ret (st, c, header, body, False))
     else input_loop rl now st c header body False)"

text \<open>
  \<open>epoll_ctl\<close> with \<open>EPOLL_CTL_MOD\<close>, the last step of \<open>handle_input\<close> and \<open>handle_output\<close>; it fails,
  and nobody looks, when the socket is not in the set any more.
\<close>

definition watch :: "polled \<Rightarrow> conn \<Rightarrow> conn" where
  "watch q c = (if cn_poll c = Closed then c else c\<lparr>cn_poll := q\<rparr>)"

lemma watch_same [simp]: "cn_pool (watch q c) = cn_pool c" "cn_io (watch q c) = cn_io c"
  by (simp_all add: watch_def)

text \<open>A worker's events on a connection, with their times, in the order \<open>epoll_wait\<close> reports them.\<close>

datatype event = Readable bool "cchar list option" | Writable "cchar list \<Rightarrow> int" | Hangup

fun handle_event ::
  "(u64 \<Rightarrow> bool) \<Rightarrow> int \<Rightarrow> store \<Rightarrow> conn \<Rightarrow> cchar list \<Rightarrow> cchar list \<Rightarrow> event \<Rightarrow>
   (store \<times> conn \<times> cchar list \<times> cchar list) run"
where
  "handle_event rl now st c header body (Readable again got) =
     run_bind (handle_input rl now again got st c header body) (\<lambda>(st, c, header, body, can_output).
     ret (st, if can_output then watch Poll_out c else c, header, body))"
| "handle_event rl now st c header body (Writable accept) =
     run_bind (handle_output accept c) (\<lambda>(c, can_input).
     ret (st, if can_input then watch Poll_in c else c, header, body))"
| "handle_event rl now st c header body Hangup =
     run_bind (destroy_fd c) (\<lambda>c. ret (st, c, header, body))"

fun handle_events ::
  "(u64 \<Rightarrow> bool) \<Rightarrow> store \<Rightarrow> conn \<Rightarrow> cchar list \<Rightarrow> cchar list \<Rightarrow> (int \<times> event) list \<Rightarrow>
   (store \<times> conn \<times> cchar list \<times> cchar list) run"
where
  "handle_events rl st c header body [] = ret (st, c, header, body)"
| "handle_events rl st c header body ((now, e) # es) =
     run_bind (handle_event rl now st c header body e) (\<lambda>(st, c, header, body).
     handle_events rl st c header body es)"

section \<open>Requests change the store in steps\<close>

lemma dispatch_steps:
  assumes "dispatch rl now st c header body = ret (st', c')"
  shows "store_steps rl st st'"
  using assms
  by (auto simp: dispatch_def no_change_def run_bind_eq_ret cmd_do_incr_def cmd_do_decr_def
      split: if_split_asm intro: handler_steps)

lemma handle_cmd_steps:
  assumes "handle_cmd rl now st c header body = ret (st', r)"
  shows "store_steps rl st st'"
  using assms by (auto simp: handle_cmd_def run_bind_eq_ret intro: dispatch_steps)

lemma input_loop_steps:
  assumes "input_loop rl now st c header body can = ret (st', r)"
  shows "store_steps rl st st'"
proof -
  have "\<forall>s t. x = Inr (s, t) \<longrightarrow> store_steps rl st s"
    if "input_loop rl now st c header body can = Some x" for x
    using that
  proof (rule input_loop.raw_induct [where P = "\<lambda>rl now st c header body can x.
      \<forall>s t. x = Inr (s, t) \<longrightarrow> store_steps rl st s", rotated])
    fix loop rl now st c header body can x
    assume IH: "\<And>rl now st c header body can x. loop rl now st c header body can = Some x \<Longrightarrow>
        \<forall>s t. x = Inr (s, t) \<longrightarrow> store_steps rl st s"
      and b: "run_bind (next_request c header body) (\<lambda>(c, header, body, go).
     if \<not> go then ret (st, c, header, body, can)
     else run_bind (handle_cmd rl now st c header body) (\<lambda>(st, c, header, body).
       let c = fix_buf_len c in
       loop rl now st c header body (can \<or> io_out_head (cn_io c) \<noteq> None))) = Some x"
    show "\<forall>s t. x = Inr (s, t) \<longrightarrow> store_steps rl st s"
    proof (intro allI impI)
      fix s t
      assume x: "x = Inr (s, t)"
      obtain c1 h1 b1 go where n: "next_request c header body = ret (c1, h1, b1, go)"
        using b x by (auto simp: run_bind_eq_ret)
      show "store_steps rl st s"
      proof (cases go)
        case False
        then show ?thesis using b n x by simp
      next
        case True
        then obtain st2 c2 h2 b2 where h: "handle_cmd rl now st c1 h1 b1 = ret (st2, c2, h2, b2)"
          using b n x by (auto simp: run_bind_eq_ret)
        then have "loop rl now st2 (fix_buf_len c2) h2 b2 (can \<or> io_out_head (cn_io (fix_buf_len c2)) \<noteq> None) = Some (Inr (s, t))"
          using b n x True by (simp add: Let_def)
        then have "store_steps rl st2 s" using IH by blast
        then show ?thesis using handle_cmd_steps [OF h] by (meson rtranclp_trans)
      qed
    qed
  qed
  then show ?thesis using assms by blast
qed

lemma handle_input_steps:
  assumes "handle_input rl now again got st c header body = ret (st', r)"
  shows "store_steps rl st st'"
  using assms by (auto simp: handle_input_def run_bind_eq_ret split: if_split_asm intro: input_loop_steps)

lemma handle_event_steps:
  assumes "handle_event rl now st c header body e = ret (st', r)"
  shows "store_steps rl st st'"
  using assms by (cases e) (auto simp: run_bind_eq_ret intro: handle_input_steps)

lemma handle_events_steps:
  assumes "handle_events rl st c header body es = ret (st', r)"
  shows "store_steps rl st st'"
  using assms
proof (induction es arbitrary: st c header body)
  case (Cons e es)
  obtain now ev where p: "e = (now, ev)" by (cases e)
  obtain st1 c1 h1 b1 where e: "handle_event rl now st c header body ev = ret (st1, c1, h1, b1)"
    and r: "handle_events rl st1 c1 h1 b1 es = ret (st', r)"
    using Cons.prems by (auto simp: run_bind_eq_ret p)
  show ?case using handle_event_steps [OF e] Cons.IH [OF r] by (meson rtranclp_trans)
qed simp

lemma steps_keep_life:
  assumes "store_steps rl st st'" and "server_life rl mem idx st" and "length (st_data st') < 2 ^ 64"
  shows "server_life rl mem idx st'"
  using assms
proof (induction rule: rtranclp_induct)
  case (step st1 st2)
  have "length (st_data st1) \<le> length (st_data st2)"
    using prefix_length_le [OF store_step_grows(1) [OF step.hyps(2)]] .
  then show ?case
    using server_life.request [OF step.IH [OF step.prems(1)] step.hyps(2)] step.prems(2) by simp
qed simp

section \<open>A peer that has closed\<close>

lemma input_loop_waits:
  assumes "conn_inv c fl qi qo A" and "framed c qi"
    and "0 \<notin> set (takeWhile (\<lambda>c. c \<noteq> newline) (in_stream c qi))"
    and "header_size (in_stream c qi) + buf_unit < length header"
    and "request_at (in_stream c qi) = ret Incomplete"
  shows "\<exists>c' header'. input_loop rl now st c header body can = ret (st, c', header', body, can) \<and>
    conn_inv c' fl qi qo A \<and> in_stream c' qi = in_stream c qi \<and> out_stream c' qo = out_stream c qo \<and>
    untouched A c c' \<and> framed c' qi \<and> length header' = length header"
proof -
  obtain c' header' where n: "next_request c header body = ret (c', header', body, False)"
    "conn_inv c' fl qi qo A" "in_stream c' qi = in_stream c qi" "out_stream c' qo = out_stream c qo"
    "untouched A c c'" "framed c' qi" "length header' = length header"
    using next_request_waits [OF assms] by blast
  then have "input_loop rl now st c header body can = ret (st, c', header', body, can)"
    by (subst input_loop.simps) simp
  then show ?thesis using n(2-) by blast
qed

text \<open>More input does not disturb what the record measures.\<close>

lemma received_framed:
  assumes "received A c c' qi qi' qo bs" and "framed c qi"
  shows "framed c' qi'"
proof -
  let ?s = "in_stream c qi"
  note R = assms(1) [unfolded received_def]
  have r: "only_in (upd_io (\<lambda>io. io\<lparr>io_in_len := io_in_len io + int (length bs)\<rparr>) c) c'"
    "in_stream c' qi' = ?s @ bs" using R by simp_all
  have "takeWhile (\<lambda>c. c \<noteq> newline) (?s @ bs) = takeWhile (\<lambda>c. c \<noteq> newline) ?s" if "newline \<in> set ?s"
    by (rule takeWhile_append1 [of newline]) (use that in simp_all)
  then have "header_size (?s @ bs) = header_size ?s"
    "take (header_size ?s) (?s @ bs) = take (header_size ?s) ?s" if "newline \<in> set ?s"
    using that header_size_less [OF that] by (simp_all add: header_size_def)
  then show ?thesis
    using assms(2) only_inD [OF r(1)] r(2) by (auto simp: framed_def Let_def)
qed

lemma closed_event:
  assumes "conn_inv c (x # fl) qi qo A" and "fl \<noteq> []" and "framed c qi"
    and "0 \<notin> set (takeWhile (\<lambda>c. c \<noteq> newline) (in_stream c qi))"
    and "header_size (in_stream c qi) + buf_unit < length header"
    and "request_at (in_stream c qi) = ret Incomplete"
  shows "\<exists>c' header'. handle_input rl now True (Some []) st c header body = ret (st, c', header', body, False) \<and>
    conn_inv c' fl (qi @ [x]) qo A \<and> framed c' (qi @ [x]) \<and> in_stream c' (qi @ [x]) = in_stream c qi \<and>
    length header' = length header"
proof -
  obtain c1 where c1: "append_recv_data c (Some []) = ret (c1, 0)" "conn_inv c1 fl (qi @ [x]) qo A"
    "received A c c1 qi (qi @ [x]) qo []"
    using append_recv_data_ok [OF assms(1,2), of "[]"] by auto
  have f: "framed c1 (qi @ [x])" using received_framed [OF c1(3) assms(3)] by simp
  have s: "in_stream c1 (qi @ [x]) = in_stream c qi" using c1(3) by (simp add: received_def)
  show ?thesis
    using input_loop_waits [OF c1(2) f, unfolded s, OF assms(4-6), of rl now st body False] c1(1)
    by (auto simp: handle_input_def)
qed

text \<open>
  C35. When the peer has closed and \<open>errno\<close> still says \<open>EAGAIN\<close> from an earlier call, the
  connection is not closed: each report of the event takes one more buffer from the worker's pool,
  and when the last one is reached an assertion stops the whole server.
\<close>

theorem stale_errno_exhausts_pool:
  assumes "conn_inv c fl qi qo A" and "fl \<noteq> []" and "framed c qi"
    and "0 \<notin> set (takeWhile (\<lambda>c. c \<noteq> newline) (in_stream c qi))"
    and "header_size (in_stream c qi) + buf_unit < length header"
    and "request_at (in_stream c qi) = ret Incomplete"
  shows "handle_events rl st c header body (replicate (length fl) (now, Readable True (Some []))) =
    abort_with Assert_failed"
  using assms
proof (induction fl arbitrary: c qi header)
  case (Cons x fl)
  show ?case
  proof (cases "fl = []")
    case True
    then have "handle_input rl now True (Some []) st c header body = abort_with Assert_failed"
      using append_recv_data_exhausted [OF Cons.prems(1)] by (simp add: handle_input_def)
    then show ?thesis using True by simp
  next
    case False
    obtain c' header' where e: "handle_input rl now True (Some []) st c header body = ret (st, c', header', body, False)"
      "conn_inv c' fl (qi @ [x]) qo A" "framed c' (qi @ [x])" "in_stream c' (qi @ [x]) = in_stream c qi"
      "length header' = length header"
      using closed_event [OF Cons.prems(1) False Cons.prems(3-6), of rl now st body] by blast
    then show ?thesis
      using Cons.IH [OF e(2) False e(3)] Cons.prems(4-6) by simp
  qed
qed simp

theorem stale_errno_exhausts_pool_witness:
  "\<exists>p. bp_new True 4 = ret p \<and>
    handle_events (\<lambda>_. True) (start_store 0) (new_conn p) (replicate 1000 0) []
      (replicate 4 (0, Readable True (Some []))) = abort_with Assert_failed"
proof -
  obtain p where p: "bp_new True 4 = ret p" "pool_inv p [0..<4] {}"
    using bp_new_ok [of 4] by auto
  have "request_at [] = ret Incomplete" by (simp add: request_at_def)
  then show ?thesis
    using stale_errno_exhausts_pool [OF new_conn_ok [OF p(2)] _ new_conn_framed, of "replicate 1000 0"
        "\<lambda>_. True" "start_store 0" "[]" 0] p(1)
    by (simp add: header_size_def buf_unit_def)
qed

end
