(* ===== verification/Wire.thy ===== *)
theory Wire
  imports Server
begin

text \<open>
  The server as a client sees it: a map from keys to items. \<open>serve\<close> is the specification, a
  function on the map; the theorem of this theory says that a worker that receives the bytes of a
  list of requests, cut into packets in any way, answers with the bytes of \<open>serve\<close> and leaves the
  store with its map. The requests are \<open>set\<close>, \<open>get\<close> of items that have not expired, and lines
  that are no command.
\<close>

section \<open>Requests\<close>

datatype req = SetReq cstr i32 i32 "cchar list" cstr | GetReq "cstr list" | BadReq cstr

fun req_line :: "req \<Rightarrow> cstr" where
  "req_line (SetReq key flag expire bytes rest) =
     set_request (cs ''set'') key flag expire (of_nat (length bytes)) rest"
| "req_line (GetReq ks) = get_request (cs ''get'') ks"
| "req_line (BadReq l) = l"

fun req_body :: "req \<Rightarrow> cchar list option" where
  "req_body (SetReq key flag expire bytes rest) = Some bytes"
| "req_body (GetReq ks) = None"
| "req_body (BadReq l) = None"

text \<open>The bytes the client sends.\<close>

definition wire :: "req \<Rightarrow> cchar list" where
  "wire r = req_line r @ crlf @ (case req_body r of None \<Rightarrow> [] | Some bs \<Rightarrow> bs @ crlf)"

definition commands :: "string list" where
  "commands = [''set'', ''get'', ''prefix'', ''less'', ''greater'', ''cas'', ''delete'', ''incr'', ''decr'', ''quit'']"

text \<open>What a client may send: keys that fit, lines that fit the header buffer, bodies that fit.\<close>

fun req_ok :: "nat \<Rightarrow> req \<Rightarrow> bool" where
  "req_ok n (SetReq key flag expire bytes rest) \<longleftrightarrow>
     line_ok (cs ''set'') key rest \<and> newline \<notin> set rest \<and> length bytes \<le> 1000000 \<and>
     length (req_line (SetReq key flag expire bytes rest)) + buf_unit < n"
| "req_ok n (GetReq ks) \<longleftrightarrow>
     ks \<noteq> [] \<and> (\<forall>k \<in> set ks. key_ok k \<and> newline \<notin> set k) \<and> length (req_line (GetReq ks)) + buf_unit < n"
| "req_ok n (BadReq l) \<longleftrightarrow>
     0 \<notin> set l \<and> newline \<notin> set l \<and> (\<forall>m \<in> set commands. take (length m) l \<noteq> cs m) \<and> length l + buf_unit < n"

section \<open>The specification\<close>

type_synonym items = "cstr \<Rightarrow> item option"

definition item_answer :: "items \<Rightarrow> cstr \<Rightarrow> cstr" where
  "item_answer M key =
     (case M key of
        None \<Rightarrow> []
      | Some (flag, expire, body) \<Rightarrow> value_line False key flag (of_nat (length body)) 0 @ body @ crlf)"

fun serve1 :: "int \<Rightarrow> items \<Rightarrow> req \<Rightarrow> items \<times> cstr" where
  "serve1 now M (SetReq key flag expire bytes rest) =
     (M(key \<mapsto> (flag, expire_at now expire, bytes)),
      if ends_with (req_line (SetReq key flag expire bytes rest)) (cs '' noreply'') then []
      else text_line ''STORED'')"
| "serve1 now M (GetReq ks) = (M, concat (map (item_answer M) ks) @ text_line ''END'')"
| "serve1 now M (BadReq l) = (M, text_line ''ERROR'')"

fun serve :: "int \<Rightarrow> items \<Rightarrow> req list \<Rightarrow> items \<times> cstr" where
  "serve now M [] = (M, [])"
| "serve now M (r # rs) =
     (case serve1 now M r of (M, k) \<Rightarrow> case serve now M rs of (M, k') \<Rightarrow> (M, k @ k'))"

text \<open>
  The resources: node array, data file, value buffer (\<open>vb\<close> bytes) and reply buffers. No
  \<open>get\<close> is for an item that has expired.
\<close>

fun req_live :: "int \<Rightarrow> items \<Rightarrow> req \<Rightarrow> bool" where
  "req_live now M (GetReq ks) \<longleftrightarrow>
     (\<forall>k \<in> set ks. case M k of None \<Rightarrow> True | Some (flag, expire, body) \<Rightarrow> \<not> expired now expire)"
| "req_live now M _ \<longleftrightarrow> True"

fun req_nodes :: "req \<Rightarrow> nat" where
  "req_nodes (SetReq key flag expire bytes rest) = length key"
| "req_nodes _ = 0"

fun req_bytes :: "req \<Rightarrow> nat" where
  "req_bytes (SetReq key flag expire bytes rest) = 12 + length bytes"
| "req_bytes _ = 0"

fun servable :: "nat \<Rightarrow> nat \<Rightarrow> int \<Rightarrow> items \<Rightarrow> req list \<Rightarrow> bool" where
  "servable hb vb now M [] \<longleftrightarrow> True"
| "servable hb vb now M (r # rs) \<longleftrightarrow>
     req_ok hb r \<and> req_live now M r \<and> length (snd (serve1 now M r)) \<le> vb \<and>
     servable hb vb now (fst (serve1 now M r)) rs"

fun reply_bufs :: "int \<Rightarrow> items \<Rightarrow> req list \<Rightarrow> nat" where
  "reply_bufs now M [] = 0"
| "reply_bufs now M (r # rs) =
     length (snd (serve1 now M r)) div buf_unit + 3 + reply_bufs now (fst (serve1 now M r)) rs"

section \<open>Framing of the requests\<close>

lemma serve_simps [simp]:
  "fst (serve now M (r # rs)) = fst (serve now (fst (serve1 now M r)) rs)"
  "snd (serve now M (r # rs)) = snd (serve1 now M r) @ snd (serve now (fst (serve1 now M r)) rs)"
  by (simp_all add: split_beta)

declare serve.simps(2) [simp del]

lemma text_facts:
  "0 \<notin> set (cs ''get'')" "space \<notin> set (cs ''get'')" "newline \<notin> set (cs ''get'')" "newline \<notin> set (cs ''set'')"
  "newline \<noteq> space" "newline \<noteq> 0" "CC 13 \<noteq> newline" "CC 13 \<noteq> 0" "crlf = [CC 13, newline]" "is_space newline"
  by code_simp+

lemma words_newline: "\<forall>w \<in> set ws. newline \<notin> set w \<Longrightarrow> newline \<notin> set (words ws)"
  using text_facts(5) by (induction ws rule: words.induct) auto

lemma word_newline: "word_ok w \<Longrightarrow> newline \<notin> set w"
  using text_facts(10) by (auto simp: word_ok_def list_all_iff)

lemma num_newline: "newline \<notin> set (num w)"
proof -
  have "\<not> is_digit newline" "newline \<noteq> CC 45" by code_simp+
  then show ?thesis
    using print_nat_digits by (auto simp: num_def print_int_def list_all_iff)
qed

text \<open>A line on which \<open>get_body_len\<close> sees no body.\<close>

lemma strip_prefix_none: "take (length l) s \<noteq> l \<Longrightarrow> strip_prefix l s = None"
  by (induction l s rule: strip_prefix.induct) auto

lemma header_body_none:
  assumes "take 3 l \<noteq> cs ''set''" and "take 3 l \<noteq> cs ''cas''"
  shows "header_body l = ret (False, 0)"
proof -
  have "length (cs ''set'') = 3" "length (cs ''cas'') = 3" by code_simp+
  then show ?thesis
    using strip_prefix_none [of "cs ''set''" l] strip_prefix_none [of "cs ''cas''" l] assms
    by (simp add: header_body_def set_format_def cas_format_def)
qed

definition body_size :: "req \<Rightarrow> bool \<times> int" where
  "body_size r = (case req_body r of None \<Rightarrow> (False, 0) | Some bs \<Rightarrow> (True, int (length bs)))"

lemma small_len: "n \<le> 1000000 \<Longrightarrow> clamp_value_len (sint (of_nat n :: i32)) = int n"
  using len_of_nat [of n] by (auto simp: clamp_value_len_def value_limit_def)

lemma bad_line:
  assumes "req_ok n (BadReq l)" and "m \<in> set commands"
  shows "take (length m) l \<noteq> cs m"
  using assms by simp

lemma req_frame:
  assumes "req_ok n r"
  shows "newline \<notin> set (req_line r)" and "0 \<notin> set (req_line r)"
    and "header_body (req_line r) = ret (body_size r)" and "length (req_line r) + buf_unit < n"
    and "\<And>bs. req_body r = Some bs \<Longrightarrow> length bs \<le> 1000000"
proof -
  show "newline \<notin> set (req_line r)"
  proof (cases r)
    case (SetReq key flag expire bytes rest)
    then have "word_ok key" "newline \<notin> set rest" using assms by (auto simp: line_ok_def)
    then have "\<forall>w \<in> set [cs ''set'', key, num flag, num expire, num (of_nat (length bytes))]. newline \<notin> set w"
      using word_newline num_newline text_facts(4) by simp
    from words_newline [OF this] show ?thesis
      using SetReq \<open>newline \<notin> set rest\<close> by (simp add: set_request_def)
  next
    case (GetReq ks)
    then show ?thesis
      using assms words_newline [of ks] text_facts(3,5) by (auto simp: get_request_def)
  qed (use assms in auto)
  show "0 \<notin> set (req_line r)"
  proof (cases r)
    case (SetReq key flag expire bytes rest)
    then show ?thesis using assms request_text(1) by simp
  next
    case (GetReq ks)
    then obtain k ws where "ks = k # ws" using assms by (cases ks) auto
    then have "0 \<notin> set (words ks)" using GetReq assms words_parts(2) [of k ws] by auto
    then show ?thesis using GetReq text_facts(1) by (auto simp: get_request_def space_def)
  qed (use assms in auto)
  show "header_body (req_line r) = ret (body_size r)"
  proof (cases r)
    case (SetReq key flag expire bytes rest)
    then show ?thesis using assms header_body_set [of key rest] small_len by (simp add: body_size_def)
  next
    case (GetReq ks)
    have "take 3 (get_request (cs ''get'') ks) = cs ''get''" by (simp add: get_request_def cs_def)
    moreover have "cs ''get'' \<noteq> cs ''set''" "cs ''get'' \<noteq> cs ''cas''" by code_simp+
    ultimately show ?thesis using GetReq header_body_none by (simp add: body_size_def)
  next
    case (BadReq l)
    have "take 3 l \<noteq> cs ''set''" "take 3 l \<noteq> cs ''cas''"
      using bad_line [of n l "''set''"] bad_line [of n l "''cas''"] assms BadReq
      by (simp_all add: commands_def numeral_3_eq_3)
    then show ?thesis using BadReq header_body_none by (simp add: body_size_def)
  qed
  show "length (req_line r) + buf_unit < n" using assms by (cases r) simp_all
  show "length bs \<le> 1000000" if "req_body r = Some bs" for bs using assms that by (cases r) auto
qed

text \<open>What the input makes of the bytes of a request, and of a part of them.\<close>

lemma wire_split: "wire r @ s = (req_line r @ [CC 13]) @ newline # (case req_body r of None \<Rightarrow> [] | Some bs \<Rightarrow> bs @ crlf) @ s"
  using text_facts(9) by (simp add: wire_def)

lemma takeWhile_newline: "newline \<notin> set pre \<Longrightarrow> takeWhile (\<lambda>c. c \<noteq> newline) (pre @ newline # t) = pre"
  by (induction pre) auto

lemma line_part:
  assumes "newline \<notin> set l"
  shows "takeWhile (\<lambda>c. c \<noteq> newline) ((l @ [CC 13]) @ newline # t) = l @ [CC 13]"
    and "header_size ((l @ [CC 13]) @ newline # t) = length l"
proof -
  show t: "takeWhile (\<lambda>c. c \<noteq> newline) ((l @ [CC 13]) @ newline # t) = l @ [CC 13]"
    by (rule takeWhile_newline) (use assms text_facts(7) in auto)
  then show "header_size ((l @ [CC 13]) @ newline # t) = length l" by (simp add: header_size_def)
qed

lemma request_at_line:
  assumes "newline \<notin> set l" and "header_body l = ret (w, n)"
  shows "request_at ((l @ [CC 13]) @ newline # t) =
    ret (if \<not> w then Request l None t
         else if nat n + 2 \<le> length t then Request l (Some (take (nat n) t)) (drop (nat n + 2) t)
         else Incomplete)"
proof -
  have d: "drop (length l + 2) ((l @ [CC 13]) @ newline # t) = t"
    "drop (4 + nat n) (CC 13 # newline # t) = drop (Suc (Suc (nat n))) t"
    by (simp_all add: eval_nat_numeral)
  show ?thesis
    unfolding request_at_def Let_def line_part(2) [OF assms(1)] d(1) using assms(2) d(2) by simp
qed

lemma request_at_wire:
  assumes "req_ok n r"
  shows "request_at (wire r @ s) = ret (Request (req_line r) (req_body r) s)"
proof -
  obtain w m where b: "body_size r = (w, m)" by (cases "body_size r")
  show ?thesis
    unfolding wire_split request_at_line [OF req_frame(1) [OF assms] req_frame(3) [OF assms, unfolded b]]
    using b by (cases "req_body r") (auto simp: body_size_def crlf_def)
qed

lemma request_at_partial:
  assumes "req_ok n r" and "strict_prefix s (wire r)"
  shows "request_at s = ret Incomplete"
proof (cases "newline \<in> set s")
  case False
  then show ?thesis by (simp add: request_at_def)
next
  case True
  obtain w m where b: "body_size r = (w, m)" by (cases "body_size r")
  obtain u where u: "s @ u = wire r" "u \<noteq> []" using assms(2) by (auto simp: strict_prefix_def prefix_def)
  obtain pre t where s: "s = pre @ newline # t" "newline \<notin> set pre" using True by (meson split_list_first)
  let ?b = "case req_body r of None \<Rightarrow> [] | Some bs \<Rightarrow> bs @ crlf"
  have "pre @ newline # t @ u = (req_line r @ [CC 13]) @ newline # ?b"
    using u(1) s(1) wire_split [of r "[]"] by simp
  then have "takeWhile (\<lambda>c. c \<noteq> newline) (pre @ newline # t @ u) =
      takeWhile (\<lambda>c. c \<noteq> newline) ((req_line r @ [CC 13]) @ newline # ?b)" by (rule arg_cong)
  then have p: "pre = req_line r @ [CC 13]"
    unfolding line_part(1) [OF req_frame(1) [OF assms(1)]] takeWhile_newline [OF s(2)] .
  then have t: "t @ u = ?b" using u(1) s(1) wire_split [of r "[]"] by simp
  have L: "length t < length ?b" using u(2) arg_cong [OF t, of length] by (cases u) auto
  show ?thesis
    unfolding s(1) p request_at_line [OF req_frame(1) [OF assms(1)] req_frame(3) [OF assms(1), unfolded b]]
    using b L by (cases "req_body r") (auto simp: body_size_def crlf_def)
qed

lemma header_part:
  assumes "req_ok n r" and "prefix s (wire r @ t)"
  shows "0 \<notin> set (takeWhile (\<lambda>c. c \<noteq> newline) s)" and "header_size s + buf_unit < n"
proof -
  obtain u where u: "s @ u = wire r @ t" using assms(2) by (auto simp: prefix_def)
  have l: "takeWhile (\<lambda>c. c \<noteq> newline) (s @ u) = req_line r @ [CC 13]"
    unfolding u wire_split by (rule line_part(1) [OF req_frame(1) [OF assms(1)]])
  have p: "prefix (takeWhile (\<lambda>c. c \<noteq> newline) s) (req_line r @ [CC 13])"
    unfolding l [symmetric] by (induction s) auto
  show "0 \<notin> set (takeWhile (\<lambda>c. c \<noteq> newline) s)"
    using set_mono_prefix [OF p] req_frame(2) [OF assms(1)] text_facts(8) by auto
  show "header_size s + buf_unit < n"
    using prefix_length_le [OF p] req_frame(4) [OF assms(1)] by (simp add: header_size_def)
qed


section \<open>One request\<close>

lemma starts_with_holds:
  assumes "holds header l" and "0 \<notin> set (cs m)"
  shows "starts_with header m \<longleftrightarrow> take (length m) l = cs m"
proof -
  have h: "take (Suc (length l)) header = l @ [0]" using assms(1) by (simp add: holds_def)
  have n: "length (cs m) = length m" by (simp add: cs_def)
  show ?thesis
  proof (cases "length m \<le> length l")
    case True
    then have "take (length m) header = take (length m) (take (Suc (length l)) header)" by (simp add: min_def)
    then show ?thesis using True unfolding h starts_with_def by simp
  next
    case False
    have "take (length m) header \<noteq> cs m"
    proof
      assume e: "take (length m) header = cs m"
      have "take (Suc (length l)) header = take (Suc (length l)) (take (length m) header)" using False by (simp add: min_def)
      then have "l @ [0] = take (Suc (length l)) (cs m)" using h e by simp
      then have "0 \<in> set (take (Suc (length l)) (cs m))" by (metis in_set_conv_decomp)
      then show False using assms(2) in_set_takeD by fast
    qed
    moreover have "length (take (length m) l) \<noteq> length (cs m)" using False n by simp
    then have "take (length m) l \<noteq> cs m" by metis
    ultimately show ?thesis by (simp add: starts_with_def)
  qed
qed

lemma command_text: "m \<in> set (''gets'' # commands) \<Longrightarrow> 0 \<notin> set (cs m)"
proof -
  have "\<forall>m \<in> set (''gets'' # commands). 0 \<notin> set (cs m)" by code_simp
  then show "m \<in> set (''gets'' # commands) \<Longrightarrow> 0 \<notin> set (cs m)" by blast
qed

lemma answer_items: "answer False st = item_answer (item_of st)"
  by (rule ext) (simp add: answer_def item_answer_def value_line_def split: option.split)

lemma dispatch_set:
  "starts_with header ''set'' \<Longrightarrow> dispatch rl now st c header body = cmd_do_set rl now st c header body"
  by (simp add: dispatch_def)

lemma dispatch_get:
  assumes "holds header (get_request (cs ''get'') ks)"
  shows "dispatch rl now st c header body = cmd_do_get now False st c header"
proof -
  have t: "take 3 (get_request (cs ''get'') ks) = cs ''get''" "take 4 (get_request (cs ''get'') ks) = cs ''get''  @ [space]"
    by (simp_all add: get_request_def cs_def)
  have n: "cs ''get'' \<noteq> cs ''set''" "cs ''get'' @ [space] \<noteq> cs ''gets''" by code_simp+
  have "\<not> starts_with header ''set''" "\<not> starts_with header ''gets''" "starts_with header ''get''"
    using starts_with_holds [OF assms command_text, of "''set''"] starts_with_holds [OF assms command_text, of "''gets''"]
      starts_with_holds [OF assms command_text, of "''get''"] t n
    by (simp_all add: commands_def numeral_3_eq_3 eval_nat_numeral)
  then show ?thesis by (simp add: dispatch_def)
qed

lemma dispatch_unknown:
  assumes "holds header l" and "\<forall>m \<in> set commands. take (length m) l \<noteq> cs m"
  shows "dispatch rl now st c header body = no_change st (append_send_data c (text_line ''ERROR''))"
proof -
  have c: "\<not> starts_with header m" if "m \<in> set commands" for m
    using starts_with_holds [OF assms(1) command_text, of m] assms(2) that by simp
  have "\<not> starts_with header ''gets''"
  proof
    assume "starts_with header ''gets''"
    then have g: "take 4 header = cs ''gets''" by (simp add: starts_with_def eval_nat_numeral)
    have "take 3 header = take 3 (take 4 header)" by simp
    also have "\<dots> = cs ''get''" unfolding g by (simp add: cs_def)
    finally show False using c [of "''get''"] by (simp add: starts_with_def commands_def numeral_3_eq_3)
  qed
  moreover have "\<not> starts_with header ''set''" "\<not> starts_with header ''get''" "\<not> starts_with header ''prefix''"
    "\<not> starts_with header ''less''" "\<not> starts_with header ''greater''" "\<not> starts_with header ''cas''"
    "\<not> starts_with header ''delete''" "\<not> starts_with header ''incr''" "\<not> starts_with header ''decr''"
    "\<not> starts_with header ''quit''"
    by (rule c, simp add: commands_def)+
  ultimately show ?thesis by (simp add: dispatch_def)
qed

lemma dispatch_req:
  assumes ok: "req_ok n r" and live: "req_live now (item_of st) r" and inv: "store_inv st"
    and h: "holds header (req_line r)" and b: "\<And>bs. req_body r = Some bs \<Longrightarrow> holds body bs"
    and room: "room rl (st_tst st) (req_nodes r + m)" and data: "length (st_data st) < 2 ^ 64"
    and vb: "length (snd (serve1 now (item_of st) r)) \<le> length (st_vbuf st)"
    and c: "conn_inv c fl qi qo A" and fl: "length (snd (serve1 now (item_of st) r)) div buf_unit + 3 < length fl"
  shows "\<exists>st'. handled A qi qo c (dispatch rl now st c header body) st' (snd (serve1 now (item_of st) r)) \<and>
    store_inv st' \<and> item_of st' = fst (serve1 now (item_of st) r) \<and> length (st_vbuf st') = length (st_vbuf st) \<and>
    length (st_data st') = length (st_data st) + req_bytes r \<and> room rl (st_tst st') m"
proof (cases r)
  case (SetReq key flag expire bytes rest)
  let ?n = "of_nat (length bytes) :: i32"
  have bl: "length bytes \<le> 1000000" and l: "line_ok (cs ''set'') key rest"
    using ok SetReq by auto
  have n: "0 \<le> sint ?n" "int (length bytes) = sint ?n"
    using len_of_nat [of "length bytes"] bl by auto
  have "take 3 (req_line r) = cs ''set''" using SetReq by (simp add: set_request_def cs_def)
  then have sw: "starts_with header ''set''"
    using starts_with_holds [OF h command_text, of "''set''"] by (simp add: commands_def numeral_3_eq_3)
  have s: "send_need c qo 8 < length fl"
    using send_need_le [of c qo 8] chunks_le [of 8] fl by (simp add: buf_unit_def)
  have rm: "room rl (st_tst st) (length key)" "room rl (st_tst st) (length key + m)"
    using room SetReq by (auto simp: room_def)
  show ?thesis
    using cmd_do_set_ok [OF inv l _ n(1) b n(2) rm(1) data c s, of header flag expire now] h rm(2)
    by (fastforce simp: SetReq dispatch_set [OF sw] record_bytes_def int32.enc_length)
next
  case (GetReq ks)
  have k: "ks \<noteq> []" "\<forall>k \<in> set ks. key_ok k \<and> live now st k" using ok live GetReq by (auto simp: live_def)
  have h': "holds header (get_request (cs ''get'') ks)" using h GetReq by simp
  let ?R = "concat (map (answer False st) ks)"
  have e: "snd (serve1 now (item_of st) r) = ?R @ text_line ''END''" "length (text_line ''END'') = 5"
    using GetReq by (simp_all add: answer_items text_line_def cs_def crlf_def)
  have rm: "length ?R + 5 \<le> length (st_vbuf st)" "send_need c qo (length ?R + 5) < length fl"
    using vb fl send_need_le [of c qo "length ?R + 5"] chunks_le [of "length ?R + 5"] unfolding e(1) by (simp_all add: e(2))
  obtain v c' where g: "cmd_do_get now False st c header = ret (st\<lparr>st_vbuf := v\<rparr>, c')"
    "length v = length (st_vbuf st)" "replied A qi qo c (?R @ text_line ''END'') c'"
    using cmd_do_get_ok [OF inv k text_facts(1,2) h' rm(1) c rm(2)] by blast
  show ?thesis
    by (rule exI [of _ "st\<lparr>st_vbuf := v\<rparr>"])
      (use g inv room in \<open>simp add: dispatch_get [OF h'] handled_def GetReq answer_items\<close>)
next
  case (BadReq l)
  have "length (text_line ''ERROR'') = 7" by (simp add: text_line_def cs_def crlf_def)
  then have s: "send_need c qo (length (text_line ''ERROR'')) < length fl"
    using send_need_le [of c qo 7] chunks_le [of 7] fl by (simp add: buf_unit_def)
  obtain c' where c': "append_send_data c (text_line ''ERROR'') = ret c'" "replied A qi qo c (text_line ''ERROR'') c'"
    by (rule reply_ok [OF c s])
  have "\<forall>m \<in> set commands. take (length m) l \<noteq> cs m" using ok BadReq by simp
  then show ?thesis
    using dispatch_unknown [of header l] h c' inv room BadReq
    by (intro exI [of _ st]) (simp add: handled_def no_change_def)
qed


section \<open>A worker between two events\<close>

definition worker_ok ::
  "nat \<Rightarrow> store \<Rightarrow> conn \<Rightarrow> nat list \<Rightarrow> nat list \<Rightarrow> nat list \<Rightarrow> nat set \<Rightarrow> cchar list \<Rightarrow> cchar list \<Rightarrow> cchar list \<Rightarrow> bool"
where
  "worker_ok hb st c fl qi qo A s header body \<longleftrightarrow>
     store_inv st \<and> conn_inv c fl qi qo A \<and> framed c qi \<and> in_stream c qi = s \<and>
     length header = hb \<and> buf_unit < hb \<and> 1000002 \<le> length body"

text \<open>There is room for the requests \<open>rs\<close>, and for \<open>m\<close> packets besides.\<close>

definition pending ::
  "(u64 \<Rightarrow> bool) \<Rightarrow> nat \<Rightarrow> int \<Rightarrow> req list \<Rightarrow> nat \<Rightarrow> store \<Rightarrow> nat list \<Rightarrow> bool"
where
  "pending rl hb now rs m st fl \<longleftrightarrow>
     servable hb (length (st_vbuf st)) now (item_of st) rs \<and>
     room rl (st_tst st) (sum_list (map req_nodes rs)) \<and>
     length (st_data st) + sum_list (map req_bytes rs) < 2 ^ 64 \<and>
     m + reply_bufs now (item_of st) rs < length fl"

lemma mem_put_holds: "holds buf l \<Longrightarrow> mem_put buf (int (length l)) [0] = ret buf"
proof -
  assume h: "holds buf l"
  have n: "length l < length buf" using h by (rule holds_len)
  have "buf ! length l = 0" using h n unfolding holds_def
    by (metis lessI nth_append_length nth_take)
  then have "buf[length l := 0] = buf" by (metis list_update_id)
  then show "mem_put buf (int (length l)) [0] = ret buf" using mem_put_one [OF n] by simp
qed

lemma handle_cmd_taken:
  assumes "taken c header body body' hdr b" and "0 < length body'"
  obtains body2 where "length body2 = length body'" and "\<And>bs. b = Some bs \<Longrightarrow> holds body2 bs"
    and "\<And>rl now st. handle_cmd rl now st c header body' =
      run_bind (dispatch rl now st c header body2) (\<lambda>(st, c). ret (st, c, header, body2))"
proof (cases b)
  case None
  then have "mem_put header (io_header_len (cn_io c)) [0] = ret header"
    "mem_put body' (io_body_len (cn_io c)) [0] = ret (body'[0 := 0])"
    using assms mem_put_holds mem_put_one [of 0 body'] by (auto simp: taken_def)
  then show thesis using that [of "body'[0 := 0]"] None by (simp add: handle_cmd_def)
next
  case (Some bs)
  then have "mem_put header (io_header_len (cn_io c)) [0] = ret header"
    "mem_put body' (io_body_len (cn_io c)) [0] = ret body'" "holds body' bs"
    using assms mem_put_holds by (auto simp: taken_def)
  then show thesis using that [of body'] Some by (simp add: handle_cmd_def)
qed

lemma fix_buf_len_same [simp]:
  "cn_pool (fix_buf_len c) = cn_pool c" "io_in_head (cn_io (fix_buf_len c)) = io_in_head (cn_io c)"
  "io_in_tail (cn_io (fix_buf_len c)) = io_in_tail (cn_io c)" "io_out_head (cn_io (fix_buf_len c)) = io_out_head (cn_io c)"
  "io_out_tail (cn_io (fix_buf_len c)) = io_out_tail (cn_io c)"
  by (simp_all add: fix_buf_len_def Let_def)

lemma fix_framed:
  assumes "framed (fix_buf_len c) qi" and "only_out c c'" and "in_stream c' qi = in_stream c qi"
  shows "framed (fix_buf_len c') qi"
proof -
  have i: "idle (fix_buf_len c)" for c by (simp add: idle_def fix_buf_len_def Let_def)
  have "io_in_len (cn_io (fix_buf_len c')) = io_in_len (cn_io (fix_buf_len c))"
    using only_outD [OF assms(2)] by (simp add: fix_buf_len_def Let_def)
  then show ?thesis using assms(1,3) idle_framed [OF i] by simp
qed

lemma request_step:
  assumes w: "worker_ok hb st c fl qi qo A (wire r @ s) header body" and p: "pending rl hb now (r # rs) m st fl"
  shows "\<exists>st' c' fl' qi' qo' header' body'.
    (\<forall>can. input_loop rl now st c header body can =
      input_loop rl now st' c' header' body' (can \<or> io_out_head (cn_io c') \<noteq> None)) \<and>
    worker_ok hb st' c' fl' qi' qo' A s header' body' \<and> pending rl hb now rs m st' fl' \<and>
    item_of st' = fst (serve1 now (item_of st) r) \<and> untouched A c c' \<and>
    out_stream c' qo' = out_stream c qo @ snd (serve1 now (item_of st) r)"
proof -
  let ?k = "snd (serve1 now (item_of st) r)"
  note W = w [unfolded worker_ok_def] and P = p [unfolded pending_def]
  have ok: "req_ok hb r" "req_live now (item_of st) r" "length ?k \<le> length (st_vbuf st)"
    "servable hb (length (st_vbuf st)) now (fst (serve1 now (item_of st) r)) rs"
    and fl: "length ?k div buf_unit + 3 < length fl" "fl \<noteq> []"
    "m + (length ?k div buf_unit + 3 + reply_bufs now (fst (serve1 now (item_of st) r)) rs) < length fl"
    and rm: "room rl (st_tst st) (req_nodes r + sum_list (map req_nodes rs))"
    and dt: "length (st_data st) + req_bytes r + sum_list (map req_bytes rs) < 2 ^ 64"
    using P by auto
  have pre: "prefix (in_stream c qi) (wire r @ s)" using W by simp
  note hp = header_part [OF ok(1) pre]
  have ra: "request_at (in_stream c qi) = ret (Request (req_line r) (req_body r) s)"
    using W request_at_wire [OF ok(1)] by simp
  obtain c1 h1 b1 fl1 qi1 where n: "next_request c header body = ret (c1, h1, b1, True)"
    "conn_inv c1 fl1 qi1 qo A" "length fl \<le> length fl1" "in_stream c1 qi1 = s" "out_stream c1 qo = out_stream c qo"
    "untouched A c c1" "taken c1 h1 body b1 (req_line r) (req_body r)" "length h1 = length header"
    "length b1 = length body" "framed (fix_buf_len c1) qi1"
    using next_request_complete [OF _ fl(2) _ hp(1) _ _ ra, of qo A header body] W hp(2) by auto
  have "0 < length b1" using n(9) W by auto
  from handle_cmd_taken [OF n(7) this] obtain b2 where b2: "length b2 = length b1"
    "\<And>bs. req_body r = Some bs \<Longrightarrow> holds b2 bs"
    "\<And>rl now st. handle_cmd rl now st c1 h1 b1 =
      run_bind (dispatch rl now st c1 h1 b2) (\<lambda>(st, c). ret (st, c, h1, b2))" by blast
  have hh: "holds h1 (req_line r)" using n(7) by (simp add: taken_def)
  have d: "length (st_data st) < 2 ^ 64" "length ?k div buf_unit + 3 < length fl1" using dt fl(1) n(3) by auto
  obtain st' where st': "handled A qi1 qo c1 (dispatch rl now st c1 h1 b2) st' ?k" "store_inv st'"
    "item_of st' = fst (serve1 now (item_of st) r)" "length (st_vbuf st') = length (st_vbuf st)"
    "length (st_data st') = length (st_data st) + req_bytes r" "room rl (st_tst st') (sum_list (map req_nodes rs))"
    using dispatch_req [OF ok(1,2) _ hh b2(2) rm d(1) ok(3) n(2) d(2)] W by auto
  obtain c2 fl2 qo2 where c2: "dispatch rl now st c1 h1 b2 = ret (st', c2)" "conn_inv c2 fl2 qi1 qo2 A"
    "appended A c1 c2 qi1 qo qo2 ?k" "length qo2 \<le> length qo + length ?k div buf_unit + 3"
    using st'(1) by (auto simp: handled_def replied_def)
  note ap = c2(3) [unfolded appended_def]
  let ?c = "fix_buf_len c2"
  have l: "length fl1 + length qo = length fl2 + length qo2"
    using conn_count_out [OF n(2) c2(2)] ap by simp
  have inv: "conn_inv ?c fl2 qi1 qo2 A" by (rule conn_inv_io [OF c2(2)]) simp_all
  have fr: "framed ?c qi1" using fix_framed [OF n(10)] ap by blast
  have u: "untouched A c ?c" using untouched_trans [OF n(6), of c2] ap by (simp add: untouched_def)
  have "input_loop rl now st c header body can = input_loop rl now st' ?c h1 b2 (can \<or> io_out_head (cn_io ?c) \<noteq> None)" for can
    using n(1) b2(3) c2(1) by (subst input_loop.simps) (simp add: Let_def)
  moreover have "worker_ok hb st' ?c fl2 qi1 qo2 A s h1 b2"
    using st'(2) inv fr ap n(4,8,9) b2(1) W by (simp add: worker_ok_def)
  moreover have "pending rl hb now rs m st' fl2"
    using ok(4) st'(3-6) dt fl(3) n(3) l c2(4) by (simp add: pending_def)
  moreover have "out_stream ?c qo2 = out_stream c qo @ ?k" using ap n(5) by simp
  ultimately show ?thesis using st'(3) u by blast
qed


text \<open>
  What one event does: the requests \<open>rs\<close> that are complete are served, the bytes \<open>s'\<close> of the
  next one stay. \<open>os\<close> are requests that are complete later, of this client or of another.
\<close>

definition served_reqs ::
  "(u64 \<Rightarrow> bool) \<Rightarrow> nat \<Rightarrow> int \<Rightarrow> req list \<Rightarrow> req list \<Rightarrow> nat \<Rightarrow> nat set \<Rightarrow> store \<Rightarrow> conn \<Rightarrow> nat list \<Rightarrow>
   cchar list \<Rightarrow> store \<Rightarrow> conn \<Rightarrow> cchar list \<Rightarrow> cchar list \<Rightarrow> bool"
where
  "served_reqs rl hb now rs os m A st c qo s' st' c' header' body' \<longleftrightarrow>
     (\<exists>fl' qi' qo'. worker_ok hb st' c' fl' qi' qo' A s' header' body' \<and> pending rl hb now os m st' fl' \<and>
       item_of st' = fst (serve now (item_of st) rs) \<and> untouched A c c' \<and>
       out_stream c' qo' = out_stream c qo @ snd (serve now (item_of st) rs))"

text \<open>The bytes that stay are none, or the start of a request.\<close>

definition partial_req :: "nat \<Rightarrow> cchar list \<Rightarrow> bool" where
  "partial_req n s \<longleftrightarrow> s = [] \<or> (\<exists>r. req_ok n r \<and> strict_prefix s (wire r))"

lemma partial_req_waits:
  assumes "partial_req n s"
  shows "request_at s = ret Incomplete" and "0 \<notin> set (takeWhile (\<lambda>c. c \<noteq> newline) s)"
    and "buf_unit < n \<Longrightarrow> header_size s + buf_unit < n"
proof -
  consider "s = []" | r where "req_ok n r" "strict_prefix s (wire r)" "prefix s (wire r @ [])"
    using assms by (auto simp: partial_req_def strict_prefix_def)
  then have "request_at s = ret Incomplete \<and> 0 \<notin> set (takeWhile (\<lambda>c. c \<noteq> newline) s) \<and>
      (buf_unit < n \<longrightarrow> header_size s + buf_unit < n)"
  proof cases
    case 2
    then show ?thesis using request_at_partial [OF 2(1,2)] header_part [OF 2(1,3)] by simp
  qed (simp add: request_at_def header_size_def)
  then show "request_at s = ret Incomplete" "0 \<notin> set (takeWhile (\<lambda>c. c \<noteq> newline) s)"
    "buf_unit < n \<Longrightarrow> header_size s + buf_unit < n" by simp_all
qed

lemma served_more:
  assumes "served_reqs rl hb now rs os m A st1 c1 qo1 s' st' c' header' body'"
    and "item_of st1 = fst (serve1 now (item_of st) r)" and "untouched A c c1"
    and "out_stream c1 qo1 = out_stream c qo @ snd (serve1 now (item_of st) r)"
  shows "served_reqs rl hb now (r # rs) os m A st c qo s' st' c' header' body'"
  using assms untouched_trans [OF assms(3)] unfolding served_reqs_def by fastforce

lemma input_loop_serves:
  assumes "worker_ok hb st c fl qi qo A (concat (map wire rs) @ s') header body" and "partial_req hb s'"
    and "pending rl hb now (rs @ os) m st fl"
  shows "\<exists>st' c' header' body' can'.
    input_loop rl now st c header body can = ret (st', c', header', body', can') \<and>
    served_reqs rl hb now rs os m A st c qo s' st' c' header' body'"
  using assms
proof (induction rs arbitrary: st c fl qi qo header body can)
  case Nil
  note W = Nil.prems(1) [unfolded worker_ok_def]
  note P = partial_req_waits [OF Nil.prems(2)]
  obtain c' header' where l: "input_loop rl now st c header body can = ret (st, c', header', body, can)"
    "conn_inv c' fl qi qo A" "in_stream c' qi = in_stream c qi" "out_stream c' qo = out_stream c qo"
    "untouched A c c'" "framed c' qi" "length header' = length header"
    using input_loop_waits [of c fl qi qo A header rl now st body can] W P by auto
  have "worker_ok hb st c' fl qi qo A s' header' body" using l W by (simp add: worker_ok_def)
  then have "served_reqs rl hb now [] os m A st c qo s' st c' header' body"
    using Nil.prems(3) l(4,5) by (auto simp: served_reqs_def)
  then show ?case using l(1) by blast
next
  case (Cons r rs)
  have w: "worker_ok hb st c fl qi qo A (wire r @ concat (map wire rs) @ s') header body"
    and p: "pending rl hb now (r # rs @ os) m st fl"
    using Cons.prems(1,3) by simp_all
  obtain st1 c1 fl1 qi1 qo1 h1 b1 where q:
    "\<forall>can. input_loop rl now st c header body can = input_loop rl now st1 c1 h1 b1 (can \<or> io_out_head (cn_io c1) \<noteq> None)"
    "worker_ok hb st1 c1 fl1 qi1 qo1 A (concat (map wire rs) @ s') h1 b1" "pending rl hb now (rs @ os) m st1 fl1"
    "item_of st1 = fst (serve1 now (item_of st) r)" "untouched A c c1"
    "out_stream c1 qo1 = out_stream c qo @ snd (serve1 now (item_of st) r)"
    using request_step [OF w p] by blast
  obtain st' c' header' body' can' where
    l: "input_loop rl now st1 c1 h1 b1 (can \<or> io_out_head (cn_io c1) \<noteq> None) = ret (st', c', header', body', can')"
    and t: "served_reqs rl hb now rs os m A st1 c1 qo1 s' st' c' header' body'"
    using Cons.IH [OF q(2) Cons.prems(2) q(3)] by blast
  have "input_loop rl now st c header body can = ret (st', c', header', body', can')"
    using l q(1) by simp
  with served_more [OF t q(4-6)] show ?case by blast
qed

lemma watch_ok [simp]:
  "conn_inv (watch q c) = conn_inv c" "framed (watch q c) = framed c" "untouched A c (watch q c') = untouched A c c'"
  by (auto simp: fun_eq_iff conn_inv_def framed_def idle_def untouched_def Let_def)

lemma served_watch: "served_reqs rl hb now rs os m A st c qo s' st' (watch q c') header' body' =
    served_reqs rl hb now rs os m A st c qo s' st' c' header' body'"
  by (simp add: served_reqs_def worker_ok_def)

lemma packet_event:
  assumes w: "worker_ok hb st c fl qi qo A s header body" and s: "s @ p = concat (map wire rs) @ s'"
    and p: "pending rl hb now (rs @ os) (Suc m) st fl" and len: "p \<noteq> []" "length p \<le> buf_unit"
    and rest: "partial_req hb s'"
  shows "\<exists>st' c' header' body'.
    handle_event rl now st c header body (Readable again (Some p)) = ret (st', c', header', body') \<and>
    served_reqs rl hb now rs os m A st c qo s' st' c' header' body'"
proof -
  note W = w [unfolded worker_ok_def]
  obtain x fl' where fl: "fl = x # fl'" "fl' \<noteq> []"
    using p by (cases fl; cases "tl fl") (auto simp: pending_def)
  obtain c1 where c1: "append_recv_data c (Some p) = ret (c1, int (length p))" "conn_inv c1 fl' (qi @ [x]) qo A"
    "received A c c1 qi (qi @ [x]) qo p"
    using append_recv_data_ok [OF _ fl(2) len(2), of c x qi qo A] W fl(1) by auto
  have r: "in_stream c1 (qi @ [x]) = s @ p" "out_stream c1 qo = out_stream c qo" "untouched A c c1"
    using c1(3) W by (simp_all add: received_def)
  have "framed c1 (qi @ [x])" using received_framed [OF c1(3)] W by blast
  then have w1: "worker_ok hb st c1 fl' (qi @ [x]) qo A (concat (map wire rs) @ s') header body"
    using W c1(2) r(1) s by (simp add: worker_ok_def)
  have p1: "pending rl hb now (rs @ os) m st fl'" using p fl(1) by (simp add: pending_def)
  obtain st' c' header' body' can' where
    l: "input_loop rl now st c1 header body False = ret (st', c', header', body', can')"
    and t: "served_reqs rl hb now rs os m A st c1 qo s' st' c' header' body'"
    using input_loop_serves [OF w1 rest p1] by blast
  have "handle_event rl now st c header body (Readable again (Some p)) =
      ret (st', if can' then watch Poll_out c' else c', header', body')"
    using c1(1) l len(1) by (simp add: handle_input_def)
  moreover have "served_reqs rl hb now rs os m A st c qo s' st' c' header' body'"
    using t r(2) untouched_trans [OF r(3)] by (fastforce simp: served_reqs_def)
  ultimately show ?thesis by (cases can') (use served_watch in simp_all)
qed

text \<open>The requests \<open>rs\<close> that are complete in the bytes \<open>s\<close>, those that are not, and what is left.\<close>

fun split_reqs :: "req list \<Rightarrow> cchar list \<Rightarrow> req list \<times> req list \<times> cchar list" where
  "split_reqs [] s = ([], [], s)"
| "split_reqs (r # rs) s =
     (if length (wire r) \<le> length s
      then (case split_reqs rs (drop (length (wire r)) s) of (full, rest, t) \<Rightarrow> (r # full, rest, t))
      else ([], r # rs, s))"

lemma prefix_parts: "s @ u = w @ t \<Longrightarrow> length w \<le> length s \<Longrightarrow> s = w @ drop (length w) s \<and> drop (length w) s @ u = t"
  by (metis append_eq_append_conv_if append_eq_conv_conj append_take_drop_id)

lemma split_reqs_ok:
  assumes "split_reqs rs s = (full, rest, t)" and "s @ u = concat (map wire rs)"
  shows "rs = full @ rest \<and> s = concat (map wire full) @ t \<and> t @ u = concat (map wire rest) \<and>
    (\<forall>n. (\<forall>r \<in> set rest. req_ok n r) \<longrightarrow> partial_req n t)"
  using assms
proof (induction rs arbitrary: s full)
  case (Cons r rs)
  show ?case
  proof (cases "length (wire r) \<le> length s")
    case True
    obtain d where d: "split_reqs rs (drop (length (wire r)) s) = (d, rest, t)" "full = r # d"
      using Cons.prems(1) True by (auto split: prod.splits)
    have p: "s = wire r @ drop (length (wire r)) s" "drop (length (wire r)) s @ u = concat (map wire rs)"
      using prefix_parts [of s u "wire r" "concat (map wire rs)"] Cons.prems(2) True by simp_all
    note I = Cons.IH [OF d(1) p(2)]
    have "s = wire r @ concat (map wire d) @ t" using I p(1) by simp
    then show ?thesis using I d(2) by simp
  next
    case False
    then have e: "full = []" "rest = r # rs" "t = s" using Cons.prems(1) by auto
    have "prefix s (wire r @ concat (map wire rs))" using Cons.prems(2) by (metis concat.simps(2) list.simps(9) prefixI)
    then have "strict_prefix s (wire r)"
      using prefix_length_prefix [of s _ "wire r"] False by (auto simp: strict_prefix_def)
    then show ?thesis using e Cons.prems(2) by (auto simp: partial_req_def)
  qed
qed (simp add: partial_req_def)

lemma split_reqs_rest:
  "split_reqs rs s = (full, rest, t) \<Longrightarrow> rest \<noteq> [] \<longrightarrow> length t < length (wire (hd rest))"
  by (induction rs arbitrary: s full) (auto split: if_split_asm prod.splits)

lemma servable_ok: "servable n vb now M rs \<Longrightarrow> \<forall>r \<in> set rs. req_ok n r"
  by (induction rs arbitrary: M) auto

lemma serve_append:
  "fst (serve now M (rs @ rs')) = fst (serve now (fst (serve now M rs)) rs')"
  "snd (serve now M (rs @ rs')) = snd (serve now M rs) @ snd (serve now (fst (serve now M rs)) rs')"
  by (induction rs arbitrary: M) simp_all

text \<open>The packets of a client, within one second.\<close>

definition packets :: "int \<Rightarrow> cchar list list \<Rightarrow> (int \<times> event) list" where
  "packets now ps = map (\<lambda>p. (now, Readable False (Some p))) ps"

lemma wire_nonempty: "wire r \<noteq> []"
  by (simp add: wire_def crlf_def)

lemma packets_served:
  assumes "worker_ok hb st c fl qi qo A s header body" and "s @ concat ps = concat (map wire rs)"
    and "pending rl hb now rs (length ps) st fl" and "\<forall>p \<in> set ps. p \<noteq> [] \<and> length p \<le> buf_unit"
    and "rs \<noteq> [] \<longrightarrow> length s < length (wire (hd rs))"
  shows "\<exists>st' c' fl' qi' qo' header' body'.
    handle_events rl st c header body (packets now ps) = ret (st', c', header', body') \<and>
    worker_ok hb st' c' fl' qi' qo' A [] header' body' \<and> length (st_data st') < 2 ^ 64 \<and>
    item_of st' = fst (serve now (item_of st) rs) \<and>
    untouched A c c' \<and> out_stream c' qo' = out_stream c qo @ snd (serve now (item_of st) rs)"
  using assms
proof (induction ps arbitrary: st c fl qi qo s header body rs)
  case Nil
  have "rs = []"
  proof (rule ccontr)
    assume "rs \<noteq> []"
    then obtain r rs' where r: "rs = r # rs'" by (cases rs) auto
    then have "length s = length (wire r) + length (concat (map wire rs'))" using Nil.prems(2) by simp
    then show False using Nil.prems(5) r by simp
  qed
  moreover have "s = []" using \<open>rs = []\<close> Nil.prems(2) by simp
  ultimately show ?case using Nil.prems(1,3) by (auto simp: packets_def pending_def)
next
  case (Cons p ps)
  have e: "(s @ p) @ concat ps = concat (map wire rs)" using Cons.prems(2) by simp
  have len: "p \<noteq> []" "length p \<le> buf_unit" using Cons.prems(4) by simp_all
  obtain rs1 rs2 s' where sp: "split_reqs rs (s @ p) = (rs1, rs2, s')" by (cases "split_reqs rs (s @ p)")
  have q: "rs = rs1 @ rs2" "s @ p = concat (map wire rs1) @ s'" "s' @ concat ps = concat (map wire rs2)"
    "partial_req hb s'" "rs2 \<noteq> [] \<longrightarrow> length s' < length (wire (hd rs2))"
    using split_reqs_ok [OF sp e] split_reqs_rest [OF sp] servable_ok Cons.prems(3) by (auto simp: pending_def)
  have pe: "pending rl hb now (rs1 @ rs2) (Suc (length ps)) st fl" using Cons.prems(3) q(1) by simp
  obtain st1 c1 h1 b1 where
    ev: "handle_event rl now st c header body (Readable False (Some p)) = ret (st1, c1, h1, b1)"
    and sv: "served_reqs rl hb now rs1 rs2 (length ps) A st c qo s' st1 c1 h1 b1"
    using packet_event [OF Cons.prems(1) q(2) pe len q(4)] by blast
  obtain fl' qi' qo1 where v: "worker_ok hb st1 c1 fl' qi' qo1 A s' h1 b1"
    "pending rl hb now rs2 (length ps) st1 fl'" "item_of st1 = fst (serve now (item_of st) rs1)" "untouched A c c1"
    "out_stream c1 qo1 = out_stream c qo @ snd (serve now (item_of st) rs1)"
    using sv unfolding served_reqs_def by blast
  have "\<forall>p \<in> set ps. p \<noteq> [] \<and> length p \<le> buf_unit" using Cons.prems(4) by simp
  then obtain st' c' fl2 qi2 qo2 h2 b2 where
    r: "handle_events rl st1 c1 h1 b1 (packets now ps) = ret (st', c', h2, b2)"
    "worker_ok hb st' c' fl2 qi2 qo2 A [] h2 b2" "length (st_data st') < 2 ^ 64" "item_of st' = fst (serve now (item_of st1) rs2)"
    "untouched A c1 c'" "out_stream c' qo2 = out_stream c1 qo1 @ snd (serve now (item_of st1) rs2)"
    using Cons.IH [OF v(1) q(3) v(2) _ q(5)] by blast
  have "handle_events rl st c header body (packets now (p # ps)) = ret (st', c', h2, b2)"
    using ev r(1) by (simp add: packets_def)
  moreover have "out_stream c' qo2 = out_stream c qo @ snd (serve now (item_of st) rs)"
    using r(6) q(1) v(3,5) by (simp add: serve_append)
  moreover have "item_of st' = fst (serve now (item_of st) rs)" using r(4) q(1) v(3) by (simp add: serve_append)
  ultimately show ?case using r(2,3) untouched_trans [OF v(4) r(5)] by blast
qed


section \<open>Properties\<close>

text \<open>
  The server is \<open>serve\<close>: a worker that receives the bytes of the requests \<open>rs\<close> in packets
  \<open>ps\<close>, cut anywhere, answers on that connection with exactly the bytes of \<open>serve\<close>, leaves the
  store with its map and nothing of the input behind, and does not touch the buffers of other
  connections. There must be room for them in the node array, the data file, the value buffer and
  the buffer pool.
\<close>

theorem requests_served:
  assumes "store_inv st" and "conn_inv c fl qi qo A" and "framed c qi" and "in_stream c qi = []"
    and "buf_unit < length header" and "1000002 \<le> length body"
    and "concat ps = concat (map wire rs)" and "\<forall>p \<in> set ps. p \<noteq> [] \<and> length p \<le> buf_unit"
    and "pending rl (length header) now rs (length ps) st fl"
  shows "\<exists>st' c' fl' qi' qo' header' body'.
    handle_events rl st c header body (packets now ps) = ret (st', c', header', body') \<and>
    store_inv st' \<and> length (st_data st') < 2 ^ 64 \<and> item_of st' = fst (serve now (item_of st) rs) \<and>
    conn_inv c' fl' qi' qo' A \<and> framed c' qi' \<and> in_stream c' qi' = [] \<and>
    out_stream c' qo' = out_stream c qo @ snd (serve now (item_of st) rs) \<and> untouched A c c'"
proof -
  have w: "worker_ok (length header) st c fl qi qo A [] header body"
    using assms(1-6) by (simp add: worker_ok_def)
  have "rs \<noteq> [] \<longrightarrow> length ([] :: cchar list) < length (wire (hd rs))" using wire_nonempty by simp
  from packets_served [OF w _ assms(9,8) this] assms(7) show ?thesis
    by (fastforce simp: worker_ok_def)
qed

text \<open>Three requests in three packets.\<close>

definition sample_reqs :: "req list" where
  "sample_reqs = [SetReq (cs ''a'') 5 0 (cs ''hi'') [], GetReq [cs ''a'', cs ''b''], BadReq (cs ''foo'')]"

definition sample_packets :: "cchar list list" where
  "sample_packets =
     [cs ''set a 5'', cs '' 0 2'' @ crlf @ cs ''hi'' @ [CC 13],
      [newline] @ cs ''get a b'' @ crlf @ cs ''foo'' @ crlf]"

definition sample_replies :: cstr where
  "sample_replies = text_line ''STORED'' @ text_line ''VALUE a 5 2'' @ text_line ''hi'' @ text_line ''END'' @ text_line ''ERROR''"

lemma sample_packets_ok:
  "concat sample_packets = concat (map wire sample_reqs)" "length sample_packets = 3"
  "\<forall>p \<in> set sample_packets. p \<noteq> [] \<and> length p \<le> buf_unit"
  by code_simp+

lemma sample_serve:
  "snd (serve 1000 (\<lambda>_. None) sample_reqs) = sample_replies"
  "fst (serve 1000 (\<lambda>_. None) sample_reqs) (cs ''a'') = Some (5, 0, cs ''hi'')"
  by code_simp+

lemma sample_servable:
  assumes "100 \<le> n"
  shows "servable 1000 n 1000 (\<lambda>_. None) sample_reqs"
proof -
  let ?r1 = "SetReq (cs ''a'') 5 0 (cs ''hi'') []" and ?r2 = "GetReq [cs ''a'', cs ''b'']" and ?r3 = "BadReq (cs ''foo'')"
  let ?M = "fst (serve1 1000 (\<lambda>_. None) ?r1)"
  have n: "length (req_line ?r1) = 11" "length (req_line ?r2) = 7" "length (req_line ?r3) = 3"
    "length (snd (serve1 1000 (\<lambda>_. None) ?r1)) = 8" "length (snd (serve1 1000 ?M ?r2)) = 22"
    "length (snd (serve1 1000 ?M ?r3)) = 7" by code_simp+
  have c: "\<forall>m \<in> set commands. take (length m) (cs ''foo'') \<noteq> cs m" "0 \<notin> set (cs ''foo'')" "newline \<notin> set (cs ''foo'')"
    "\<forall>k \<in> set [cs ''a'', cs ''b'']. key_ok k \<and> newline \<notin> set k" by code_simp+
  have "req_ok 1000 ?r1" "req_ok 1000 ?r2" "req_ok 1000 ?r3"
    using n(1-3) c sample_words(1) by (simp_all add: buf_unit_def) (simp add: cs_def)
  moreover have "req_live 1000 ?M ?r2" by code_simp
  moreover have "fst (serve1 1000 ?M ?r2) = ?M" by simp
  ultimately show ?thesis
    using n(4-6) assms unfolding sample_reqs_def
    by (simp only: servable.simps req_live.simps) simp
qed

lemma sample_served:
  assumes "100 \<le> n"
  shows "pending (\<lambda>_. True) 1000 1000 sample_reqs 3 (start_store n) [0..<20]"
proof -
  have i: "item_of (start_store n) = (\<lambda>_. None)" by (rule ext) (rule start_store_ok)
  have l: "length (st_vbuf (start_store n)) = n" by (simp add: start_store_def)
  have "servable 1000 n 1000 (\<lambda>_. None) sample_reqs"
    using assms sample_servable by simp
  moreover have "room (\<lambda>_. True) (st_tst (start_store n)) (sum_list (map req_nodes sample_reqs))"
    by (rule start_store_ok(4)) (simp add: sample_reqs_def cs_def)
  moreover have "reply_bufs 1000 (\<lambda>_. None) sample_reqs = 9" by code_simp
  ultimately show ?thesis
    using start_store_ok(5) [of n] by (simp add: pending_def i l sample_reqs_def cs_def)
qed


lemma sample_run:
  assumes "100 \<le> n"
  obtains p where "bp_new True 20 = ret p" and "store_inv (start_store n)"
    and "conn_inv (new_conn p) [0..<20] [] [] {}" and "framed (new_conn p) []" and "in_stream (new_conn p) [] = []"
    and "buf_unit < length (replicate 1000 (0 :: cchar))" and "1000002 \<le> length (replicate 1000002 (0 :: cchar))"
    and "concat sample_packets = concat (map wire sample_reqs)"
    and "\<forall>p \<in> set sample_packets. p \<noteq> [] \<and> length p \<le> buf_unit"
    and "pending (\<lambda>_. True) (length (replicate 1000 (0 :: cchar))) 1000 sample_reqs (length sample_packets)
      (start_store n) [0..<20]"
    and "item_of (start_store n) = (\<lambda>_. None)"
proof -
  obtain p where p: "bp_new True 20 = ret p" "pool_inv p [0..<20] {}"
    using bp_new_ok [of 20] by auto
  have h: "pending (\<lambda>_. True) (length (replicate 1000 (0 :: cchar))) 1000 sample_reqs (length sample_packets)
      (start_store n) [0..<20]"
    unfolding sample_packets_ok(2) length_replicate by (rule sample_served) (rule assms)
  have i: "item_of (start_store n) = (\<lambda>_. None)" by (rule ext) (rule start_store_ok)
  show thesis
    by (rule that [OF p(1) start_store_ok(1) new_conn_ok [OF p(2)] new_conn_framed _ _ _ sample_packets_ok(1,3) h i])
      (simp_all add: buf_unit_def)
qed

theorem requests_served_witness:
  "\<exists>p st' c' qi' qo' header' body'. bp_new True 20 = ret p \<and>
    handle_events (\<lambda>_. True) (start_store 100) (new_conn p) (replicate 1000 0) (replicate 1000002 0)
      (packets 1000 sample_packets) = ret (st', c', header', body') \<and>
    item_of st' (cs ''a'') = Some (5, 0, cs ''hi'') \<and> in_stream c' qi' = [] \<and> out_stream c' qo' = sample_replies"
proof (rule sample_run [OF order.refl])
  fix p assume p: "bp_new True 20 = ret p" and h: "store_inv (start_store 100)"
    "conn_inv (new_conn p) [0..<20] [] [] {}" "framed (new_conn p) []" "in_stream (new_conn p) [] = []"
    "buf_unit < length (replicate 1000 (0 :: cchar))" "1000002 \<le> length (replicate 1000002 (0 :: cchar))"
    "concat sample_packets = concat (map wire sample_reqs)"
    "\<forall>p \<in> set sample_packets. p \<noteq> [] \<and> length p \<le> buf_unit"
    "pending (\<lambda>_. True) (length (replicate 1000 (0 :: cchar))) 1000 sample_reqs (length sample_packets)
      (start_store 100) [0..<20]" and i: "item_of (start_store 100) = (\<lambda>_. None)"
  show ?thesis
    using requests_served [OF h] p sample_serve unfolding i by fastforce
qed



end
