(* ===== verification/Workers.thy ===== *)
theory Workers
  imports Wire
begin

text \<open>
  A worker of \<open>v2/src/tstserver.c\<close> with all its connections: one buffer pool, one row of
  \<open>g_io_table\<close>, and \<open>handle_core\<close>, which hands the events of \<open>epoll_wait\<close> to the handlers. The theory
  shows that the connections do not disturb each other: whatever way the packets of the clients
  interleave, the worker serves their requests one after the other, each when its last byte comes.
\<close>

section \<open>State and steps\<close>

text \<open>
  \<open>wk_poll\<close> is the worker's \<open>epoll\<close> set, \<open>wk_sent\<close> what \<open>send\<close> has taken on a socket since it was
  accepted; header and body buffer are the arrays on the stack of \<open>handle_core\<close>.
\<close>

record worker =
  wk_no :: nat
  wk_pool :: pool
  wk_io :: "nat \<Rightarrow> io_data"
  wk_poll :: "nat \<Rightarrow> polled"
  wk_sent :: "nat \<Rightarrow> cchar list"
  wk_header :: "cchar list"
  wk_body :: "cchar list"

definition max_epoll_fd :: nat where
  "max_epoll_fd = 40960"

definition buf_pool_size :: nat where
  "buf_pool_size = 20000"

definition max_body_size :: nat where
  "max_body_size = 2000000"

definition start_worker :: "nat \<Rightarrow> worker run" where
  "start_worker n =
     run_bind (bp_new True buf_pool_size) (\<lambda>p.
     ret \<lparr>wk_no = n, wk_pool = p, wk_io = (\<lambda>_. io_zero), wk_poll = (\<lambda>_. Closed), wk_sent = (\<lambda>_. []),
       wk_header = replicate max_body_size 0, wk_body = replicate max_body_size 0\<rparr>)"

definition conn_of :: "worker \<Rightarrow> nat \<Rightarrow> conn" where
  "conn_of w fd = \<lparr>cn_pool = wk_pool w, cn_io = wk_io w fd, cn_poll = wk_poll w fd\<rparr>"

definition put_conn :: "worker \<Rightarrow> nat \<Rightarrow> conn \<Rightarrow> worker" where
  "put_conn w fd c =
     w\<lparr>wk_pool := cn_pool c, wk_io := (wk_io w)(fd := cn_io c), wk_poll := (wk_poll w)(fd := cn_poll c)\<rparr>"

text \<open>
  What \<open>do_accept\<close> does for a worker with a new socket: its slot of the table, which has
  \<open>MAX_EPOLL_FD\<close> of them, and the \<open>epoll\<close> set.
\<close>

definition add_client :: "worker \<Rightarrow> nat \<Rightarrow> worker run" where
  "add_client w fd =
     (if fd < max_epoll_fd
      then ret ((put_conn w fd ((alloc_io_data (conn_of w fd) (int fd) (wk_no w))\<lparr>cn_poll := Poll_in\<rparr>))
             \<lparr>wk_sent := (wk_sent w)(fd := [])\<rparr>)
      else abort_with Undefined)"

text \<open>The bytes that \<open>send\<close> takes of those offered to it.\<close>

fun sent_bytes :: "event \<Rightarrow> conn \<Rightarrow> cchar list" where
  "sent_bytes (Writable accept) c =
     (case io_out_head (cn_io c) of
        None \<Rightarrow> []
      | Some q \<Rightarrow> (let d = content (bp_base (cn_pool c) ! q) in take (nat (accept d)) d))"
| "sent_bytes _ c = []"

definition worker_event ::
  "(u64 \<Rightarrow> bool) \<Rightarrow> int \<Rightarrow> store \<Rightarrow> worker \<Rightarrow> nat \<Rightarrow> event \<Rightarrow> (store \<times> worker) run"
where
  "worker_event rl now st w fd e =
     run_bind (handle_event rl now st (conn_of w fd) (wk_header w) (wk_body w) e) (\<lambda>(st, c, header, body).
     ret (st, (put_conn w fd c)\<lparr>wk_header := header, wk_body := body,
       wk_sent := (wk_sent w)(fd := wk_sent w fd @ sent_bytes e (conn_of w fd))\<rparr>))"

fun worker_events ::
  "(u64 \<Rightarrow> bool) \<Rightarrow> store \<Rightarrow> worker \<Rightarrow> (int \<times> nat \<times> event) list \<Rightarrow> (store \<times> worker) run"
where
  "worker_events rl st w [] = ret (st, w)"
| "worker_events rl st w ((now, fd, e) # es) =
     run_bind (worker_event rl now st w fd e) (\<lambda>(st, w). worker_events rl st w es)"

text \<open>
  The loop of \<open>handle_core\<close>. Each round is what \<open>epoll_wait\<close> reports, nothing when it times out or
  fails, and whether \<open>g_shutdown_flag\<close> is set by then. The result tells whether the thread has ended;
  when it has not, it is in the next \<open>epoll_wait\<close>.
\<close>

fun handle_core ::
  "(u64 \<Rightarrow> bool) \<Rightarrow> store \<Rightarrow> worker \<Rightarrow> (bool \<times> (int \<times> nat \<times> event) list) list \<Rightarrow> (store \<times> worker \<times> bool) run"
where
  "handle_core rl st w [] = ret (st, w, False)"
| "handle_core rl st w ((shutdown, es) # rounds) =
     (if es = [] \<and> shutdown then ret (st, w, True)
      else run_bind (worker_events rl st w es) (\<lambda>(st, w). handle_core rl st w rounds))"

section \<open>The pool is shared out\<close>

text \<open>
  The buffers of the pool are the free list and the queues of the connections \<open>C\<close>, without
  overlap. \<open>qi\<close> and \<open>qo\<close> give the queues by descriptor.
\<close>

definition owns :: "(nat \<Rightarrow> nat list) \<Rightarrow> (nat \<Rightarrow> nat list) \<Rightarrow> nat \<Rightarrow> nat set" where
  "owns qi qo fd = set (qi fd) \<union> set (qo fd)"

definition others :: "(nat \<Rightarrow> nat list) \<Rightarrow> (nat \<Rightarrow> nat list) \<Rightarrow> nat set \<Rightarrow> nat \<Rightarrow> nat set" where
  "others qi qo C fd = (\<Union>k \<in> C - {fd}. owns qi qo k)"

definition queues_ok :: "buffer list \<Rightarrow> io_data \<Rightarrow> nat list \<Rightarrow> nat list \<Rightarrow> bool" where
  "queues_ok bs io i u \<longleftrightarrow>
     distinct i \<and> distinct u \<and> set i \<inter> set u = {} \<and>
     queue bs (io_in_head io) (io_in_tail io) i \<and> queue bs (io_out_head io) (io_out_tail io) u"

definition worker_inv ::
  "worker \<Rightarrow> nat set \<Rightarrow> nat list \<Rightarrow> (nat \<Rightarrow> nat list) \<Rightarrow> (nat \<Rightarrow> nat list) \<Rightarrow> bool"
where
  "worker_inv w C fl qi qo \<longleftrightarrow>
     pool_inv (wk_pool w) fl (\<Union>fd \<in> C. owns qi qo fd) \<and>
     (\<forall>fd \<in> C. queues_ok (bp_base (wk_pool w)) (wk_io w fd) (qi fd) (qo fd)) \<and>
     (\<forall>j \<in> C. \<forall>k \<in> C. j \<noteq> k \<longrightarrow> owns qi qo j \<inter> owns qi qo k = {})"

lemma owns_others: "fd \<in> C \<Longrightarrow> (\<Union>k \<in> C. owns qi qo k) = owns qi qo fd \<union> others qi qo C fd"
  by (auto simp: others_def)

lemma others_upd [simp]: "others (qi(fd := i)) (qo(fd := u)) C fd = others qi qo C fd"
  by (auto simp: others_def owns_def)

lemma conn_of_simps [simp]:
  "cn_pool (conn_of w fd) = wk_pool w" "cn_io (conn_of w fd) = wk_io w fd" "cn_poll (conn_of w fd) = wk_poll w fd"
  by (simp_all add: conn_of_def)

lemma put_conn_simps [simp]:
  "wk_pool (put_conn w fd c) = cn_pool c" "wk_io (put_conn w fd c) = (wk_io w)(fd := cn_io c)"
  "wk_poll (put_conn w fd c) = (wk_poll w)(fd := cn_poll c)" "wk_sent (put_conn w fd c) = wk_sent w"
  "wk_header (put_conn w fd c) = wk_header w" "wk_body (put_conn w fd c) = wk_body w"
  "wk_no (put_conn w fd c) = wk_no w"
  by (simp_all add: put_conn_def)

text \<open>A connection of a worker is one whose foreign buffers are those of the other connections.\<close>

lemma worker_conn:
  assumes "worker_inv w C fl qi qo" and "fd \<in> C"
  shows "conn_inv (conn_of w fd) fl (qi fd) (qo fd) (others qi qo C fd)"
proof -
  have "owns qi qo fd \<inter> others qi qo C fd = {}"
    using assms unfolding worker_inv_def others_def by blast
  moreover have "pool_inv (wk_pool w) fl (owns qi qo fd \<union> others qi qo C fd)"
    using assms owns_others [of fd C qi qo] by (simp add: worker_inv_def)
  ultimately show ?thesis
    using assms by (auto simp: worker_inv_def queues_ok_def conn_inv_def owns_def)
qed

lemma queue_agree:
  assumes "\<forall>x \<in> set xs. bs' ! x = bs ! x" and "length bs' = length bs"
  shows "queue bs' h t xs = queue bs h t xs"
  using chain_agree [OF assms] assms(1) by (auto simp: queue_def)

text \<open>What a handler does to one connection leaves the worker's invariant and the others' queues.\<close>

lemma worker_put:
  assumes w: "worker_inv w C fl qi qo" and fd: "fd \<in> C"
    and c: "conn_inv c fl' i u (others qi qo C fd)" and t: "untouched (others qi qo C fd) (conn_of w fd) c"
    and w': "wk_pool w' = cn_pool c" "wk_io w' = (wk_io w)(fd := cn_io c)"
  shows "worker_inv w' C fl' (qi(fd := i)) (qo(fd := u))"
    and "k \<in> C \<Longrightarrow> k \<noteq> fd \<Longrightarrow> stream (bp_base (wk_pool w')) (qi k) = stream (bp_base (wk_pool w)) (qi k)"
    and "k \<in> C \<Longrightarrow> k \<noteq> fd \<Longrightarrow> stream (bp_base (wk_pool w')) (qo k) = stream (bp_base (wk_pool w)) (qo k)"
proof -
  note W = w [unfolded worker_inv_def] and I = conn_invD [OF c]
  let ?qi = "qi(fd := i)" and ?qo = "qo(fd := u)"
  have same: "\<forall>x \<in> owns qi qo k. bp_base (cn_pool c) ! x = bp_base (wk_pool w) ! x" if "k \<in> C" "k \<noteq> fd" for k
    using t that by (auto simp: untouched_def others_def)
  have len: "length (bp_base (cn_pool c)) = length (bp_base (wk_pool w))"
    using t by (simp add: untouched_def)
  have o: "owns ?qi ?qo fd = set i \<union> set u" "k \<noteq> fd \<Longrightarrow> owns ?qi ?qo k = owns qi qo k" for k
    by (simp_all add: owns_def)
  have "(\<Union>k \<in> C. owns ?qi ?qo k) = set i \<union> set u \<union> others qi qo C fd"
    using owns_others [OF fd, of ?qi ?qo] o(1) by simp
  then have "pool_inv (wk_pool w') fl' (\<Union>k \<in> C. owns ?qi ?qo k)"
    using I(1) w'(1) by simp
  moreover have "queues_ok (bp_base (wk_pool w')) (wk_io w' k) (?qi k) (?qo k)" if "k \<in> C" for k
  proof (cases "k = fd")
    case True
    then show ?thesis using I w' by (simp add: queues_ok_def)
  next
    case False
    have "\<forall>x \<in> set (qi k). bp_base (cn_pool c) ! x = bp_base (wk_pool w) ! x"
      "\<forall>x \<in> set (qo k). bp_base (cn_pool c) ! x = bp_base (wk_pool w) ! x"
      using same [OF that False] by (auto simp: owns_def)
    then show ?thesis
      using W that False w' queue_agree [OF _ len] by (simp add: queues_ok_def)
  qed
  moreover have "owns ?qi ?qo j \<inter> owns ?qi ?qo k = {}" if "j \<in> C" "k \<in> C" "j \<noteq> k" for j k
  proof -
    have d: "(set i \<union> set u) \<inter> owns qi qo m = {}" if "m \<in> C" "m \<noteq> fd" for m
      using I(7,8) that unfolding others_def by blast
    show ?thesis
      using W that d [of j] d [of k] o by (cases "j = fd"; cases "k = fd") auto
  qed
  ultimately show "worker_inv w' C fl' ?qi ?qo" by (simp add: worker_inv_def)
  show "stream (bp_base (wk_pool w')) (qi k) = stream (bp_base (wk_pool w)) (qi k)"
    "stream (bp_base (wk_pool w')) (qo k) = stream (bp_base (wk_pool w)) (qo k)" if "k \<in> C" "k \<noteq> fd"
    using same [OF that] w'(1) by (auto intro!: stream_agree simp: owns_def)
qed

text \<open>
  A worker between two events: \<open>s\<close> is what each client has sent of requests that are not complete.
\<close>

definition attending ::
  "nat \<Rightarrow> store \<Rightarrow> worker \<Rightarrow> nat set \<Rightarrow> nat list \<Rightarrow> (nat \<Rightarrow> nat list) \<Rightarrow> (nat \<Rightarrow> nat list) \<Rightarrow> (nat \<Rightarrow> cchar list) \<Rightarrow> bool"
where
  "attending hb st w C fl qi qo s \<longleftrightarrow>
     store_inv st \<and> worker_inv w C fl qi qo \<and>
     (\<forall>fd \<in> C. framed (conn_of w fd) (qi fd) \<and> in_stream (conn_of w fd) (qi fd) = s fd) \<and>
     length (wk_header w) = hb \<and> buf_unit < hb \<and> 1000002 \<le> length (wk_body w)"

lemma attending_worker_ok:
  assumes "attending hb st w C fl qi qo s" and "fd \<in> C"
  shows "worker_ok hb st (conn_of w fd) fl (qi fd) (qo fd) (others qi qo C fd) (s fd) (wk_header w) (wk_body w)"
  using assms worker_conn [OF _ assms(2)] by (simp add: attending_def worker_ok_def)

lemma framed_agree:
  assumes "cn_io c' = cn_io c" and "in_stream c' qi = in_stream c qi"
  shows "framed c' qi = framed c qi"
  using assms by (simp add: framed_def)

lemma attending_put:
  assumes s: "attending hb st w C fl qi qo s" and fd: "fd \<in> C"
    and c: "worker_ok hb st' c fl' i u (others qi qo C fd) t header body"
    and t: "untouched (others qi qo C fd) (conn_of w fd) c"
    and w': "wk_pool w' = cn_pool c" "wk_io w' = (wk_io w)(fd := cn_io c)" "wk_header w' = header" "wk_body w' = body"
  shows "attending hb st' w' C fl' (qi(fd := i)) (qo(fd := u)) (s(fd := t))"
    and "out_stream (conn_of w' fd) u = out_stream c u"
    and "k \<in> C \<Longrightarrow> k \<noteq> fd \<Longrightarrow> out_stream (conn_of w' k) (qo k) = out_stream (conn_of w k) (qo k)"
proof -
  note S = s [unfolded attending_def] and W = c [unfolded worker_ok_def]
  have inv: "worker_inv w C fl qi qo" "conn_inv c fl' i u (others qi qo C fd)" using S W by simp_all
  note P = worker_put [OF inv(1) fd inv(2) t w'(1,2)]
  have "framed (conn_of w' k) ((qi(fd := i)) k) \<and> in_stream (conn_of w' k) ((qi(fd := i)) k) = (s(fd := t)) k"
    if k: "k \<in> C" for k
  proof (cases "k = fd")
    case True
    have "framed (conn_of w' fd) i = framed c i" by (rule framed_agree) (use w' in simp_all)
    then show ?thesis using W True w' by simp
  next
    case False
    have "framed (conn_of w' k) (qi k) = framed (conn_of w k) (qi k)"
      by (rule framed_agree) (use P(2) [OF k False] w' False in simp_all)
    then show ?thesis using S P(2) [OF k False] k False by simp
  qed
  then show "attending hb st' w' C fl' (qi(fd := i)) (qo(fd := u)) (s(fd := t))"
    using P(1) W w' by (simp add: attending_def)
  show "out_stream (conn_of w' fd) u = out_stream c u" using w' by simp
  show "out_stream (conn_of w' k) (qo k) = out_stream (conn_of w k) (qo k)" if "k \<in> C" "k \<noteq> fd"
    using P(3) [OF that] by simp
qed

section \<open>Accepting a client\<close>

lemma add_client_ok:
  assumes "attending hb st w C fl qi qo s" and "fd \<notin> C" and "io_in_len (wk_io w fd) = 0" and "fd < max_epoll_fd"
  shows "\<exists>w'. add_client w fd = ret w' \<and> attending hb st w' (insert fd C) fl (qi(fd := [])) (qo(fd := [])) (s(fd := [])) \<and>
    wk_sent w' = (wk_sent w)(fd := []) \<and> wk_io w' = (wk_io w)(fd := wk_io w' fd)"
proof -
  let ?c = "(alloc_io_data (conn_of w fd) (int fd) (wk_no w))\<lparr>cn_poll := Poll_in\<rparr>"
  let ?w = "(put_conn w fd ?c)\<lparr>wk_sent := (wk_sent w)(fd := [])\<rparr>"
  let ?qi = "qi(fd := [])" and ?qo = "qo(fd := [])"
  note S = assms(1) [unfolded attending_def worker_inv_def]
  have c: "cn_pool ?c = wk_pool w" "queues_ok bs (cn_io ?c) [] []" "framed ?c []" for bs
    using assms(3) by (simp_all add: alloc_io_data_def upd_io_def queues_ok_def queue_empty framed_def)
  have o: "owns ?qi ?qo k = (if k = fd then {} else owns qi qo k)" for k by (simp add: owns_def)
  have u: "(\<Union>k \<in> insert fd C. owns ?qi ?qo k) = (\<Union>k \<in> C. owns qi qo k)" using assms(2) o by auto
  have "pool_inv (wk_pool ?w) fl (\<Union>k \<in> insert fd C. owns ?qi ?qo k)" using S u c(1) by simp
  moreover have "\<forall>k \<in> insert fd C. queues_ok (bp_base (wk_pool ?w)) (wk_io ?w k) (?qi k) (?qo k)"
    using S assms(2) c(1,2) by auto
  moreover have "\<forall>j \<in> insert fd C. \<forall>k \<in> insert fd C. j \<noteq> k \<longrightarrow> owns ?qi ?qo j \<inter> owns ?qi ?qo k = {}"
    using S o by auto
  moreover have "framed (conn_of ?w k) (?qi k) \<and> in_stream (conn_of ?w k) (?qi k) = (s(fd := [])) k" if "k \<in> insert fd C" for k
  proof (cases "k = fd")
    case True
    have "framed (conn_of ?w fd) [] = framed ?c []" by (rule framed_agree) simp_all
    then show ?thesis using True c(3) by simp
  next
    case False
    have "framed (conn_of ?w k) (qi k) = framed (conn_of w k) (qi k)"
      by (rule framed_agree) (use False c(1) in simp_all)
    then show ?thesis using S that False c(1) by auto
  qed
  ultimately have "attending hb st ?w (insert fd C) fl ?qi ?qo (s(fd := []))"
    using S by (simp add: attending_def worker_inv_def)
  then show ?thesis using assms(4) by (intro exI [of _ ?w]) (simp add: add_client_def)
qed

lemma body_size_bounds: "buf_unit < max_body_size" "1000002 \<le> max_body_size"
  by (simp_all add: max_body_size_def buf_unit_def)

lemma start_worker_ok:
  assumes "store_inv st"
  obtains w where "start_worker n = ret w" and "attending max_body_size st w {} [0..<buf_pool_size] (\<lambda>_. []) (\<lambda>_. []) (\<lambda>_. [])"
    and "wk_io w = (\<lambda>_. io_zero)" and "wk_sent w = (\<lambda>_. [])"
proof -
  obtain p where p: "bp_new True buf_pool_size = ret p" "pool_inv p [0..<buf_pool_size] {}"
    using bp_new_ok [of buf_pool_size] by (auto simp: buf_pool_size_def)
  show thesis
    by (rule that [of "\<lparr>wk_no = n, wk_pool = p, wk_io = (\<lambda>_. io_zero), wk_poll = (\<lambda>_. Closed), wk_sent = (\<lambda>_. []),
       wk_header = replicate max_body_size 0, wk_body = replicate max_body_size 0\<rparr>"]) (use assms p body_size_bounds in \<open>simp_all add: start_worker_def attending_def worker_inv_def\<close>)
qed

section \<open>The order of service\<close>

text \<open>
  What the network does on a connection: it delivers bytes of the client, or takes bytes for it.
\<close>

datatype net = Arrives "cchar list" | Accepts "cchar list \<Rightarrow> int"

fun net_event :: "net \<Rightarrow> event" where
  "net_event (Arrives p) = Readable False (Some p)"
| "net_event (Accepts f) = Writable f"

definition net_events :: "int \<Rightarrow> (nat \<times> net) list \<Rightarrow> (int \<times> nat \<times> event) list" where
  "net_events now es = map (\<lambda>(fd, e). (now, fd, net_event e)) es"

text \<open>\<open>recv\<close> gives from 1 to 512 bytes, \<open>send\<close> does not fail.\<close>

fun net_ok :: "net \<Rightarrow> bool" where
  "net_ok (Arrives p) \<longleftrightarrow> p \<noteq> [] \<and> length p \<le> buf_unit"
| "net_ok (Accepts f) \<longleftrightarrow> (\<forall>bs. 0 \<le> f bs \<and> f bs \<le> int (length bs))"

text \<open>The bytes of a client, and the order in which the requests \<open>R\<close> of the clients are complete.\<close>

fun from_client :: "nat \<Rightarrow> (nat \<times> net) list \<Rightarrow> cchar list" where
  "from_client fd [] = []"
| "from_client fd ((k, Arrives p) # es) = (if k = fd then p @ from_client fd es else from_client fd es)"
| "from_client fd ((k, Accepts f) # es) = from_client fd es"

fun served_order ::
  "(nat \<Rightarrow> cchar list) \<Rightarrow> (nat \<Rightarrow> req list) \<Rightarrow> (nat \<times> net) list \<Rightarrow> (nat \<times> req) list"
where
  "served_order s R [] = []"
| "served_order s R ((fd, Arrives p) # es) =
     (case split_reqs (R fd) (s fd @ p) of (full, rest, t) \<Rightarrow>
        map (Pair fd) full @ served_order (s(fd := t)) (R(fd := rest)) es)"
| "served_order s R ((fd, Accepts f) # es) = served_order s R es"

text \<open>What a client gets when requests are served in an order: the answers to its owns.\<close>

fun replies_to :: "nat \<Rightarrow> int \<Rightarrow> items \<Rightarrow> (nat \<times> req) list \<Rightarrow> cstr" where
  "replies_to fd now M [] = []"
| "replies_to fd now M ((k, r) # rs) =
     (if k = fd then snd (serve1 now M r) else []) @ replies_to fd now (fst (serve1 now M r)) rs"

lemma replies_to_batch:
  "replies_to fd now M (map (Pair k) rs @ os) =
     (if k = fd then snd (serve now M rs) else []) @ replies_to fd now (fst (serve now M rs)) os"
  by (induction rs arbitrary: M) simp_all

text \<open>What each client still has to send completes its requests.\<close>

definition sends_all :: "nat set \<Rightarrow> (nat \<Rightarrow> cchar list) \<Rightarrow> (nat \<Rightarrow> req list) \<Rightarrow> (nat \<times> net) list \<Rightarrow> bool" where
  "sends_all C s R es \<longleftrightarrow>
     (\<forall>fd \<in> C. s fd @ from_client fd es = concat (map wire (R fd)) \<and>
       (R fd \<noteq> [] \<longrightarrow> length (s fd) < length (wire (hd (R fd)))))"

lemma sends_allD:
  assumes "sends_all C s R es" and "fd \<in> C"
  shows "s fd @ from_client fd es = concat (map wire (R fd))"
    and "R fd \<noteq> [] \<Longrightarrow> length (s fd) < length (wire (hd (R fd)))"
  using bspec [OF assms(1) [unfolded sends_all_def] assms(2)] by simp_all

lemma sends_all_step:
  assumes "sends_all C s R ((fd, Arrives p) # es)" and "fd \<in> C" and "split_reqs (R fd) (s fd @ p) = (full, rest, t)"
  shows "sends_all C (s(fd := t)) (R(fd := rest)) es" and "R fd = full @ rest"
    and "s fd @ p = concat (map wire full) @ t" and "\<forall>r \<in> set rest. req_ok n r \<Longrightarrow> partial_req n t"
proof -
  have e: "(s fd @ p) @ from_client fd es = concat (map wire (R fd))"
    using sends_allD(1) [OF assms(1,2)] by simp
  note S = split_reqs_ok [OF assms(3) e] split_reqs_rest [OF assms(3)]
  show "sends_all C (s(fd := t)) (R(fd := rest)) es"
    using assms(1) S by (auto simp: sends_all_def)
  show "R fd = full @ rest" "s fd @ p = concat (map wire full) @ t" using S by simp_all
  show "\<forall>r \<in> set rest. req_ok n r \<Longrightarrow> partial_req n t" using S by blast
qed

text \<open>Every client's requests are served in the order it sent them.\<close>

lemma served_order_of:
  assumes "sends_all C s R es" and "fst ` set es \<subseteq> C" and "fd \<in> C"
  shows "map snd (filter (\<lambda>x. fst x = fd) (served_order s R es)) = R fd"
  using assms
proof (induction s R es rule: served_order.induct)
  case (1 s R)
  have "R fd = []"
  proof (rule ccontr)
    assume "R fd \<noteq> []"
    then obtain r rs where r: "R fd = r # rs" by (cases "R fd") auto
    then have "length (s fd) = length (wire r) + length (concat (map wire rs))"
      using sends_allD(1) [OF 1(1,3)] by simp
    then show False using sends_allD(2) [OF 1(1,3)] r by simp
  qed
  then show ?case by simp
next
  case (2 s R k p es)
  obtain full rest t where sp: "split_reqs (R k) (s k @ p) = (full, rest, t)" by (cases "split_reqs (R k) (s k @ p)")
  have k: "k \<in> C" "fst ` set es \<subseteq> C" using 2(3) by auto
  note S = sends_all_step [OF 2(2) k(1) sp]
  have e: "map snd (filter (\<lambda>x. fst x = fd) (map (Pair k) full)) = (if k = fd then full else [])"
    by (induction full) auto
  have "map snd (filter (\<lambda>x. fst x = fd) (served_order (s(k := t)) (R(k := rest)) es)) = (R(k := rest)) fd"
    by (rule 2(1) [OF sp [symmetric] refl S(1) k(2) 2(4)])
  then show ?case using S(2) e sp by simp
next
  case (3 s R k f es)
  then show ?case by (simp add: sends_all_def)
qed

lemma served_order_mem:
  assumes "sends_all C s R es" and "fst ` set es \<subseteq> C" and "fd \<in> C"
  shows "set (R fd) \<subseteq> set (map snd (served_order s R es))"
  using served_order_of [OF assms] by (metis filter_is_subset image_mono list.set_map)

section \<open>One event\<close>

text \<open>All the bytes the worker has made for a client: those that \<open>send\<close> has taken and those that wait.\<close>

definition output_to :: "worker \<Rightarrow> (nat \<Rightarrow> nat list) \<Rightarrow> nat \<Rightarrow> cchar list" where
  "output_to w qo fd = wk_sent w fd @ out_stream (conn_of w fd) (qo fd)"

text \<open>What an event leads to when it completes the requests \<open>rs\<close> of \<open>fd\<close>.\<close>

definition event_serves ::
  "(u64 \<Rightarrow> bool) \<Rightarrow> nat \<Rightarrow> int \<Rightarrow> nat set \<Rightarrow> nat \<Rightarrow> req list \<Rightarrow> req list \<Rightarrow> nat \<Rightarrow> (nat \<Rightarrow> cchar list) \<Rightarrow>
   store \<Rightarrow> worker \<Rightarrow> (nat \<Rightarrow> nat list) \<Rightarrow> store \<Rightarrow> worker \<Rightarrow> bool"
where
  "event_serves rl hb now C fd rs os m s st w qo st' w' \<longleftrightarrow>
     (\<exists>fl' qi' qo'. attending hb st' w' C fl' qi' qo' s \<and> pending rl hb now os m st' fl' \<and>
       item_of st' = fst (serve now (item_of st) rs) \<and>
       (\<forall>k \<in> C. output_to w' qo' k = output_to w qo k @ (if k = fd then snd (serve now (item_of st) rs) else [])))"

lemma packet_step:
  assumes s: "attending hb st w C fl qi qo s" and fd: "fd \<in> C"
    and sp: "s fd @ p = concat (map wire rs) @ t" "partial_req hb t"
    and p: "pending rl hb now (rs @ os) (Suc m) st fl" and ok: "net_ok (Arrives p)"
  shows "\<exists>st' w'. worker_event rl now st w fd (net_event (Arrives p)) = ret (st', w') \<and>
    event_serves rl hb now C fd rs os m (s(fd := t)) st w qo st' w'"
proof -
  obtain st' c' header' body' where
    e: "handle_event rl now st (conn_of w fd) (wk_header w) (wk_body w) (Readable False (Some p)) = ret (st', c', header', body')"
    and v: "served_reqs rl hb now rs os m (others qi qo C fd) st (conn_of w fd) (qo fd) t st' c' header' body'"
    using packet_event [OF attending_worker_ok [OF s fd] sp(1) p _ _ sp(2), of False] ok
    by (auto simp del: handle_event.simps)
  obtain fl' i u where q: "worker_ok hb st' c' fl' i u (others qi qo C fd) t header' body'" "pending rl hb now os m st' fl'"
    "item_of st' = fst (serve now (item_of st) rs)" "untouched (others qi qo C fd) (conn_of w fd) c'"
    "out_stream c' u = out_stream (conn_of w fd) (qo fd) @ snd (serve now (item_of st) rs)"
    using v unfolding served_reqs_def by blast
  let ?w = "(put_conn w fd c')\<lparr>wk_header := header', wk_body := body', wk_sent := (wk_sent w)(fd := wk_sent w fd @ [])\<rparr>"
  have w': "wk_pool ?w = cn_pool c'" "wk_io ?w = (wk_io w)(fd := cn_io c')" "wk_header ?w = header'" "wk_body ?w = body'"
    by simp_all
  note P = attending_put [OF s fd q(1,4) w']
  have "output_to ?w (qo(fd := u)) k = output_to w qo k @ (if k = fd then snd (serve now (item_of st) rs) else [])"
    if "k \<in> C" for k
    using P(2) P(3) [OF that] q(5) by (cases "k = fd") (simp_all add: output_to_def)
  then have "event_serves rl hb now C fd rs os m (s(fd := t)) st w qo st' ?w"
    unfolding event_serves_def using P(1) q(2,3) by blast
  moreover have "worker_event rl now st w fd (net_event (Arrives p)) = ret (st', ?w)"
    using e by (simp add: worker_event_def)
  ultimately show ?thesis by blast
qed

lemma pending_mono:
  "pending rl hb now rs m st fl \<Longrightarrow> m' \<le> m \<Longrightarrow> length fl \<le> length fl' \<Longrightarrow> pending rl hb now rs m' st fl'"
  by (simp add: pending_def)

lemma send_step:
  assumes s: "attending hb st w C fl qi qo s" and fd: "fd \<in> C" and ok: "net_ok (Accepts f)"
    and p: "pending rl hb now os (Suc m) st fl"
  shows "\<exists>w'. worker_event rl now st w fd (net_event (Accepts f)) = ret (st, w') \<and>
    event_serves rl hb now C fd [] os m s st w qo st w'"
proof -
  let ?c = "conn_of w fd"
  let ?A = "others qi qo C fd"
  note W = attending_worker_ok [OF s fd, unfolded worker_ok_def]
  have inv: "conn_inv ?c fl (qi fd) (qo fd) ?A" using W by simp
  have fl: "fl \<noteq> []" using p by (auto simp: pending_def)
  obtain c' b fl' u where c': "handle_output f ?c = ret (c', b)" "conn_inv c' fl' (qi fd) u ?A" "length fl \<le> length fl'"
    "in_stream c' (qi fd) = in_stream ?c (qi fd)" "untouched ?A ?c c'" "only_out ?c c'"
    "sent_bytes (Writable f) ?c @ out_stream c' u = out_stream ?c (qo fd)"
  proof (cases "qo fd")
    case Nil
    then have h: "io_out_head (cn_io ?c) = None" using queue_head [OF conn_invD(3) [OF inv]] by simp
    then have "handle_output f ?c = ret (?c, False)" by (simp add: handle_output_def)
    then show thesis by (rule that [of _ _ fl "qo fd"]) (use inv h in simp_all)
  next
    case (Cons x qs)
    let ?d = "content (bp_base (cn_pool ?c) ! x)"
    have h: "io_out_head (cn_io ?c) = Some x" using queue_head [OF conn_invD(3) [OF inv]] Cons by simp
    have f: "0 \<le> f ?d" "f ?d \<le> int (length ?d)" using ok by simp_all
    obtain c' fl' u where r: "handle_output f ?c = ret (c', u = [])" "conn_inv c' fl' (qi fd) u ?A" "length fl \<le> length fl'"
      "in_stream c' (qi fd) = in_stream ?c (qi fd)" "untouched ?A ?c c'" "only_out ?c c'"
      "out_stream c' u = drop (nat (f ?d)) (out_stream ?c (x # qs))"
      using handle_output_ok [of ?c fl "qi fd" x qs ?A f] inv fl f unfolding Cons by blast
    have "take (nat (f ?d)) ?d @ out_stream c' u = out_stream ?c (x # qs)"
      using r(7) f by simp
    then show thesis using that [OF r(1-6)] h Cons by (simp add: Let_def)
  qed
  let ?c' = "if b then watch Poll_in c' else c'"
  let ?w = "(put_conn w fd ?c')\<lparr>wk_header := wk_header w, wk_body := wk_body w,
    wk_sent := (wk_sent w)(fd := wk_sent w fd @ sent_bytes (Writable f) ?c)\<rparr>"
  have cc: "cn_pool ?c' = cn_pool c'" "cn_io ?c' = cn_io c'" by simp_all
  have "framed c' (qi fd) = framed ?c (qi fd)"
    using only_outD [OF c'(6)] unfolding framed_def c'(4) Let_def by simp
  then have ok': "worker_ok hb st c' fl' (qi fd) u ?A (s fd) (wk_header w) (wk_body w)"
    using W c'(2,4) by (simp add: worker_ok_def)
  have w': "wk_pool ?w = cn_pool c'" "wk_io ?w = (wk_io w)(fd := cn_io c')" "wk_header ?w = wk_header w" "wk_body ?w = wk_body w"
    using cc by simp_all
  note P = attending_put [OF s fd ok' c'(5) w', unfolded fun_upd_triv]
  have "output_to ?w (qo(fd := u)) k = output_to w qo k" if "k \<in> C" for k
    using P(2) P(3) [OF that] c'(7) by (cases "k = fd") (simp_all add: output_to_def)
  then have "event_serves rl hb now C fd [] os m s st w qo st ?w"
    unfolding event_serves_def using P(1) pending_mono [OF p _ c'(3), of m] by fastforce
  moreover have "worker_event rl now st w fd (net_event (Accepts f)) = ret (st, ?w)"
    using c'(1) by (simp add: worker_event_def)
  ultimately show ?thesis by blast
qed

section \<open>Many events\<close>

lemma worker_serves:
  assumes "attending hb st w C fl qi qo s" and "sends_all C s R es" and "fst ` set es \<subseteq> C"
    and "\<forall>e \<in> snd ` set es. net_ok e"
    and "pending rl hb now (map snd (served_order s R es)) (length es) st fl"
  shows "\<exists>st' w' fl' qi' qo'. worker_events rl st w (net_events now es) = ret (st', w') \<and>
    attending hb st' w' C fl' qi' qo' (\<lambda>fd. if fd \<in> C then [] else s fd) \<and>
    item_of st' = fst (serve now (item_of st) (map snd (served_order s R es))) \<and>
    (\<forall>fd \<in> C. output_to w' qo' fd = output_to w qo fd @ replies_to fd now (item_of st) (served_order s R es))"
  using assms
proof (induction s R es arbitrary: st w fl qi qo rule: served_order.induct)
  case (1 s R)
  have "s fd = []" if "fd \<in> C" for fd
    using sends_allD(1) [OF 1(2) that] sends_allD(2) [OF 1(2) that] by (cases "R fd") auto
  then have "attending hb st w C fl qi qo (\<lambda>fd. if fd \<in> C then [] else s fd)"
    using 1(1) by (simp add: attending_def)
  then show ?case by (auto simp: net_events_def)
next
  case (2 s R fd p es)
  obtain full rest t where sp: "split_reqs (R fd) (s fd @ p) = (full, rest, t)" by (cases "split_reqs (R fd) (s fd @ p)")
  let ?s = "s(fd := t)" and ?R = "R(fd := rest)"
  let ?os = "served_order ?s ?R es"
  have fd: "fd \<in> C" "fst ` set es \<subseteq> C" "net_ok (Arrives p)" "\<forall>e \<in> snd ` set es. net_ok e" using 2(4,5) by auto
  note S = sends_all_step [OF 2(3) fd(1) sp]
  have o: "served_order s R ((fd, Arrives p) # es) = map (Pair fd) full @ ?os" using sp by simp
  have p: "pending rl hb now (full @ map snd ?os) (Suc (length es)) st fl"
    using 2(6) unfolding o by (simp add: comp_def)
  have "\<forall>r \<in> set rest. req_ok hb r"
    using served_order_mem [OF S(1) fd(2) fd(1)] p servable_ok [of hb] by (fastforce simp: pending_def)
  from S(4) [OF this] obtain st1 w1 where
    e: "worker_event rl now st w fd (net_event (Arrives p)) = ret (st1, w1)"
    and v: "event_serves rl hb now C fd full (map snd ?os) (length es) ?s st w qo st1 w1"
    using packet_step [OF 2(2) fd(1) S(3) _ p fd(3)] by blast
  obtain fl1 qi1 qo1 where q: "attending hb st1 w1 C fl1 qi1 qo1 ?s" "pending rl hb now (map snd ?os) (length es) st1 fl1"
    "item_of st1 = fst (serve now (item_of st) full)"
    "\<forall>k \<in> C. output_to w1 qo1 k = output_to w qo k @ (if k = fd then snd (serve now (item_of st) full) else [])"
    using v unfolding event_serves_def by blast
  obtain st' w' fl' qi' qo' where r: "worker_events rl st1 w1 (net_events now es) = ret (st', w')"
    "attending hb st' w' C fl' qi' qo' (\<lambda>k. if k \<in> C then [] else ?s k)"
    "item_of st' = fst (serve now (item_of st1) (map snd ?os))"
    "\<forall>k \<in> C. output_to w' qo' k = output_to w1 qo1 k @ replies_to k now (item_of st1) ?os"
    using 2(1) [OF sp [symmetric] refl q(1) S(1) fd(2,4) q(2)] by blast
  have "worker_events rl st w (net_events now ((fd, Arrives p) # es)) = ret (st', w')"
    using e r(1) by (simp add: net_events_def)
  moreover have "(\<lambda>k. if k \<in> C then [] else ?s k) = (\<lambda>k. if k \<in> C then [] else s k)" using fd(1) by auto
  moreover have "item_of st' = fst (serve now (item_of st) (map snd (map (Pair fd) full @ ?os)))"
    using r(3) q(3) by (simp add: serve_append comp_def)
  moreover have "\<forall>k \<in> C. output_to w' qo' k = output_to w qo k @ replies_to k now (item_of st) (map (Pair fd) full @ ?os)"
    using r(4) q(3,4) by (simp add: replies_to_batch)
  ultimately show ?case using r(2) unfolding o by auto
next
  case (3 s R fd f es)
  have fd: "fd \<in> C" "fst ` set es \<subseteq> C" "net_ok (Accepts f)" "\<forall>e \<in> snd ` set es. net_ok e" "sends_all C s R es"
    using 3(3,4,5) by (auto simp: sends_all_def)
  have p: "pending rl hb now (map snd (served_order s R es)) (Suc (length es)) st fl" using 3(6) by simp
  obtain w1 where e: "worker_event rl now st w fd (net_event (Accepts f)) = ret (st, w1)"
    and v: "event_serves rl hb now C fd [] (map snd (served_order s R es)) (length es) s st w qo st w1"
    using send_step [OF 3(2) fd(1,3) p] by blast
  obtain fl1 qi1 qo1 where q: "attending hb st w1 C fl1 qi1 qo1 s" "pending rl hb now (map snd (served_order s R es)) (length es) st fl1"
    "\<forall>k \<in> C. output_to w1 qo1 k = output_to w qo k"
    using v unfolding event_serves_def by auto
  obtain st' w' fl' qi' qo' where r: "worker_events rl st w1 (net_events now es) = ret (st', w')"
    "attending hb st' w' C fl' qi' qo' (\<lambda>k. if k \<in> C then [] else s k)"
    "item_of st' = fst (serve now (item_of st) (map snd (served_order s R es)))"
    "\<forall>k \<in> C. output_to w' qo' k = output_to w1 qo1 k @ replies_to k now (item_of st) (served_order s R es)"
    using 3(1) [OF q(1) fd(5,2,4) q(2)] by blast
  have "worker_events rl st w (net_events now ((fd, Accepts f) # es)) = ret (st', w')"
    using e r(1) by (simp add: net_events_def)
  then show ?case using r q(3) by auto
qed

section \<open>Properties\<close>

text \<open>
  C1. Clients do not disturb each other. A worker has the clients \<open>C\<close>, each of which sends the bytes
  of its requests \<open>R fd\<close>, cut into packets anywhere, while the packets of all clients and the moments
  at which the sockets take output interleave in any way. Then the worker serves the requests one
  after the other, each when its last byte comes and so each client's in its order: the store ends
  with the map that \<open>serve\<close> makes of that sequence, every client is given exactly the answers to its
  owns requests in it, and every buffer is still free or in one queue.
\<close>

theorem clients_served:
  assumes "store_inv st" and "worker_inv w C fl qi qo"
    and "\<forall>fd \<in> C. framed (conn_of w fd) (qi fd) \<and> in_stream (conn_of w fd) (qi fd) = []"
    and "buf_unit < length (wk_header w)" and "1000002 \<le> length (wk_body w)"
    and "\<forall>fd \<in> C. from_client fd es = concat (map wire (R fd))"
    and "fst ` set es \<subseteq> C" and "\<forall>e \<in> snd ` set es. net_ok e"
    and "pending rl (length (wk_header w)) now (map snd (served_order (\<lambda>_. []) R es)) (length es) st fl"
  shows "\<exists>st' w' fl' qi' qo'. worker_events rl st w (net_events now es) = ret (st', w') \<and>
    store_inv st' \<and> worker_inv w' C fl' qi' qo' \<and>
    item_of st' = fst (serve now (item_of st) (map snd (served_order (\<lambda>_. []) R es))) \<and>
    (\<forall>fd \<in> C. in_stream (conn_of w' fd) (qi' fd) = [] \<and>
      map snd (filter (\<lambda>x. fst x = fd) (served_order (\<lambda>_. []) R es)) = R fd \<and>
      output_to w' qo' fd = output_to w qo fd @ replies_to fd now (item_of st) (served_order (\<lambda>_. []) R es))"
proof -
  have s: "attending (length (wk_header w)) st w C fl qi qo (\<lambda>_. [])"
    using assms(1-5) by (simp add: attending_def)
  have a: "sends_all C (\<lambda>_. []) R es" using assms(6) wire_nonempty by (simp add: sends_all_def)
  from worker_serves [OF s a assms(7-9)] served_order_of [OF a assms(7)] show ?thesis
    by (fastforce simp: attending_def)
qed

text \<open>Two clients whose packets interleave.\<close>

definition sample_net :: "(nat \<times> net) list" where
  "sample_net =
     [(4, Arrives (cs ''set a 5'')), (5, Arrives (cs ''get a b'' @ [CC 13])),
      (4, Arrives (cs '' 0 2'' @ crlf @ cs ''hi'' @ crlf @ cs ''fo'')), (5, Accepts (\<lambda>_. 0)),
      (5, Arrives [newline]), (5, Accepts (\<lambda>bs. int (length bs))), (4, Arrives (cs ''o'' @ crlf))]"

definition sample_clients :: "nat \<Rightarrow> req list" where
  "sample_clients fd =
     (if fd = 4 then [SetReq (cs ''a'') 5 0 (cs ''hi'') [], BadReq (cs ''foo'')]
      else if fd = 5 then [GetReq [cs ''a'', cs ''b'']] else [])"

lemma sample_net_ok:
  "from_client 4 sample_net = concat (map wire (sample_clients 4))"
  "from_client 5 sample_net = concat (map wire (sample_clients 5))"
  "map snd (served_order (\<lambda>_. []) sample_clients sample_net) = sample_reqs"
  "map fst sample_net = [4, 5, 4, 5, 5, 5, 4]"
  "replies_to 4 1000 (\<lambda>_. None) (served_order (\<lambda>_. []) sample_clients sample_net) =
    text_line ''STORED'' @ text_line ''ERROR''"
  "replies_to 5 1000 (\<lambda>_. None) (served_order (\<lambda>_. []) sample_clients sample_net) =
    text_line ''VALUE a 5 2'' @ text_line ''hi'' @ text_line ''END''"
  by code_simp+

lemma servable_mono: "servable n vb now M rs \<Longrightarrow> n \<le> n' \<Longrightarrow> servable n' vb now M rs"
proof (induction rs arbitrary: M)
  case (Cons r rs)
  then show ?case by (cases r) auto
qed simp

lemma sample_pending: "pending (\<lambda>_. True) max_body_size 1000 sample_reqs 7 (start_store 100) [0..<buf_pool_size]"
proof -
  note P = sample_served [of 100, unfolded pending_def]
  have "servable max_body_size (length (st_vbuf (start_store 100))) 1000 (item_of (start_store 100)) sample_reqs"
    by (rule servable_mono [of 1000]) (use P in \<open>simp_all add: max_body_size_def\<close>)
  moreover have "reply_bufs 1000 (item_of (start_store 100)) sample_reqs < 20" using P by simp
  ultimately show ?thesis using P by (simp add: pending_def buf_pool_size_def)
qed

text \<open>A worker of its real size that has accepted two clients.\<close>

lemma two_clients:
  obtains w1 w where "start_worker 0 = ret w1" and "run_bind (add_client w1 4) (\<lambda>w. add_client w 5) = ret w"
    and "attending max_body_size (start_store 100) w {4, 5} [0..<buf_pool_size] (\<lambda>_. []) (\<lambda>_. []) (\<lambda>_. [])"
    and "wk_sent w = (\<lambda>_. [])"
proof -
  let ?e = "\<lambda>_ :: nat. []"
  have triv: "?e(fd := []) = ?e" for fd by (rule ext) simp
  obtain w1 where w1: "start_worker 0 = ret w1"
    "attending max_body_size (start_store 100) w1 {} [0..<buf_pool_size] ?e ?e ?e" "wk_io w1 = (\<lambda>_. io_zero)" "wk_sent w1 = ?e"
    using start_worker_ok [OF start_store_ok(1) [of 100], of 0] by blast
  have io: "io_in_len io_zero = 0" by (simp add: io_zero_def)
  obtain w2 where w2: "add_client w1 4 = ret w2"
    "attending max_body_size (start_store 100) w2 {4} [0..<buf_pool_size] ?e ?e ?e" "wk_sent w2 = ?e"
    "wk_io w2 = (wk_io w1)(4 := wk_io w2 4)"
    using add_client_ok [OF w1(2), of 4] w1(3,4) io by (auto simp: triv max_epoll_fd_def)
  have "io_in_len (wk_io w2 5) = 0" using fun_cong [OF w2(4), of 5] w1(3) io by simp
  then obtain w3 where w3: "add_client w2 5 = ret w3"
    "attending max_body_size (start_store 100) w3 {4, 5} [0..<buf_pool_size] ?e ?e ?e" "wk_sent w3 = ?e"
    using add_client_ok [OF w2(2), of 5] w2(3) by (auto simp: triv max_epoll_fd_def insert_commute)
  then show thesis using that [OF w1(1) _ w3(2,3)] w2(1) by simp
qed

theorem clients_served_witness:
  "\<exists>w1 w st' w' qo. start_worker 0 = ret w1 \<and> run_bind (add_client w1 4) (\<lambda>w. add_client w 5) = ret w \<and>
    worker_events (\<lambda>_. True) (start_store 100) w (net_events 1000 sample_net) = ret (st', w') \<and>
    item_of st' (cs ''a'') = Some (5, 0, cs ''hi'') \<and>
    output_to w' qo 4 = text_line ''STORED'' @ text_line ''ERROR'' \<and>
    output_to w' qo 5 = text_line ''VALUE a 5 2'' @ text_line ''hi'' @ text_line ''END''"
proof (rule two_clients)
  let ?e = "\<lambda>_ :: nat. []"
  fix w1 w
  assume w: "start_worker 0 = ret w1" "run_bind (add_client w1 4) (\<lambda>w. add_client w 5) = ret w"
    "attending max_body_size (start_store 100) w {4, 5} [0..<buf_pool_size] ?e ?e ?e" "wk_sent w = ?e"
  have i: "item_of (start_store 100) = (\<lambda>_. None)" by (rule ext) (rule start_store_ok)
  have f: "\<forall>fd \<in> {4, 5}. from_client fd sample_net = concat (map wire (sample_clients fd))"
    using sample_net_ok(1,2) by simp
  have "fst ` set sample_net = set (map fst sample_net)" by simp
  then have c: "fst ` set sample_net \<subseteq> {4, 5}" unfolding sample_net_ok(4) by simp
  have n: "\<forall>e \<in> snd ` set sample_net. net_ok e"
    by (simp add: sample_net_def crlf_def buf_unit_def cs_def)
  have l: "length sample_net = 7" "length (wk_header w) = max_body_size"
    using arg_cong [OF sample_net_ok(4), of length] w(3) by (simp_all add: attending_def)
  have p: "pending (\<lambda>_. True) (length (wk_header w)) 1000 (map snd (served_order (\<lambda>_. []) sample_clients sample_net))
      (length sample_net) (start_store 100) [0..<buf_pool_size]"
    unfolding sample_net_ok(3) l(1) l(2) by (rule sample_pending)
  have "store_inv (start_store 100)" "worker_inv w {4, 5} [0..<buf_pool_size] ?e ?e"
    "\<forall>fd \<in> {4, 5}. framed (conn_of w fd) (?e fd) \<and> in_stream (conn_of w fd) (?e fd) = []"
    "buf_unit < length (wk_header w)" "1000002 \<le> length (wk_body w)"
    using w(3) unfolding attending_def by simp_all
  from clients_served [OF this f c n p] obtain st' w' qo' where
    r: "worker_events (\<lambda>_. True) (start_store 100) w (net_events 1000 sample_net) = ret (st', w')"
      "item_of st' = fst (serve 1000 (item_of (start_store 100)) sample_reqs)"
      "\<forall>fd \<in> {4, 5}. output_to w' qo' fd = output_to w ?e fd @
        replies_to fd 1000 (item_of (start_store 100)) (served_order (\<lambda>_. []) sample_clients sample_net)"
    unfolding sample_net_ok(3) by blast
  have "output_to w ?e fd = []" for fd using w(4) by (simp add: output_to_def)
  then have "output_to w' qo' 4 = text_line ''STORED'' @ text_line ''ERROR''"
    "output_to w' qo' 5 = text_line ''VALUE a 5 2'' @ text_line ''hi'' @ text_line ''END''"
    using r(3) unfolding i sample_net_ok(5,6) [symmetric] by simp_all
  moreover have "item_of st' (cs ''a'') = Some (5, 0, cs ''hi'')" using r(2) sample_serve(2) unfolding i by simp
  ultimately show ?thesis using w(1,2) r(1) by blast
qed

end
