(* ===== verification/Polling.thy ===== *)
theory Polling
  imports Workers
begin

text \<open>
  What a worker waits for. A socket is watched for output only while there is something to send:
  \<open>handle_input\<close> and \<open>handle_output\<close> switch it on and off. The theory shows that no answer is
  forgotten by that, whatever bytes the client sends, valid requests or not.
\<close>

section \<open>Nothing but the handlers of events switches\<close>

lemma upd_io_simps [simp]:
  "cn_poll (upd_io f c) = cn_poll c" "cn_pool (upd_io f c) = cn_pool c" "cn_io (upd_io f c) = f (cn_io c)"
  by (simp_all add: upd_io_def)

lemma out_enqueue_poll: "out_enqueue c = ret (c', q) \<Longrightarrow> cn_poll c' = cn_poll c"
  by (auto simp: out_enqueue_def run_bind_eq_ret Let_def split: option.splits)

lemma send_loop_poll:
  assumes "send_loop c k q = ret c'"
  shows "cn_poll c' = cn_poll c"
proof -
  have "\<forall>c'. r = Inr c' \<longrightarrow> cn_poll c' = cn_poll c" if "send_loop c k q = Some r" for r
    using that
  proof (rule send_loop.raw_induct [where P = "\<lambda>c k q r. \<forall>c'. r = Inr c' \<longrightarrow> cn_poll c' = cn_poll c", rotated])
    fix loop c k q r
    assume IH: "\<And>c k q r. loop c k q = Some r \<Longrightarrow> \<forall>c'. r = Inr c' \<longrightarrow> cn_poll c' = cn_poll c"
      and b: "run_bind (case q of Some q \<Rightarrow> ret (c, q) | None \<Rightarrow> out_enqueue c) (\<lambda>(c, q).
     run_bind (buf_get (cn_pool c) q) (\<lambda>b.
     let cap = int buf_unit - bf_size b in
     if int (length k) \<le> cap
     then run_bind (buf_upd_run (cn_pool c) q (buf_append k)) (\<lambda>p. ret (c\<lparr>cn_pool := p\<rparr>))
     else run_bind (buf_upd_run (cn_pool c) q (buf_append (take (nat cap) k))) (\<lambda>p.
          loop (c\<lparr>cn_pool := p\<rparr>) (drop (nat cap) k) None))) = Some r"
    show "\<forall>c'. r = Inr c' \<longrightarrow> cn_poll c' = cn_poll c"
    proof (intro allI impI)
      fix c' assume "r = Inr c'"
      with b obtain c1 q1 where o: "(case q of Some q \<Rightarrow> ret (c, q) | None \<Rightarrow> out_enqueue c) = ret (c1, q1)"
        and e: "(\<exists>p. c' = c1\<lparr>cn_pool := p\<rparr>) \<or> (\<exists>p k. loop (c1\<lparr>cn_pool := p\<rparr>) k None = ret c')"
        by (auto simp: run_bind_eq_ret Let_def split: if_split_asm)
      have "cn_poll c1 = cn_poll c" using o out_enqueue_poll by (auto split: option.splits)
      then show "cn_poll c' = cn_poll c" using e IH by fastforce
    qed
  qed
  then show ?thesis using assms by blast
qed

lemma append_send_data_poll: "append_send_data c k = ret c' \<Longrightarrow> cn_poll c' = cn_poll c"
  unfolding append_send_data_def by (rule send_loop_poll)

text \<open>A connection that is closed holds no buffers.\<close>

definition closed_empty :: "conn \<Rightarrow> bool" where
  "closed_empty c \<longleftrightarrow> (cn_poll c = Closed \<longrightarrow> io_in_head (cn_io c) = None \<and> io_out_head (cn_io c) = None)"

lemma destroy_fd_closed:
  assumes "destroy_fd c = ret c'"
  shows "cn_poll c' = Closed" and "closed_empty c'"
  using assms
  by (auto simp: closed_empty_def destroy_fd_def destroy_io_data_def free_in_buf_list_def free_out_buf_list_def run_bind_eq_ret split: if_split_asm)

lemma send_keys_poll: "send_keys c r = ret c' \<Longrightarrow> cn_poll c' = cn_poll c"
  by (cases r) (auto simp: send_keys_def run_bind_eq_ret dest!: append_send_data_poll)

lemmas handler_defs = cmd_do_set_def cmd_do_get_def cmd_do_cas_def cmd_do_delete_def cmd_do_incr_def cmd_do_decr_def
  incr_or_decr_def cmd_do_prefix_def cmd_do_less_def cmd_do_greater_def reply_unless_noreply_def

lemma handler_poll:
  "cmd_do_set rl now st c header body = ret (st', c') \<Longrightarrow> cn_poll c' = cn_poll c"
  "cmd_do_get now sign st c header = ret (st', c') \<Longrightarrow> cn_poll c' = cn_poll c"
  "cmd_do_cas rl st c header body = ret (st', c') \<Longrightarrow> cn_poll c' = cn_poll c"
  "cmd_do_delete st c header = ret (st', c') \<Longrightarrow> cn_poll c' = cn_poll c"
  "cmd_do_incr rl st c header = ret (st', c') \<Longrightarrow> cn_poll c' = cn_poll c"
  "cmd_do_decr rl st c header = ret (st', c') \<Longrightarrow> cn_poll c' = cn_poll c"
  "cmd_do_prefix st c header = ret c' \<Longrightarrow> cn_poll c' = cn_poll c"
  "cmd_do_less st c header = ret c' \<Longrightarrow> cn_poll c' = cn_poll c"
  "cmd_do_greater st c header = ret c' \<Longrightarrow> cn_poll c' = cn_poll c"
  by (auto simp: handler_defs run_bind_eq_ret Let_def split: if_split_asm
      dest!: append_send_data_poll send_keys_poll)

lemma dispatch_poll:
  assumes "dispatch rl now st c header body = ret (st', c')"
  shows "cn_poll c' = cn_poll c \<or> cn_poll c' = Closed \<and> closed_empty c'"
  using assms
  by (auto simp: dispatch_def no_change_def run_bind_eq_ret split: if_split_asm
      dest: handler_poll append_send_data_poll destroy_fd_closed)

text \<open>The input side leaves the output queue and the poll set alone.\<close>

definition same_out :: "conn \<Rightarrow> conn \<Rightarrow> bool" where
  "same_out c c' \<longleftrightarrow> cn_poll c' = cn_poll c \<and> io_out_head (cn_io c') = io_out_head (cn_io c)"

lemma same_out_refl [simp]: "same_out c c"
  by (simp add: same_out_def)

lemma same_out_trans: "same_out c c' \<Longrightarrow> same_out c' c'' \<Longrightarrow> same_out c c''"
  by (simp add: same_out_def)

lemma append_recv_same: "append_recv_data c got = ret (c', n) \<Longrightarrow> same_out c c'"
  by (auto simp: append_recv_data_def in_enqueue_def run_bind_eq_ret Let_def same_out_def
      split: option.splits if_split_asm)

lemma has_header_same: "has_header c = ret (c', b) \<Longrightarrow> same_out c c'"
  by (auto simp: has_header_def run_bind_eq_ret Let_def same_out_def split: option.splits if_split_asm)

lemma get_body_len_same: "get_body_len c header = ret (c', header') \<Longrightarrow> same_out c c'"
  by (auto simp: get_body_len_def run_bind_eq_ret Let_def same_out_def split: option.splits if_split_asm)

lemma read_loop_same:
  assumes "read_loop c q k dst start = ret (c', dst')"
  shows "same_out c c'"
proof -
  have "\<forall>c' d. r = Inr (c', d) \<longrightarrow> same_out c c'" if "read_loop c q k dst start = Some r" for r
    using that
  proof (rule read_loop.raw_induct [where P = "\<lambda>c q k dst start r. \<forall>c' d. r = Inr (c', d) \<longrightarrow> same_out c c'", rotated])
    fix loop c q k dst start r
    assume IH: "\<And>c q k dst start r. loop c q k dst start = Some r \<Longrightarrow> \<forall>c' d. r = Inr (c', d) \<longrightarrow> same_out c c'"
      and b: "run_bind (buf_get (cn_pool c) q) (\<lambda>b.
     if bf_size b \<le> k
     then run_bind (mem_get (bf_data b) 0 (bf_size b)) (\<lambda>d.
          run_bind (mem_put dst start d) (\<lambda>dst.
          let k = k - bf_size b; start = start + bf_size b in
          if 0 \<le> bf_next b
          then let c = upd_io (\<lambda>io. io\<lparr>io_in_head := Some (nat (bf_next b))\<rparr>) c in
               run_bind (free_buf (cn_pool c) q) (\<lambda>p.
               loop (c\<lparr>cn_pool := p\<rparr>) (nat (bf_next b)) k dst start)
          else let c = upd_io (\<lambda>io. io\<lparr>io_in_head := None, io_in_tail := None\<rparr>) c in
               run_bind (free_buf (cn_pool c) q) (\<lambda>p. ret (c\<lparr>cn_pool := p\<rparr>, dst))))
     else run_bind (mem_get (bf_data b) 0 k) (\<lambda>d.
          run_bind (mem_put dst start d) (\<lambda>dst.
          run_bind (mem_get (bf_data b) k (bf_size b - k)) (\<lambda>keep.
          run_bind (mem_put (bf_data b) 0 keep) (\<lambda>d.
          let b = b\<lparr>bf_data := d, bf_size := bf_size b - k\<rparr> in
          run_bind (buf_upd (cn_pool c) q (\<lambda>_. b)) (\<lambda>p.
          let c = c\<lparr>cn_pool := p\<rparr> in
          if bf_size b = 0
          then let c = (if 0 \<le> bf_next b then upd_io (\<lambda>io. io\<lparr>io_in_head := Some (nat (bf_next b))\<rparr>) c
                        else upd_io (\<lambda>io. io\<lparr>io_in_head := None, io_in_tail := None\<rparr>) c) in
               run_bind (free_buf (cn_pool c) q) (\<lambda>p. ret (c\<lparr>cn_pool := p\<rparr>, dst))
          else ret (c, dst))))))) = Some r"
    show "\<forall>c' d. r = Inr (c', d) \<longrightarrow> same_out c c'"
    proof (intro allI impI)
      fix c' d assume "r = Inr (c', d)"
      with b have "same_out c c' \<or> (\<exists>c1 q k dst start. same_out c c1 \<and> loop c1 q k dst start = ret (c', d))"
        by (fastforce simp: run_bind_eq_ret Let_def same_out_def split: if_split_asm)
      then show "same_out c c'" using IH same_out_trans by blast
    qed
  qed
  then show ?thesis using assms by blast
qed

lemma read_item_same: "read_item c len dst = ret (c', dst') \<Longrightarrow> same_out c c'"
  by (auto simp: read_item_def run_bind_eq_ret split: option.splits if_split_asm dest: read_loop_same)

lemma next_request_same: "next_request c header body = ret (c', header', body', b) \<Longrightarrow> same_out c c'"
  by (auto simp: next_request_def read_header_def read_body_def run_bind_eq_ret split: if_split_asm
      dest!: has_header_same get_body_len_same read_item_same intro: same_out_trans)

section \<open>Serving\<close>

text \<open>When \<open>handle_input\<close> does not ask for output, nothing has been queued.\<close>

definition asks :: "conn \<Rightarrow> conn \<Rightarrow> bool \<Rightarrow> bool" where
  "asks c c' can \<longleftrightarrow>
     (cn_poll c' = cn_poll c \<or> cn_poll c' = Closed) \<and> (closed_empty c \<longrightarrow> closed_empty c') \<and>
     (\<not> can \<longrightarrow> io_out_head (cn_io c') = None \<or> io_out_head (cn_io c') = io_out_head (cn_io c))"

lemma next_request_closed:
  assumes "next_request c header body = ret (c', header', body', go)" and "closed_empty c"
  shows "closed_empty c'" and "go \<Longrightarrow> cn_poll c \<noteq> Closed"
proof -
  have "go = False \<and> c' = c" if "io_in_head (cn_io c) = None"
    using assms(1) that by (simp add: next_request_def has_header_def)
  then show "closed_empty c'" "go \<Longrightarrow> cn_poll c \<noteq> Closed"
    using next_request_same [OF assms(1)] assms(2) by (auto simp: closed_empty_def same_out_def)
qed

lemma handle_cmd_asks:
  assumes "handle_cmd rl now st c header body = ret (st', c', header', body')" and "cn_poll c \<noteq> Closed"
  shows "cn_poll c' = cn_poll c \<or> cn_poll c' = Closed" and "closed_empty c'"
  using assms by (auto simp: handle_cmd_def run_bind_eq_ret closed_empty_def dest!: dispatch_poll)

lemma fix_buf_len_poll [simp]: "cn_poll (fix_buf_len c) = cn_poll c" "closed_empty (fix_buf_len c) = closed_empty c"
  by (simp_all add: fix_buf_len_def Let_def closed_empty_def)

lemma input_loop_asks:
  assumes "input_loop rl now st c header body can = ret (st', c', header', body', can')" and "closed_empty c"
  shows "asks c c' can' \<and> (can \<longrightarrow> can')"
proof -
  let ?P = "\<lambda>c can r. \<forall>s c' h b can'. closed_empty c \<longrightarrow> r = Inr (s, c', h, b, can') \<longrightarrow> asks c c' can' \<and> (can \<longrightarrow> can')"
  have "?P c can r" if "input_loop rl now st c header body can = Some r" for r
    using that
  proof (rule input_loop.raw_induct [where P = "\<lambda>rl now st c header body can r. ?P c can r", rotated])
    fix loop rl now st c header body can r
    assume IH: "\<And>rl now st c header body can r. loop rl now st c header body can = Some r \<Longrightarrow> ?P c can r"
      and b: "run_bind (next_request c header body) (\<lambda>(c, header, body, go).
     if \<not> go then ret (st, c, header, body, can)
     else run_bind (handle_cmd rl now st c header body) (\<lambda>(st, c, header, body).
       let c = fix_buf_len c in
       loop rl now st c header body (can \<or> io_out_head (cn_io c) \<noteq> None))) = Some r"
    show "?P c can r"
    proof (intro allI impI)
      fix s c' h b' can' assume r: "r = Inr (s, c', h, b', can')" and ce: "closed_empty c"
      obtain c1 h1 b1 go where n: "next_request c header body = ret (c1, h1, b1, go)"
        using b r by (auto simp: run_bind_eq_ret)
      note sm = next_request_same [OF n, unfolded same_out_def] and cl = next_request_closed [OF n ce]
      show "asks c c' can' \<and> (can \<longrightarrow> can')"
      proof (cases go)
        case False
        then show ?thesis using b n r sm cl(1) by (auto simp: asks_def)
      next
        case True
        then obtain st2 c2 h2 b2 where h: "handle_cmd rl now st c1 h1 b1 = ret (st2, c2, h2, b2)"
          using b n r by (auto simp: run_bind_eq_ret)
        then have l: "loop rl now st2 (fix_buf_len c2) h2 b2 (can \<or> io_out_head (cn_io c2) \<noteq> None) = Some (Inr (s, c', h, b', can'))"
          using b n r True by (simp add: Let_def)
        have "cn_poll c1 \<noteq> Closed" using cl(2) [OF True] sm by simp
        note H = handle_cmd_asks [OF h this]
        then show ?thesis using IH [OF l] sm by (auto simp: asks_def)
      qed
    qed
  qed
  then show ?thesis using assms by blast
qed

section \<open>Events\<close>

definition polled_ok :: "conn \<Rightarrow> bool" where
  "polled_ok c \<longleftrightarrow> (cn_poll c = Poll_in \<longrightarrow> io_out_head (cn_io c) = None) \<and> closed_empty c"

text \<open>An event that \<open>epoll_wait\<close> may report for a socket.\<close>

fun reported :: "polled \<Rightarrow> event \<Rightarrow> bool" where
  "reported q (Writable f) \<longleftrightarrow> q = Poll_out"
| "reported q _ \<longleftrightarrow> q \<noteq> Closed"

lemma handle_output_asks:
  assumes "handle_output f c = ret (c', can_input)"
  shows "cn_poll c' = cn_poll c" and "can_input \<Longrightarrow> io_out_head (cn_io c') = None"
  using assms
  by (auto simp: handle_output_def run_bind_eq_ret Let_def split: option.splits if_split_asm)

lemma handle_event_polled:
  assumes "handle_event rl now st c header body e = ret (st', c', header', body')" and "polled_ok c"
    and "reported (cn_poll c) e"
  shows "polled_ok c'"
proof (cases e)
  case (Readable again got)
  obtain c2 can where h: "handle_input rl now again got st c header body = ret (st', c2, header', body', can)"
    and c': "c' = (if can then watch Poll_out c2 else c2)"
    using assms(1) Readable by (auto simp: run_bind_eq_ret)
  obtain c1 ct where r: "append_recv_data c got = ret (c1, ct)"
    using h by (auto simp: handle_input_def run_bind_eq_ret)
  note sm = append_recv_same [OF r, unfolded same_out_def]
  show ?thesis
  proof (cases "ct \<le> 0 \<and> \<not> again")
    case True
    then show ?thesis
      using h r c' destroy_fd_closed by (auto simp: handle_input_def run_bind_eq_ret polled_ok_def)
  next
    case False
    then have l: "input_loop rl now st c1 header body False = ret (st', c2, header', body', can)"
      using h r by (auto simp: handle_input_def)
    have "closed_empty c1" using assms(3) sm Readable by (simp add: closed_empty_def)
    from input_loop_asks [OF l this] have a: "asks c1 c2 can" "closed_empty c2"
      using \<open>closed_empty c1\<close> by (auto simp: asks_def)
    then show ?thesis
      using sm assms(2) c' by (auto simp: asks_def polled_ok_def watch_def closed_empty_def)
  qed
next
  case (Writable f)
  then obtain c2 can where h: "handle_output f c = ret (c2, can)" and c': "c' = (if can then watch Poll_in c2 else c2)"
    using assms(1) by (auto simp: run_bind_eq_ret)
  then show ?thesis
    using handle_output_asks [OF h] assms(3) Writable by (auto simp: polled_ok_def watch_def closed_empty_def)
next
  case Hangup
  then show ?thesis using assms(1) destroy_fd_closed by (auto simp: run_bind_eq_ret polled_ok_def)
qed

text \<open>
  The states of a worker: it starts, its sockets come from \<open>accept\<close>, events are those
  \<open>epoll_wait\<close> may report, and in between the other workers change the store.
\<close>

inductive worker_reach :: "(u64 \<Rightarrow> bool) \<Rightarrow> store \<Rightarrow> worker \<Rightarrow> bool" for rl where
  start: "start_worker n = ret w \<Longrightarrow> worker_reach rl st w"
| accept: "worker_reach rl st w \<Longrightarrow> add_client w fd = ret w' \<Longrightarrow> worker_reach rl st w'"
| event: "worker_reach rl st w \<Longrightarrow> reported (wk_poll w fd) e \<Longrightarrow> worker_event rl now st w fd e = ret (st', w') \<Longrightarrow>
    worker_reach rl st' w'"
| another: "worker_reach rl st w \<Longrightarrow> worker_reach rl st' w"

lemma worker_reach_polled: "worker_reach rl st w \<Longrightarrow> polled_ok (conn_of w fd)"
proof (induction arbitrary: fd rule: worker_reach.induct)
  case (start n w st)
  then show ?case
    by (auto simp: start_worker_def run_bind_eq_ret polled_ok_def closed_empty_def io_zero_def)
next
  case (accept st w k w')
  have "polled_ok (conn_of w' fd) \<longleftrightarrow> (if fd = k then True else polled_ok (conn_of w fd))"
    using accept.hyps(2)
    by (auto simp: add_client_def alloc_io_data_def polled_ok_def closed_empty_def split: if_split_asm)
  then show ?case using accept.IH by simp
next
  case (event st w k e now st' w')
  obtain c' h b where h: "handle_event rl now st (conn_of w k) (wk_header w) (wk_body w) e = ret (st', c', h, b)"
    and w': "\<And>fd. conn_of w' fd = (if fd = k then c' else conn_of (w\<lparr>wk_pool := cn_pool c'\<rparr>) fd)"
    using event.hyps(3) by (auto simp: worker_event_def run_bind_eq_ret conn_of_def)
  have "polled_ok c'" using handle_event_polled [OF h event.IH] event.hyps(2) by simp
  moreover have "polled_ok (conn_of (w\<lparr>wk_pool := cn_pool c'\<rparr>) fd) = polled_ok (conn_of w fd)"
    by (simp add: polled_ok_def closed_empty_def)
  ultimately show ?case using event.IH [of fd] w' [of fd] by simp
qed

section \<open>Properties\<close>

text \<open>
  C27. No answer is forgotten: whatever clients send and the network does, a worker that watches a
  socket for input only has nothing to send on it (so while there is something to send it waits for
  the socket to take it), and a closed socket holds no buffer of the pool.
\<close>

theorem sockets_watched:
  assumes "worker_reach rl st w"
  shows "(wk_poll w fd = Poll_in \<longrightarrow> io_out_head (wk_io w fd) = None) \<and>
    (wk_poll w fd = Closed \<longrightarrow> io_in_head (wk_io w fd) = None \<and> io_out_head (wk_io w fd) = None)"
  using worker_reach_polled [OF assms, of fd] by (simp add: polled_ok_def closed_empty_def)

text \<open>A client sends a line that is no command: the worker then waits for its socket to take the answer.\<close>

lemma foo_line:
  "[] @ wire (BadReq (cs ''foo'')) = concat (map wire [BadReq (cs ''foo'')]) @ []"
  "net_ok (Arrives (wire (BadReq (cs ''foo''))))" "snd (serve 1000 M [BadReq (cs ''foo'')]) \<noteq> []"
proof -
  have l: "wire (BadReq (cs ''foo'')) = cs ''foo'' @ crlf" by (simp add: wire_def)
  then show "[] @ wire (BadReq (cs ''foo'')) = concat (map wire [BadReq (cs ''foo'')]) @ []" by simp
  show "net_ok (Arrives (wire (BadReq (cs ''foo''))))" unfolding l by (simp add: cs_def crlf_def buf_unit_def)
  show "snd (serve 1000 M [BadReq (cs ''foo'')]) \<noteq> []" by (simp add: text_line_def crlf_def)
qed

lemma foo_pending:
  "pending (\<lambda>_. True) max_body_size 1000 ([BadReq (cs ''foo'')] @ []) (Suc 0) (start_store 100) [0..<buf_pool_size]"
proof -
  have c: "\<forall>m \<in> set commands. take (length m) (cs ''foo'') \<noteq> cs m" "0 \<notin> set (cs ''foo'')" "newline \<notin> set (cs ''foo'')"
    "length (cs ''foo'') = 3" "length (text_line ''ERROR'') = 7" by code_simp+
  have "room (\<lambda>_. True) (st_tst (start_store 100)) (sum_list (map req_nodes [BadReq (cs ''foo'')]))"
    by (rule start_store_ok(4)) simp
  then show ?thesis
    using start_store_ok(5) [of 100] c
    by (simp add: pending_def max_body_size_def buf_pool_size_def buf_unit_def start_store_def)
qed

theorem sockets_watched_witness:
  "\<exists>w1 w st' w'. start_worker 0 = ret w1 \<and> run_bind (add_client w1 4) (\<lambda>w. add_client w 5) = ret w \<and>
    worker_event (\<lambda>_. True) 1000 (start_store 100) w 4 (Readable False (Some (wire (BadReq (cs ''foo''))))) = ret (st', w') \<and>
    wk_poll w' 4 = Poll_out"
proof (rule two_clients)
  let ?e = "\<lambda>_ :: nat. []"
  fix w1 w
  assume w: "start_worker 0 = ret w1" "run_bind (add_client w1 4) (\<lambda>w. add_client w 5) = ret w"
    "attending max_body_size (start_store 100) w {4, 5} [0..<buf_pool_size] ?e ?e ?e" "wk_sent w = ?e"
  have t: "partial_req max_body_size []" by (simp add: partial_req_def)
  obtain st' w' where e: "worker_event (\<lambda>_. True) 1000 (start_store 100) w 4 (net_event (Arrives (wire (BadReq (cs ''foo''))))) = ret (st', w')"
    and v: "event_serves (\<lambda>_. True) max_body_size 1000 {4, 5} 4 [BadReq (cs ''foo'')] [] 0 (?e(4 := [])) (start_store 100) w ?e st' w'"
    using packet_step [OF w(3) _ foo_line(1) t foo_pending foo_line(2)] by blast
  obtain fl' qi' qo' where q: "attending max_body_size st' w' {4, 5} fl' qi' qo' (?e(4 := []))"
    "output_to w' qo' 4 = output_to w ?e 4 @ snd (serve 1000 (item_of (start_store 100)) [BadReq (cs ''foo'')])"
    using v unfolding event_serves_def by auto
  have "wk_sent w' 4 = []" using e w(4) by (auto simp: worker_event_def run_bind_eq_ret simp del: handle_event.simps)
  then have "qo' 4 \<noteq> []" using q(2) foo_line(3) by (auto simp: output_to_def)
  then have "io_out_head (wk_io w' 4) \<noteq> None"
    using queue_head [OF conn_invD(3) [OF worker_conn [of w' "{4, 5}" fl' qi' qo' 4]]] q(1)
    by (auto simp: attending_def split: list.splits)
  moreover have "worker_reach (\<lambda>_. True) st' w'"
  proof -
    obtain w2 where a: "add_client w1 4 = ret w2" "add_client w2 5 = ret w" using w(2) by (auto simp: run_bind_eq_ret)
    have "worker_reach (\<lambda>_. True) (start_store 100) w"
      by (rule worker_reach.accept [OF worker_reach.accept [OF worker_reach.start [OF w(1)] a(1)] a(2)])
    moreover have "reported (wk_poll w 4) (net_event (Arrives (wire (BadReq (cs ''foo'')))))"
      using a by (auto simp: add_client_def split: if_split_asm)
    ultimately show ?thesis using worker_reach.event e by blast
  qed
  ultimately have "wk_poll w' 4 = Poll_out"
    using sockets_watched [of "\<lambda>_. True" st' w' 4] by (cases "wk_poll w' 4") auto
  then show ?thesis using w(1,2) e by auto
qed

end
