(* ===== verification/Process.thy ===== *)
theory Process
  imports Polling
begin

text \<open>
  The process of version 2: \<open>main\<close> of \<open>v2/src/tstserver.c\<close> with \<open>parse_args\<close>, \<open>do_accept\<close> and
  \<open>exit_hook\<close>. The main thread accept_count connections and deals them out to the workers in turn; a signal
  sets \<open>g_shutdown_flag\<close>; when the accept loop and the workers have ended the index is dumped. What
  the system reports, to \<open>select\<close>, \<open>accept\<close> and \<open>epoll_wait\<close>, is a sequence of happenings; the
  threads take their steps, one event or batch of events, in any order. Workers have one value
  buffer here: a handler writes it before it reads it.
\<close>

section \<open>Options\<close>

text \<open>What \<open>getopt\<close> returns for \<open>l:p:f:g:hq\<close>, one option at a time.\<close>

datatype opt = Opt_l cstr | Opt_p cstr | Opt_g cstr | Opt_f cstr | Opt_q | Opt_h | Opt_unknown

record config =
  cf_ip :: cstr
  cf_port :: i32
  cf_data :: cstr
  cf_log :: cstr
  cf_nolog :: bool

definition default_config :: config where
  "default_config = \<lparr>cf_ip = cs ''0.0.0.0'', cf_port = 8402, cf_data = [], cf_log = [], cf_nolog = False\<rparr>"

text \<open>\<open>Inl n\<close> is \<open>exit(n)\<close>.\<close>

fun parse_args :: "opt list \<Rightarrow> config \<Rightarrow> int + config" where
  "parse_args [] cf = Inr cf"
| "parse_args (Opt_l s # os) cf = parse_args os (cf\<lparr>cf_ip := s\<rparr>)"
| "parse_args (Opt_p s # os) cf =
     (if sint (atoi s) \<le> 0 then Inl 1 else parse_args os (cf\<lparr>cf_port := atoi s\<rparr>))"
| "parse_args (Opt_g s # os) cf = parse_args os (cf\<lparr>cf_log := s\<rparr>)"
| "parse_args (Opt_f s # os) cf = parse_args os (cf\<lparr>cf_data := s\<rparr>)"
| "parse_args (Opt_q # os) cf = parse_args os (cf\<lparr>cf_nolog := True\<rparr>)"
| "parse_args (Opt_h # os) cf = Inl 0"
| "parse_args (Opt_unknown # os) cf = parse_args os cf"

section \<open>File names\<close>

text \<open>\<open>snprintf\<close> cuts every name at \<open>MAX_FILENAME_LEN\<close> less one.\<close>

definition max_filename_len :: nat where
  "max_filename_len = 256"

definition cut_name :: "cstr \<Rightarrow> cstr" where
  "cut_name s = take (max_filename_len - 1) s"

definition index_file_name :: "cstr \<Rightarrow> cstr" where
  "index_file_name db_name = cut_name (db_name @ cs ''.index'')"

definition binlog_file_name :: "cstr \<Rightarrow> cstr" where
  "binlog_file_name name = cut_name (name @ cs ''.binlog'')"

definition tmp_name :: "cstr \<Rightarrow> cstr" where
  "tmp_name db_name = cut_name (index_file_name db_name @ cs ''.tmp'')"

text \<open>Data file, log, index and the file the index is dumped to, for the argument of \<open>-f\<close>.\<close>

definition file_names :: "cstr \<Rightarrow> cstr list" where
  "file_names data_file =
     (let db = cut_name data_file in [db, binlog_file_name data_file, index_file_name db, tmp_name db])"

section \<open>The process\<close>

definition worker_count :: nat where
  "worker_count = 5"

record process =
  pr_config :: config
  pr_store :: store
  pr_index :: "tst_db option"
  pr_workers :: "worker list"
  pr_alive :: "bool list"
  pr_next :: nat
  pr_listening :: bool
  pr_shutdown :: bool

fun start_workers :: "nat \<Rightarrow> nat \<Rightarrow> worker list run" where
  "start_workers i 0 = ret []"
| "start_workers i (Suc n) = run_bind (start_worker i) (\<lambda>w. run_bind (start_workers (Suc i) n) (\<lambda>ws. ret (w # ws)))"

text \<open>
  \<open>main\<close> up to \<open>do_accept\<close>. \<open>opens\<close> tells which files can be opened, \<open>net\<close> whether the
  system gives the socket, its address and the \<open>epoll\<close> sets; \<open>disk\<close> has the files. \<open>Inl\<close> is an exit.
\<close>

definition main_start ::
  "(u64 \<Rightarrow> bool) \<Rightarrow> (u32 \<Rightarrow> tst_node) \<Rightarrow> (cstr \<Rightarrow> bool) \<Rightarrow> bool \<Rightarrow> (cstr \<Rightarrow> files) \<Rightarrow> opt list option \<Rightarrow> (int + process) run"
where
  "main_start rl mem opens net disk args =
     (case args of None \<Rightarrow> ret (Inl 1) | Some os \<Rightarrow>
      case parse_args os default_config of Inl n \<Rightarrow> ret (Inl n) | Inr cf \<Rightarrow>
      if \<not> opens (cf_log cf) then ret (Inl 1)
      else
        let fs = disk (cf_data cf) in
        run_bind (init_data rl mem (list_all opens (take 2 (file_names (cf_data cf)))) fs) (\<lambda>st.
        if \<not> net then ret (Inl (-1))
        else run_bind (start_workers 0 worker_count) (\<lambda>ws.
          ret (Inr \<lparr>pr_config = cf, pr_store = st, pr_index = fs_index fs, pr_workers = ws, pr_alive = replicate worker_count True,
            pr_next = 0, pr_listening = True, pr_shutdown = False\<rparr>))))"

text \<open>
  What happens: \<open>select\<close> finds the socket ready and \<open>accept\<close> gives a descriptor or fails;
  \<open>select\<close> fails, with \<open>EBADF\<close> or not; a worker's \<open>epoll_wait\<close> returns; a signal arrives.
\<close>

datatype happening = Accepted int | Select_failed bool | Waited nat "(int \<times> nat \<times> event) list" | Signal

text \<open>One round of the loop of \<open>do_accept\<close>; \<open>worker_pointer\<close> is \<open>pr_next\<close>.\<close>

definition do_accept :: "process \<Rightarrow> int \<Rightarrow> process run" where
  "do_accept p client_fd =
     (if client_fd \<le> 0 then ret p
      else if length (pr_workers p) \<le> pr_next p then abort_with Undefined
      else run_bind (add_client (pr_workers p ! pr_next p) (nat client_fd)) (\<lambda>w.
        let next = pr_next p + 1 in
        ret (p\<lparr>pr_workers := (pr_workers p)[pr_next p := w], pr_next := (if next = worker_count then 0 else next)\<rparr>)))"

definition exit_hook :: "process \<Rightarrow> process" where
  "exit_hook p = p\<lparr>pr_shutdown := True\<rparr>"

fun process_step :: "(u64 \<Rightarrow> bool) \<Rightarrow> process \<Rightarrow> happening \<Rightarrow> process run" where
  "process_step rl p (Accepted fd) = (if pr_listening p then do_accept p fd else ret p)"
| "process_step rl p (Select_failed ebadf) = ret (if ebadf \<and> pr_shutdown p then p\<lparr>pr_listening := False\<rparr> else p)"
| "process_step rl p (Waited i es) =
     (if i < worker_count \<and> pr_alive p ! i
      then run_bind (handle_core rl (pr_store p) (pr_workers p ! i) [(pr_shutdown p, es)]) (\<lambda>(st, w, ended).
        ret (p\<lparr>pr_store := st, pr_workers := (pr_workers p)[i := w], pr_alive := (pr_alive p)[i := \<not> ended]\<rparr>))
      else ret p)"
| "process_step rl p Signal = ret (exit_hook p)"

text \<open>
  After \<open>do_accept\<close>, \<open>main\<close> joins the workers and dumps the index: the files it leaves.
\<close>

definition main_ended :: "process \<Rightarrow> bool" where
  "main_ended p \<longleftrightarrow> \<not> pr_listening p \<and> (\<forall>a \<in> set (pr_alive p). \<not> a)"

definition main_files :: "process \<Rightarrow> files" where
  "main_files p = dump_tst (pr_store p) (disk_of (pr_index p) (pr_store p))"

text \<open>A batch of \<open>epoll_wait\<close>: one event for each of some sockets in the set.\<close>

definition batch_ok :: "worker \<Rightarrow> (int \<times> nat \<times> event) list \<Rightarrow> bool" where
  "batch_ok w es \<longleftrightarrow> distinct (map (fst \<circ> snd) es) \<and> (\<forall>(now, fd, e) \<in> set es. reported (wk_poll w fd) e)"

fun possible :: "process \<Rightarrow> happening \<Rightarrow> bool" where
  "possible p (Waited i es) \<longleftrightarrow> i < worker_count \<and> batch_ok (pr_workers p ! i) es"
| "possible p _ \<longleftrightarrow> True"

inductive process_run :: "(u64 \<Rightarrow> bool) \<Rightarrow> process \<Rightarrow> process \<Rightarrow> bool" for rl p0 where
  init: "process_run rl p0 p0"
| more: "process_run rl p0 p \<Longrightarrow> possible p h \<Longrightarrow> process_step rl p h = ret p' \<Longrightarrow> process_run rl p0 p'"

section \<open>Threads\<close>

lemma worker_events_steps:
  assumes "worker_events rl st w es = ret (st', w')"
  shows "store_steps rl st st'"
  using assms
proof (induction es arbitrary: st w)
  case (Cons x es)
  obtain now fd e where x: "x = (now, fd, e)" by (cases x)
  obtain st1 w1 where e: "worker_event rl now st w fd e = ret (st1, w1)" "worker_events rl st1 w1 es = ret (st', w')"
    using Cons.prems x by (auto simp: run_bind_eq_ret)
  have "store_steps rl st st1"
    using e(1) by (auto simp: worker_event_def run_bind_eq_ret simp del: handle_event.simps intro: handle_event_steps)
  then show ?case using Cons.IH [OF e(2)] by (meson rtranclp_trans)
qed simp

lemma worker_event_poll:
  "worker_event rl now st w fd e = ret (st', w') \<Longrightarrow> k \<noteq> fd \<Longrightarrow> wk_poll w' k = wk_poll w k"
  by (auto simp: worker_event_def run_bind_eq_ret simp del: handle_event.simps)

lemma worker_events_reach:
  assumes "worker_events rl st w es = ret (st', w')" and "worker_reach rl st w" and "batch_ok w es"
  shows "worker_reach rl st' w'"
  using assms
proof (induction es arbitrary: st w)
  case (Cons x es)
  obtain now fd e where x: "x = (now, fd, e)" by (cases x)
  obtain st1 w1 where e: "worker_event rl now st w fd e = ret (st1, w1)" "worker_events rl st1 w1 es = ret (st', w')"
    using Cons.prems(1) x by (auto simp: run_bind_eq_ret)
  have "worker_reach rl st1 w1"
    by (rule worker_reach.event [OF Cons.prems(2) _ e(1)]) (use Cons.prems(3) x in \<open>simp add: batch_ok_def\<close>)
  moreover have "batch_ok w1 es"
    unfolding batch_ok_def
  proof (intro conjI ballI)
    show "distinct (map (fst \<circ> snd) es)" using Cons.prems(3) by (simp add: batch_ok_def)
    fix y assume y: "y \<in> set es"
    then have "fst (snd y) \<noteq> fd" using Cons.prems(3) x by (force simp: batch_ok_def)
    then show "case y of (now, k, e) \<Rightarrow> reported (wk_poll w1 k) e"
      using y Cons.prems(3) worker_event_poll [OF e(1)] by (auto simp: batch_ok_def)
  qed
  ultimately show ?case using Cons.IH [OF e(2)] by blast
qed simp

lemma round_steps:
  assumes "handle_core rl st w [(down, es)] = ret (st', w', ended)"
  shows "store_steps rl st st'" and "worker_reach rl st w \<Longrightarrow> batch_ok w es \<Longrightarrow> worker_reach rl st' w'"
    and "ended \<longleftrightarrow> es = [] \<and> down"
  using assms worker_events_steps [of rl st w es] worker_events_reach [of rl st w es]
  by (auto simp: run_bind_eq_ret split: if_split_asm)

lemma process_step_store:
  assumes "process_step rl p h = ret p'"
  shows "store_steps rl (pr_store p) (pr_store p')" and "pr_index p' = pr_index p" and "pr_config p' = pr_config p"
  using assms round_steps(1)
  by (cases h; fastforce simp: do_accept_def exit_hook_def run_bind_eq_ret Let_def simp del: handle_core.simps split: if_split_asm)+

lemma process_run_store:
  assumes "process_run rl p0 p"
  shows "store_steps rl (pr_store p0) (pr_store p) \<and> pr_index p = pr_index p0 \<and> pr_config p = pr_config p0"
  using assms
proof (induction rule: process_run.induct)
  case (more p h p')
  then show ?case using process_step_store [OF more.hyps(3)] by (auto intro: rtranclp_trans)
qed simp

section \<open>The shape of the process\<close>

definition process_wf :: "(u64 \<Rightarrow> bool) \<Rightarrow> process \<Rightarrow> bool" where
  "process_wf rl p \<longleftrightarrow>
     length (pr_workers p) = worker_count \<and> length (pr_alive p) = worker_count \<and> pr_next p < worker_count \<and>
     (\<forall>w \<in> set (pr_workers p). worker_reach rl (pr_store p) w)"

lemma start_workers_reach:
  "start_workers i n = ret ws \<Longrightarrow> length ws = n \<and> (\<forall>w \<in> set ws. worker_reach rl st w)"
proof (induction n arbitrary: i ws)
  case (Suc n)
  then show ?case using worker_reach.start by (fastforce simp: run_bind_eq_ret)
qed simp

lemma main_start_wf:
  assumes "main_start rl mem opens net disk args = ret (Inr p)"
  shows "process_wf rl p" and "pr_next p = 0" and "pr_listening p"
    and "init_data rl mem True (disk (cf_data (pr_config p))) = ret (pr_store p)"
    and "pr_index p = fs_index (disk (cf_data (pr_config p)))"
proof -
  obtain cf st ws where i: "init_data rl mem (list_all opens (take 2 (file_names (cf_data cf)))) (disk (cf_data cf)) = ret st"
    and w: "start_workers 0 worker_count = ret ws"
    and p: "p = \<lparr>pr_config = cf, pr_store = st, pr_index = fs_index (disk (cf_data cf)), pr_workers = ws,
      pr_alive = replicate worker_count True, pr_next = 0, pr_listening = True, pr_shutdown = False\<rparr>"
    using assms by (auto simp: main_start_def run_bind_eq_ret Let_def split: option.splits sum.splits if_split_asm)
  show "process_wf rl p"
    using start_workers_reach [OF w] by (simp add: process_wf_def p worker_count_def)
  show "pr_next p = 0" "pr_listening p" "pr_index p = fs_index (disk (cf_data (pr_config p)))" by (simp_all add: p)
  have "list_all opens (take 2 (file_names (cf_data cf)))" using i by (simp add: init_data_def split: if_split_asm)
  then show "init_data rl mem True (disk (cf_data (pr_config p))) = ret (pr_store p)" using i by (simp add: p)
qed

lemma set_update_all: "\<forall>x \<in> set xs. P x \<Longrightarrow> P y \<Longrightarrow> \<forall>x \<in> set (xs[i := y]). P x"
  using set_update_subset_insert [of xs i y] by auto

lemma process_step_wf:
  assumes "process_step rl p h = ret p'" and "possible p h" and "process_wf rl p"
  shows "process_wf rl p'"
proof (cases h)
  case (Accepted fd)
  show ?thesis
  proof (cases "pr_listening p \<and> 0 < fd")
    case True
    then obtain w where w: "add_client (pr_workers p ! pr_next p) (nat fd) = ret w"
      and p': "p' = p\<lparr>pr_workers := (pr_workers p)[pr_next p := w],
        pr_next := (if pr_next p + 1 = worker_count then 0 else pr_next p + 1)\<rparr>"
      using assms(1) Accepted by (auto simp: do_accept_def run_bind_eq_ret Let_def split: if_split_asm)
    have "worker_reach rl (pr_store p) (pr_workers p ! pr_next p)"
      using assms(3) by (simp add: process_wf_def)
    then have "worker_reach rl (pr_store p) w" using worker_reach.accept w by blast
    then show ?thesis
      using assms(3) set_update_all [of "pr_workers p" "worker_reach rl (pr_store p)" w]
      by (auto simp: process_wf_def p' worker_count_def)
  next
    case False
    then show ?thesis using assms(1,3) Accepted by (auto simp: do_accept_def split: if_split_asm)
  qed
next
  case (Waited i es)
  show ?thesis
  proof (cases "pr_alive p ! i")
    case True
    then obtain st w e where c: "handle_core rl (pr_store p) (pr_workers p ! i) [(pr_shutdown p, es)] = ret (st, w, e)"
      and p': "p' = p\<lparr>pr_store := st, pr_workers := (pr_workers p)[i := w], pr_alive := (pr_alive p)[i := \<not> e]\<rparr>"
      using assms(1,2) Waited by (auto simp: run_bind_eq_ret simp del: handle_core.simps)
    have "worker_reach rl (pr_store p) (pr_workers p ! i)"
      using assms(2,3) Waited by (simp add: process_wf_def)
    then have "worker_reach rl st w" using round_steps(2) [OF c] assms(2) Waited by simp
    moreover have "\<forall>w \<in> set (pr_workers p). worker_reach rl st w"
      using assms(3) worker_reach.another unfolding process_wf_def by blast
    ultimately show ?thesis
      using assms(3) set_update_all [of "pr_workers p" "worker_reach rl st" w] by (simp add: process_wf_def p')
  next
    case False
    then show ?thesis using assms(1,3) Waited by simp
  qed
qed (use assms in \<open>auto simp: exit_hook_def process_wf_def\<close>)

lemma process_run_wf: "process_run rl p0 p \<Longrightarrow> process_wf rl p0 \<Longrightarrow> process_wf rl p"
  by (induction rule: process_run.induct) (auto intro: process_step_wf)

text \<open>A sequence of happenings, and the connections among them.\<close>

fun process_steps :: "(u64 \<Rightarrow> bool) \<Rightarrow> process \<Rightarrow> happening list \<Rightarrow> process run" where
  "process_steps rl p [] = ret p"
| "process_steps rl p (h # hs) = run_bind (process_step rl p h) (\<lambda>p. process_steps rl p hs)"

fun accept_count :: "happening list \<Rightarrow> nat" where
  "accept_count [] = 0"
| "accept_count (Accepted fd # hs) = (if 0 < fd then 1 else 0) + accept_count hs"
| "accept_count (h # hs) = accept_count hs"

lemma process_step_next:
  assumes "process_step rl p h = ret p'" and "pr_listening p'" and "pr_next p < worker_count"
  shows "pr_listening p" and "pr_next p' = (pr_next p + accept_count [h]) mod worker_count"
  using assms
  by (cases h; auto simp: do_accept_def exit_hook_def run_bind_eq_ret Let_def worker_count_def
      simp del: handle_core.simps split: if_split_asm)+

lemma process_steps_next:
  assumes "process_steps rl p hs = ret p'" and "pr_listening p'" and "pr_next p < worker_count"
  shows "pr_listening p \<and> pr_next p' = (pr_next p + accept_count hs) mod worker_count"
  using assms
proof (induction hs arbitrary: p)
  case (Cons h hs)
  obtain p1 where p1: "process_step rl p h = ret p1" "process_steps rl p1 hs = ret p'"
    using Cons.prems(1) by (auto simp: run_bind_eq_ret)
  have "pr_next p1 < worker_count"
    using p1(1) Cons.prems(3)
    by (cases h; auto simp: do_accept_def exit_hook_def run_bind_eq_ret Let_def worker_count_def
        simp del: handle_core.simps split: if_split_asm)
  note I = Cons.IH [OF p1(2) Cons.prems(2) this]
  have "accept_count (h # hs) = accept_count [h] + accept_count hs" by (cases h) simp_all
  then show ?case
    using I process_step_next [OF p1(1) _ Cons.prems(3)] by (simp add: mod_add_left_eq add.assoc)
qed simp

section \<open>Files from one run to the next\<close>

text \<open>The files that a server may find: none yet, those of a shutdown, or those of a server that was killed.\<close>

definition orderly :: "(u64 \<Rightarrow> bool) \<Rightarrow> (u32 \<Rightarrow> tst_node) \<Rightarrow> files \<Rightarrow> bool" where
  "orderly rl mem fs \<longleftrightarrow>
     fs = \<lparr>fs_data = [], fs_log = [], fs_index = None\<rparr> \<or>
     (\<exists>idx st. server_life rl mem idx st \<and>
       (fs = dump_tst st (disk_of idx st) \<or>
        (\<exists>d t. torn t \<and> length (st_log st) < 2 ^ 31 \<and> length (st_data st @ d) < 2 ^ 64 \<and> fs = killed idx st d t)))"

lemma orderly_start:
  assumes "orderly rl mem fs" and "init_data rl mem True fs = ret st"
  shows "server_life rl mem (fs_index fs) st"
  using assms(1) unfolding orderly_def
proof (elim disjE exE conjE)
  assume fs: "fs = \<lparr>fs_data = [], fs_log = [], fs_index = None\<rparr>"
  then show ?thesis using server_life.boot assms(2) by simp
next
  fix idx st0 assume l: "server_life rl mem idx st0" and fs: "fs = dump_tst st0 (disk_of idx st0)"
  have "fs_index fs = Some (st_tst st0)" by (simp add: fs dump_tst_def remove_binlog_def install_index_def)
  then show ?thesis using server_life.restart [OF l] assms(2) fs by simp
next
  fix idx st0 d t assume l: "server_life rl mem idx st0" and t: "torn t" "length (st_log st0) < 2 ^ 31"
    "length (st_data st0 @ d) < 2 ^ 64" and fs: "fs = killed idx st0 d t"
  have "fs_index fs = idx" by (simp add: fs killed_def)
  then show ?thesis using server_life.crash [OF l t] assms(2) fs by simp
qed

lemma main_keeps_life:
  assumes "main_start rl mem opens net disk args = ret (Inr p0)" and "orderly rl mem (disk (cf_data (pr_config p0)))"
    and "process_run rl p0 p" and "length (st_data (pr_store p)) < 2 ^ 64"
  shows "server_life rl mem (pr_index p) (pr_store p)"
  using steps_keep_life [OF _ orderly_start [OF assms(2) main_start_wf(4) [OF assms(1)]]] process_run_store [OF assms(3)]
    main_start_wf(5) [OF assms(1)] assms(4) by simp

section \<open>Shutting down\<close>

lemma step_listening: "process_step rl p h = ret p' \<Longrightarrow> pr_listening p' \<longleftrightarrow> pr_listening p \<and> (h = Select_failed True \<longrightarrow> \<not> pr_shutdown p)"
  by (cases h) (auto simp: do_accept_def exit_hook_def run_bind_eq_ret Let_def simp del: handle_core.simps split: if_split_asm)

lemma step_shutdown: "process_step rl p h = ret p' \<Longrightarrow> pr_shutdown p' \<longleftrightarrow> pr_shutdown p \<or> h = Signal"
  by (cases h) (auto simp: do_accept_def exit_hook_def run_bind_eq_ret Let_def simp del: handle_core.simps split: if_split_asm)

lemma step_alive:
  assumes "process_step rl p h = ret p'"
  shows "length (pr_alive p') = length (pr_alive p)"
    and "i < length (pr_alive p) \<Longrightarrow> pr_alive p' ! i \<longleftrightarrow> pr_alive p ! i \<and> \<not> (h = Waited i [] \<and> pr_shutdown p \<and> i < worker_count)"
proof -
  have "length (pr_alive p') = length (pr_alive p) \<and> (i < length (pr_alive p) \<longrightarrow>
      (pr_alive p' ! i \<longleftrightarrow> pr_alive p ! i \<and> \<not> (h = Waited i [] \<and> pr_shutdown p \<and> i < worker_count)))"
  proof (cases h)
    case (Waited j es)
    show ?thesis
    proof (cases "j < worker_count \<and> pr_alive p ! j")
      case True
      then obtain st w e where c: "handle_core rl (pr_store p) (pr_workers p ! j) [(pr_shutdown p, es)] = ret (st, w, e)"
        and p': "p' = p\<lparr>pr_store := st, pr_workers := (pr_workers p)[j := w], pr_alive := (pr_alive p)[j := \<not> e]\<rparr>"
        using assms(1) Waited by (auto simp: run_bind_eq_ret simp del: handle_core.simps)
      show ?thesis using round_steps(3) [OF c] True Waited by (cases "i = j") (auto simp: p')
    next
      case False
      then show ?thesis using assms Waited by auto
    qed
  qed (use assms in \<open>auto simp: do_accept_def exit_hook_def run_bind_eq_ret Let_def split: if_split_asm\<close>)
  then show "length (pr_alive p') = length (pr_alive p)"
    "i < length (pr_alive p) \<Longrightarrow> pr_alive p' ! i \<longleftrightarrow> pr_alive p ! i \<and> \<not> (h = Waited i [] \<and> pr_shutdown p \<and> i < worker_count)"
    by simp_all
qed

lemma shutdown_stays:
  assumes "process_steps rl p hs = ret p'" and "pr_shutdown p" and "length (pr_alive p) = worker_count"
  shows "length (pr_alive p') = worker_count \<and> (pr_listening p' \<longrightarrow> pr_listening p \<and> Select_failed True \<notin> set hs) \<and>
    (\<forall>i < worker_count. pr_alive p' ! i \<longrightarrow> pr_alive p ! i \<and> Waited i [] \<notin> set hs)"
  using assms
proof (induction hs arbitrary: p)
  case (Cons h hs)
  obtain p1 where p1: "process_step rl p h = ret p1" "process_steps rl p1 hs = ret p'"
    using Cons.prems(1) by (auto simp: run_bind_eq_ret)
  note L = step_alive [OF p1(1)] step_listening [OF p1(1)] step_shutdown [OF p1(1)]
  have "pr_shutdown p1" "length (pr_alive p1) = worker_count" using L Cons.prems by simp_all
  note I = Cons.IH [OF p1(2) this]
  show ?case using I L Cons.prems(2,3) by auto
qed simp

section \<open>Properties\<close>




text \<open>
  C30. File names are cut at 255 characters without a check: a longer argument of \<open>-f\<close> makes data file,
  log, index and temporary index one and the same file; up to 245 characters they are four.
\<close>

theorem file_names_distinct:
  "(length data_file \<le> 245 \<longrightarrow> distinct (file_names data_file)) \<and>
   (255 \<le> length data_file \<longrightarrow> (\<exists>f. file_names data_file = [f, f, f, f]))"
proof -
  have l: "length (cs ''.index'') = 6" "length (cs ''.binlog'') = 7" "length (cs ''.tmp'') = 4"
    "cs ''.index'' \<noteq> []" "cs ''.binlog'' \<noteq> []" "cs ''.tmp'' \<noteq> []" by code_simp+
  have "distinct (file_names data_file)" if "length data_file \<le> 245"
  proof -
    have n: "file_names data_file = [data_file, data_file @ cs ''.binlog'', data_file @ cs ''.index'', data_file @ cs ''.index'' @ cs ''.tmp'']"
      using that l(1-3) by (simp add: file_names_def cut_name_def index_file_name_def binlog_file_name_def tmp_name_def max_filename_len_def Let_def)
    have "distinct (map length (file_names data_file))" unfolding n using l(1-3) by simp
    then show ?thesis by (simp only: distinct_map)
  qed
  moreover have "file_names data_file = [cut_name data_file, cut_name data_file, cut_name data_file, cut_name data_file]"
    if "255 \<le> length data_file"
    using that by (simp add: file_names_def cut_name_def index_file_name_def binlog_file_name_def tmp_name_def max_filename_len_def Let_def)
  ultimately show ?thesis by blast
qed

text \<open>A server on an empty disk that accept_count a client, gets a signal and ends.\<close>

lemma start_workers_ret: "\<exists>ws. start_workers i n = ret ws"
proof (induction n arbitrary: i)
  case (Suc n)
  obtain w where "start_worker i = ret w" using start_worker_ok [OF start_store_ok(1) [of 100]] by metis
  then show ?case using Suc.IH [of "Suc i"] by auto
qed simp

definition no_files :: files where
  "no_files = \<lparr>fs_data = [], fs_log = [], fs_index = None\<rparr>"

definition sample_args :: "opt list option" where
  "sample_args = Some [Opt_f (cs ''d''), Opt_g (cs ''l'')]"

definition sample_happenings :: "happening list" where
  "sample_happenings =
     [Accepted 4, Signal, Accepted 5, Select_failed True] @ map (\<lambda>i. Waited i []) [0..<worker_count]"

lemma sample_start:
  obtains p0 where "main_start (\<lambda>_. True) (\<lambda>_. zero_node) (\<lambda>s. s \<noteq> []) True (\<lambda>_. no_files) sample_args = ret (Inr p0)"
    and "pr_store p0 = start_store value_buf_size" and "process_wf (\<lambda>_. True) p0" and "pr_listening p0"
    and "pr_alive p0 = replicate worker_count True" and "pr_next p0 = 0"
proof -
  obtain ws where w: "start_workers 0 worker_count = ret ws" using start_workers_ret by blast
  have o: "list_all (\<lambda>s. s \<noteq> []) (take 2 (file_names (cs ''d'')))" "cs ''l'' \<noteq> []" by code_simp+
  have i: "init_data (\<lambda>_. True) (\<lambda>_. zero_node) True no_files = ret (start_store value_buf_size)"
    by (simp add: no_files_def init_empty start_store_def)
  let ?p = "\<lparr>pr_config = default_config\<lparr>cf_data := cs ''d'', cf_log := cs ''l''\<rparr>, pr_store = start_store value_buf_size,
    pr_index = None, pr_workers = ws, pr_alive = replicate worker_count True, pr_next = 0, pr_listening = True, pr_shutdown = False\<rparr>"
  have m: "main_start (\<lambda>_. True) (\<lambda>_. zero_node) (\<lambda>s. s \<noteq> []) True (\<lambda>_. no_files) sample_args = ret (Inr ?p)"
    using w o i by (simp add: main_start_def sample_args_def Let_def default_config_def) (simp add: no_files_def)
  show thesis by (rule that [OF m]) (use main_start_wf [OF m] in simp_all)
qed

lemma process_steps_append:
  "process_steps rl p (hs @ hs') = run_bind (process_steps rl p hs) (\<lambda>p. process_steps rl p hs')"
  by (induction hs arbitrary: p) (simp_all add: run_bind_assoc)

lemma idle_steps_run:
  assumes "process_steps rl p hs = ret p'" and "process_run rl p0 p"
    and "\<forall>i es. Waited i es \<in> set hs \<longrightarrow> i < worker_count \<and> es = []"
  shows "process_run rl p0 p'"
  using assms
proof (induction hs arbitrary: p)
  case (Cons h hs)
  obtain p1 where p1: "process_step rl p h = ret p1" "process_steps rl p1 hs = ret p'"
    using Cons.prems(1) by (auto simp: run_bind_eq_ret)
  have "\<forall>i es. h = Waited i es \<longrightarrow> i < worker_count \<and> es = []" using Cons.prems(3) by simp
  then have "possible p h" by (cases h) (simp_all add: batch_ok_def)
  then show ?case using Cons.IH [OF p1(2) process_run.more [OF Cons.prems(2) _ p1(1)]] Cons.prems(3) by simp
qed simp

lemma sample_steps:
  assumes "process_wf rl p0" and "pr_listening p0" and "pr_next p0 = 0" and "pr_alive p0 = replicate worker_count True"
  obtains p1 p where "process_steps rl p0 [Accepted 4, Signal] = ret p1" and "pr_listening p1" and "pr_shutdown p1"
    and "length (pr_alive p1) = worker_count" and "process_steps rl p1 (drop 2 sample_happenings) = ret p"
    and "process_steps rl p0 sample_happenings = ret p" and "process_run rl p0 p" and "main_ended p" and "pr_store p = pr_store p0"
proof -
  have n: "length (pr_workers p0) = 5" "pr_alive p0 = [True, True, True, True, True]"
    using assms by (simp_all add: process_wf_def worker_count_def eval_nat_numeral)
  obtain cf idx ws down where p0: "p0 = \<lparr>pr_config = cf, pr_store = pr_store p0, pr_index = idx, pr_workers = ws,
      pr_alive = [True, True, True, True, True], pr_next = 0, pr_listening = True, pr_shutdown = down\<rparr>" "length ws = 5"
    using n assms(2,3) by (cases p0) simp
  have h: "sample_happenings = [Accepted 4, Signal, Accepted 5, Select_failed True, Waited 0 [], Waited 1 [], Waited 2 [], Waited 3 [], Waited 4 []]"
    by (simp add: sample_happenings_def worker_count_def upt_rec)
  obtain st where st: "st = pr_store p0" by simp
  note defs = do_accept_def exit_hook_def add_client_def max_epoll_fd_def worker_count_def Let_def main_ended_def
  have "\<exists>p1. process_steps rl p0 [Accepted 4, Signal] = ret p1 \<and> pr_listening p1 \<and> pr_shutdown p1 \<and>
      length (pr_alive p1) = worker_count"
    unfolding p0(1) [folded st] using p0(2) by (simp add: defs)
  moreover have "\<exists>p. process_steps rl p0 sample_happenings = ret p \<and> pr_store p = st \<and> main_ended p"
    unfolding p0(1) [folded st] h using p0(2) by (simp add: defs)
  ultimately obtain p1 p where p1: "process_steps rl p0 [Accepted 4, Signal] = ret p1" "pr_listening p1" "pr_shutdown p1"
      "length (pr_alive p1) = worker_count"
    and p: "process_steps rl p0 sample_happenings = ret p" "pr_store p = pr_store p0" "main_ended p"
    unfolding st by blast
  have "process_run rl p0 p"
    by (rule idle_steps_run [OF p(1) process_run.init]) (auto simp: h worker_count_def)
  moreover have "process_steps rl p1 (drop 2 sample_happenings) = ret p"
    using p(1) p1(1) process_steps_append [of rl p0 "[Accepted 4, Signal]" "drop 2 sample_happenings"] by (simp add: h)
  ultimately show thesis using p1 p that by blast
qed




theorem file_names_distinct_witness:
  "distinct (file_names (cs ''d'')) \<and> (\<exists>f. file_names (replicate 300 (CC 97)) = [f, f, f, f])"
proof -
  have "length (cs ''d'') \<le> 245" by code_simp
  then show ?thesis using file_names_distinct [of "cs ''d''"] file_names_distinct [of "replicate 300 (CC 97)"] by simp
qed

end
