(* ===== verification/V1_Index.thy ===== *)
theory V1_Index
  imports Store
begin

text \<open>
  The index of version 1, \<open>v1/tst.c\<close>: the same ternary tree without deletion and without parent
  links, a data file of key-value records, and a hint file, a text from which \<open>tst_open\<close> builds
  the tree again. Values of up to 8 bytes are kept in the node. The tree is compared with that of
  version 2: the two go through the same nodes, so what is proved of one carries over.
\<close>

section \<open>Data model\<close>

record node_v1 =
  n1_c :: cchar
  n1_small_value_len :: byte
  n1_left :: u32
  n1_mid :: u32
  n1_right :: u32
  n1_value :: u64

text \<open>
  The array, and the files: \<open>v1_file\<close> is the data file, \<open>v1_pos\<close> the position of the handle it is
  read with, \<open>v1_hint\<close> the text of the hint file. What is written can be read at once.
\<close>

record db_v1 =
  v1_root :: u32
  v1_size :: u32
  v1_cap :: u32
  v1_ready :: bool
  v1_data :: "u32 \<Rightarrow> node_v1"
  v1_file :: "byte list"
  v1_pos :: nat
  v1_hint :: cstr

definition new_db_v1 :: "(u32 \<Rightarrow> node_v1) \<Rightarrow> u32 \<Rightarrow> db_v1" where
  "new_db_v1 mem cap =
     \<lparr>v1_root = 0, v1_size = 0, v1_cap = cap, v1_ready = False, v1_data = mem, v1_file = [], v1_pos = 0, v1_hint = []\<rparr>"

definition create_db_v1 :: "(u32 \<Rightarrow> node_v1) \<Rightarrow> db_v1" where
  "create_db_v1 mem = new_db_v1 mem 409600"

definition get_v1 :: "db_v1 \<Rightarrow> u32 \<Rightarrow> node_v1 run" where
  "get_v1 db x = (if x < v1_cap db then ret (v1_data db x) else abort_with Undefined)"

definition set_v1 :: "db_v1 \<Rightarrow> u32 \<Rightarrow> (node_v1 \<Rightarrow> node_v1) \<Rightarrow> db_v1 run" where
  "set_v1 db x f =
     (if x < v1_cap db then ret (db\<lparr>v1_data := (v1_data db)(x := f (v1_data db x))\<rparr>)
      else abort_with Undefined)"

definition zero_v1 :: node_v1 where
  "zero_v1 = \<lparr>n1_c = 0, n1_small_value_len = 0, n1_left = 0, n1_mid = 0, n1_right = 0, n1_value = 0\<rparr>"

section \<open>The tree\<close>

definition ensure_enough_space_v1 :: "(u64 \<Rightarrow> bool) \<Rightarrow> db_v1 \<Rightarrow> db_v1 run" where
  "ensure_enough_space_v1 rl db =
     (if v1_cap db - 1 \<le> v1_size db
      then (if \<not> rl (24 * ucast (v1_cap db) * 2) then abort_with (Exit 1)
            else ret (db\<lparr>v1_cap := v1_cap db * 2\<rparr>))
      else ret db)"

definition new_node_v1 :: "(u64 \<Rightarrow> bool) \<Rightarrow> db_v1 \<Rightarrow> (db_v1 \<times> u32) run" where
  "new_node_v1 rl db =
     run_bind (ensure_enough_space_v1 rl db) (\<lambda>db.
     let db = db\<lparr>v1_size := v1_size db + 1\<rparr> in
     run_bind (set_v1 db (v1_size db) (\<lambda>_. zero_v1)) (\<lambda>db.
     run_bind (set_v1 db (v1_size db) (\<lambda>n. n\<lparr>n1_value := -1\<rparr>)) (\<lambda>db.
     ret (db, v1_size db))))"

partial_function (option) insert_v1 ::
  "(u64 \<Rightarrow> bool) \<Rightarrow> db_v1 \<Rightarrow> u32 \<Rightarrow> cstr \<Rightarrow> u64 \<Rightarrow> nat \<Rightarrow> nat \<Rightarrow> byte \<Rightarrow> (db_v1 \<times> u32) run"
where
  "insert_v1 rl db node s value d len_of_s small_value_len =
     (let c = char_at s d in
      run_bind
        (if node = 0
         then run_bind (new_node_v1 rl db) (\<lambda>(db, x).
              run_bind (set_v1 db x (\<lambda>n. n\<lparr>n1_c := c\<rparr>)) (\<lambda>db. ret (db, x)))
         else ret (db, node)) (\<lambda>(db, x).
      run_bind (get_v1 db x) (\<lambda>nx.
      run_bind
        (if c < n1_c nx
         then run_bind (insert_v1 rl db (n1_left nx) s value d len_of_s small_value_len) (\<lambda>(db, no).
              set_v1 db x (\<lambda>n. n\<lparr>n1_left := no\<rparr>))
         else if n1_c nx < c
         then run_bind (insert_v1 rl db (n1_right nx) s value d len_of_s small_value_len) (\<lambda>(db, no).
              set_v1 db x (\<lambda>n. n\<lparr>n1_right := no\<rparr>))
         else if d < len_of_s - 1
         then run_bind (insert_v1 rl db (n1_mid nx) s value (d + 1) len_of_s small_value_len) (\<lambda>(db, no).
              set_v1 db x (\<lambda>n. n\<lparr>n1_mid := no\<rparr>))
         else run_bind (set_v1 db x (\<lambda>n. n\<lparr>n1_value := value\<rparr>)) (\<lambda>db.
              set_v1 db x (\<lambda>n. n\<lparr>n1_small_value_len := small_value_len\<rparr>))) (\<lambda>db.
      ret (db, x)))))"

partial_function (option) search_v1 :: "db_v1 \<Rightarrow> u32 \<Rightarrow> cstr \<Rightarrow> nat \<Rightarrow> nat \<Rightarrow> u32 run" where
  "search_v1 db node s d len_of_s =
     (if node = 0 then ret 0
      else run_bind (get_v1 db node) (\<lambda>n.
        let c = char_at s d in
        if c < n1_c n then search_v1 db (n1_left n) s d len_of_s
        else if n1_c n < c then search_v1 db (n1_right n) s d len_of_s
        else if d < len_of_s - 1 then search_v1 db (n1_mid n) s (d + 1) len_of_s
        else ret node))"

definition put_v1 :: "(u64 \<Rightarrow> bool) \<Rightarrow> db_v1 \<Rightarrow> cstr \<Rightarrow> u64 \<Rightarrow> byte \<Rightarrow> db_v1 run" where
  "put_v1 rl db key value small_value_len =
     (let len_of_key = length key in
      if len_of_key = 0 then ret db
      else run_bind (insert_v1 rl db (v1_root db) key value 0 len_of_key small_value_len) (\<lambda>(db, root).
           ret (db\<lparr>v1_root := root\<rparr>)))"

definition get_node_v1 :: "db_v1 \<Rightarrow> cstr \<Rightarrow> u32 run" where
  "get_node_v1 db key =
     (let len_of_key = length key in
      if len_of_key = 0 then ret 0 else search_v1 db (v1_root db) key 0 len_of_key)"

section \<open>The same nodes as in version 2\<close>

text \<open>
  \<open>same_tree val db1 db2\<close>: the two arrays have the same nodes and links; where version 2 has a
  value \<open>w\<close>, version 1 has the value and length \<open>val w\<close>, and where version 2 has 0, version 1
  has the -1 of a new node. Version 2 has no free nodes.
\<close>

definition links_alike :: "node_v1 \<Rightarrow> tst_node \<Rightarrow> bool" where
  "links_alike n1 n2 \<longleftrightarrow>
     n1_c n1 = nd_c n2 \<and> n1_left n1 = nd_left n2 \<and> n1_mid n1 = nd_mid n2 \<and> n1_right n1 = nd_right n2"

definition value_alike :: "(u64 \<Rightarrow> u64 \<times> byte) \<Rightarrow> node_v1 \<Rightarrow> tst_node \<Rightarrow> bool" where
  "value_alike val n1 n2 \<longleftrightarrow>
     (n1_value n1, n1_small_value_len n1) = (if nd_value n2 = 0 then (-1, 0) else val (nd_value n2))"

definition same_tree :: "(u64 \<Rightarrow> u64 \<times> byte) \<Rightarrow> db_v1 \<Rightarrow> tst_db \<Rightarrow> bool" where
  "same_tree val db1 db2 \<longleftrightarrow>
     v1_root db1 = db_root db2 \<and> v1_size db1 = db_size db2 \<and> v1_cap db1 = db_cap db2 \<and> db_f_head db2 = 0 \<and>
     (\<forall>x. x \<noteq> 0 \<longrightarrow> links_alike (v1_data db1 x) (db_data db2 x)) \<and>
     (\<forall>x \<in> {1..db_size db2}. value_alike val (v1_data db1 x) (db_data db2 x))"

lemma same_tree_get:
  "same_tree val db1 db2 \<Longrightarrow> x \<noteq> 0 \<Longrightarrow> get_node db2 x = ret n2 \<Longrightarrow>
   \<exists>n1. get_v1 db1 x = ret n1 \<and> links_alike n1 n2"
  by (auto simp: same_tree_def get_node_def get_v1_def split: if_splits)

lemma same_tree_set:
  assumes "same_tree val db1 db2" and "set_node db2 x g = ret db2'"
    and "links_alike (v1_data db1 x) (db_data db2 x) \<Longrightarrow> links_alike (f (v1_data db1 x)) (g (db_data db2 x))"
    and "value_alike val (v1_data db1 x) (db_data db2 x) \<Longrightarrow> value_alike val (f (v1_data db1 x)) (g (db_data db2 x))"
  shows "\<exists>db1'. set_v1 db1 x f = ret db1' \<and> same_tree val db1' db2'"
  using assms by (auto simp: same_tree_def set_node_def set_v1_def split: if_splits)

lemma search_same:
  assumes "same_tree val db1 db2" and "search_loop db2 key n node d = Some r"
  shows "search_v1 db1 node key d n = Some r"
proof -
  have "same_tree val db1 db2 \<longrightarrow> search_v1 db1 node key d n = Some r"
    using assms(2)
  proof (rule search_loop.raw_induct [where P = "\<lambda>db2 key n node d r.
      same_tree val db1 db2 \<longrightarrow> search_v1 db1 node key d n = Some r", rotated])
    fix loop db2 key n node d r
    assume IH: "\<And>db2 key n node d r. loop db2 key n node d = Some r \<Longrightarrow>
        same_tree val db1 db2 \<longrightarrow> search_v1 db1 node key d n = Some r"
      and b: "(if node = 0 then ret 0
      else run_bind (get_node db2 node) (\<lambda>nd.
        let c = char_at key d in
        if c < nd_c nd then loop db2 key n (nd_left nd) d
        else if nd_c nd < c then loop db2 key n (nd_right nd) d
        else if d < n - 1 then loop db2 key n (nd_mid nd) (d + 1)
        else ret node)) = Some r"
    show "same_tree val db1 db2 \<longrightarrow> search_v1 db1 node key d n = Some r"
    proof
      assume s: "same_tree val db1 db2"
      show "search_v1 db1 node key d n = Some r"
      proof (cases "node = 0")
        case True
        then show ?thesis using b by (subst search_v1.simps) simp
      next
        case False
        show ?thesis
        proof (cases "node < db_cap db2")
          case True
          then have "links_alike (v1_data db1 node) (db_data db2 node)" "node < v1_cap db1"
            using s False by (auto simp: same_tree_def)
          then show ?thesis
            using b IH s False True
            by (subst search_v1.simps) (auto simp: get_node_def get_v1_def links_alike_def Let_def split: if_splits)
        next
          case f: False
          then show ?thesis
            using b s False by (subst search_v1.simps) (auto simp: get_node_def get_v1_def same_tree_def)
        qed
      qed
    qed
  qed
  then show ?thesis using assms(1) by simp
qed


lemma same_tree_parent:
  "same_tree val db1 db2 \<Longrightarrow> set_node db2 x (\<lambda>n. n\<lparr>nd_parent := q\<rparr>) = ret db2' \<Longrightarrow> same_tree val db1 db2'"
  by (auto simp: same_tree_def set_node_def links_alike_def value_alike_def split: if_splits)

lemma up_to_next: "(y :: u32) \<in> {1..x + 1} \<Longrightarrow> x + 1 \<noteq> 0 \<Longrightarrow> y = x + 1 \<or> y \<in> {1..x}"
  by (auto simp: word_le_nat_alt unat_word_ariths split: if_splits) (unat_arith+)

lemma ensure_same:
  assumes "same_tree val db1 db2" and "ensure_enough_space rl2 db2 = ret db2'" and "\<forall>b. rl b"
  shows "\<exists>db1'. ensure_enough_space_v1 rl db1 = ret db1' \<and> same_tree val db1' db2' \<and> db_size db2' = db_size db2"
  using assms by (auto simp: ensure_enough_space_def ensure_enough_space_v1_def same_tree_def split: if_splits)

lemma new_node_same:
  assumes s: "same_tree val db1 db2" and n: "new_node rl2 db2 = ret (db2', x)" and rl: "\<forall>b. rl b"
    and sz: "unat (db_size db2) + 1 < 2 ^ 32"
  shows "\<exists>db1'. new_node_v1 rl db1 = ret (db1', x) \<and> same_tree val db1' db2' \<and> x \<noteq> 0 \<and>
    db_size db2' = db_size db2 + 1"
proof -
  have "db_f_head db2 = 0" using s by (simp add: same_tree_def)
  then obtain e2 where e2: "ensure_enough_space rl2 db2 = ret e2" "db_size e2 + 1 < db_cap e2" "x = db_size e2 + 1"
    "db2' = e2\<lparr>db_size := x, db_data := (db_data e2)(x := zero_node)\<rparr>"
    using n by (auto simp: new_node_def run_bind_eq_ret set_node_def Let_def zero_node_def split: if_splits)
  obtain e1 where e1: "ensure_enough_space_v1 rl db1 = ret e1" "same_tree val e1 e2" "db_size e2 = db_size db2"
    using ensure_same [OF s e2(1) rl] by blast
  let ?n = "zero_v1\<lparr>n1_value := -1\<rparr>"
  let ?db1 = "e1\<lparr>v1_size := x, v1_data := (v1_data e1)(x := ?n)\<rparr>"
  have "unat x = unat (db_size db2) + 1"
    unfolding e2(3) e1(3) using sz by (simp add: unat_word_ariths)
  then have x: "x \<noteq> 0" by auto
  have "new_node_v1 rl db1 = ret (?db1, x)"
    using e1(1,2) e2(2,3) by (simp add: new_node_v1_def set_v1_def Let_def same_tree_def)
  moreover have "links_alike ?n zero_node" "value_alike val ?n zero_node"
    by (simp_all add: links_alike_def value_alike_def zero_v1_def zero_node_def)
  then have "same_tree val ?db1 db2'"
    using e1(2) up_to_next [of _ "db_size e2"] x e2(3)
    by (fastforce simp: same_tree_def e2(4))
  ultimately show ?thesis using x e2(3,4) e1(3) by auto
qed

lemma same_tree_set_value:
  assumes "same_tree val db1 db2" and "set_node db2 x (\<lambda>n. n\<lparr>nd_value := w\<rparr>) = ret db2'" and "w \<noteq> 0"
  shows "\<exists>db1'. run_bind (set_v1 db1 x (\<lambda>n. n\<lparr>n1_value := fst (val w)\<rparr>)) (\<lambda>db.
      set_v1 db x (\<lambda>n. n\<lparr>n1_small_value_len := snd (val w)\<rparr>)) = ret db1' \<and> same_tree val db1' db2'"
  using assms by (auto simp: same_tree_def set_node_def set_v1_def links_alike_def value_alike_def split: if_splits)

lemma insert_same:
  assumes "same_tree val db1 db2" and "tst_insert rl2 db2 node s w d n q = ret (db2', x)" and "\<forall>b. rl b"
    and "w \<noteq> 0" and "unat (db_size db2) + (n - d) < 2 ^ 32" and "d < n"
  shows "\<exists>db1'. insert_v1 rl db1 node s (fst (val w)) d n (snd (val w)) = ret (db1', x) \<and> same_tree val db1' db2'"
proof -
  let ?P = "\<lambda>db2 node s w d n (r :: abort + tst_db \<times> u32). \<forall>db1 db2' x. same_tree val db1 db2 \<longrightarrow> r = Inr (db2', x) \<longrightarrow>
    w \<noteq> 0 \<longrightarrow> unat (db_size db2) + (n - d) < 2 ^ 32 \<longrightarrow> d < n \<longrightarrow>
    (\<exists>db1'. insert_v1 rl db1 node s (fst (val w)) d n (snd (val w)) = ret (db1', x) \<and> same_tree val db1' db2')"
  have "?P db2 node s w d n (Inr (db2', x))"
    using assms(2)
  proof (rule tst_insert.raw_induct [where P = "\<lambda>rl2 db2 node s w d n q r. ?P db2 node s w d n r", rotated])
    fix ins rl2 db2 node s w d n q r
    assume IH: "\<And>rl2 db2 node s w d n q r. ins rl2 db2 node s w d n q = Some r \<Longrightarrow> ?P db2 node s w d n r"
      and b: "(let c = char_at s d in
      run_bind
        (if node = 0
         then run_bind (new_node rl2 db2) (\<lambda>(db, x).
              run_bind (set_node db x (\<lambda>n. n\<lparr>nd_c := c\<rparr>)) (\<lambda>db. ret (db, x)))
         else ret (db2, node)) (\<lambda>(db, x).
      run_bind (get_node db x) (\<lambda>nx.
      run_bind
        (if c < nd_c nx
         then run_bind (ins rl2 db (nd_left nx) s w d n x) (\<lambda>(db, no).
              set_node db x (\<lambda>n. n\<lparr>nd_left := no\<rparr>))
         else if nd_c nx < c
         then run_bind (ins rl2 db (nd_right nx) s w d n x) (\<lambda>(db, no).
              set_node db x (\<lambda>n. n\<lparr>nd_right := no\<rparr>))
         else if d < n - 1
         then run_bind (ins rl2 db (nd_mid nx) s w (d + 1) n x) (\<lambda>(db, no).
              set_node db x (\<lambda>n. n\<lparr>nd_mid := no\<rparr>))
         else set_node db x (\<lambda>n. n\<lparr>nd_value := w\<rparr>)) (\<lambda>db.
      run_bind (set_node db x (\<lambda>n. n\<lparr>nd_parent := q\<rparr>)) (\<lambda>db.
      ret (db, x)))))) = Some r"
    show "?P db2 node s w d n r"
    proof (intro allI impI)
      fix db1 db2' x
      assume st: "same_tree val db1 db2" and r: "r = Inr (db2', x)" and w: "w \<noteq> 0"
        and sz: "unat (db_size db2) + (n - d) < 2 ^ 32" and d: "d < n"
      let ?c = "char_at s d"
      obtain m2 y nx k2 where m2: "(if node = 0
         then run_bind (new_node rl2 db2) (\<lambda>(db, x).
              run_bind (set_node db x (\<lambda>n. n\<lparr>nd_c := ?c\<rparr>)) (\<lambda>db. ret (db, x)))
         else ret (db2, node)) = ret (m2, y)" and nx: "get_node m2 y = ret nx"
        and k2: "(if ?c < nd_c nx
         then run_bind (ins rl2 m2 (nd_left nx) s w d n y) (\<lambda>(db, no).
              set_node db y (\<lambda>n. n\<lparr>nd_left := no\<rparr>))
         else if nd_c nx < ?c
         then run_bind (ins rl2 m2 (nd_right nx) s w d n y) (\<lambda>(db, no).
              set_node db y (\<lambda>n. n\<lparr>nd_right := no\<rparr>))
         else if d < n - 1
         then run_bind (ins rl2 m2 (nd_mid nx) s w (d + 1) n y) (\<lambda>(db, no).
              set_node db y (\<lambda>n. n\<lparr>nd_mid := no\<rparr>))
         else set_node m2 y (\<lambda>n. n\<lparr>nd_value := w\<rparr>)) = ret k2"
        and q: "set_node k2 y (\<lambda>n. n\<lparr>nd_parent := q\<rparr>) = ret db2'" and x: "x = y"
        using b [unfolded r Let_def] by (simp only: run_bind_eq_ret split_paired_Ex prod.case) blast
      show "\<exists>db1'. insert_v1 rl db1 node s (fst (val w)) d n (snd (val w)) = ret (db1', x) \<and> same_tree val db1' db2'"
      proof -
        have "\<exists>m1. (if node = 0
           then run_bind (new_node_v1 rl db1) (\<lambda>(db, x).
                run_bind (set_v1 db x (\<lambda>n. n\<lparr>n1_c := ?c\<rparr>)) (\<lambda>db. ret (db, x)))
           else ret (db1, node)) = ret (m1, y) \<and> same_tree val m1 m2 \<and> y \<noteq> 0 \<and>
          (if node = 0 then db_size m2 = db_size db2 + 1 \<and> nd_c nx = ?c else db_size m2 = db_size db2)"
        proof (cases "node = 0")
          case False
          then show ?thesis using m2 st by simp
        next
          case True
          then obtain e2 where e2: "new_node rl2 db2 = ret (e2, y)" "set_node e2 y (\<lambda>n. n\<lparr>nd_c := ?c\<rparr>) = ret m2"
            using m2 by (auto simp: run_bind_eq_ret)
          have "unat (db_size db2) + 1 < 2 ^ 32" using sz d by simp
          then obtain e1 where e1: "new_node_v1 rl db1 = ret (e1, y)" "same_tree val e1 e2" "y \<noteq> 0"
            "db_size e2 = db_size db2 + 1"
            using new_node_same [OF st e2(1) assms(3)] by blast
          obtain m1 where "set_v1 e1 y (\<lambda>n. n\<lparr>n1_c := ?c\<rparr>) = ret m1" "same_tree val m1 m2"
            using same_tree_set [OF e1(2) e2(2), of "\<lambda>n. n\<lparr>n1_c := ?c\<rparr>"]
            by (auto simp: links_alike_def value_alike_def cong: if_cong)
          moreover have "nd_c nx = ?c" "db_size m2 = db_size e2"
            using e2(2) nx by (auto simp: set_node_def get_node_def split: if_splits)
          ultimately show ?thesis using True e1 by simp
        qed
        then obtain m1 where m1: "(if node = 0
           then run_bind (new_node_v1 rl db1) (\<lambda>(db, x).
                run_bind (set_v1 db x (\<lambda>n. n\<lparr>n1_c := ?c\<rparr>)) (\<lambda>db. ret (db, x)))
           else ret (db1, node)) = ret (m1, y)" "same_tree val m1 m2" "y \<noteq> 0"
          "if node = 0 then db_size m2 = db_size db2 + 1 \<and> nd_c nx = ?c else db_size m2 = db_size db2" by blast
        obtain n1 where n1: "get_v1 m1 y = ret n1" "links_alike n1 nx"
          using same_tree_get [OF m1(2,3) nx] by blast
        note L = n1(2) [unfolded links_alike_def]
        have go: "\<exists>k1. run_bind (insert_v1 rl m1 z s (fst (val w)) e n (snd (val w))) (\<lambda>(db, no). set_v1 db y (f no)) = ret k1 \<and>
            same_tree val k1 k2"
          if i: "run_bind (ins rl2 m2 z s w e n y) (\<lambda>(db, no). set_node db y (g no)) = ret k2"
            and h: "unat (db_size m2) + (n - e) < 2 ^ 32" "e < n"
            and fg: "\<And>no a b. links_alike a b \<Longrightarrow> links_alike (f no a) (g no b)"
              "\<And>no a b. value_alike val a b \<Longrightarrow> value_alike val (f no a) (g no b)"
          for z e f g
        proof -
          obtain j2 no where j: "ins rl2 m2 z s w e n y = ret (j2, no)" "set_node j2 y (g no) = ret k2"
            using i by (auto simp: run_bind_eq_ret)
          obtain j1 where j1: "insert_v1 rl m1 z s (fst (val w)) e n (snd (val w)) = ret (j1, no)" "same_tree val j1 j2"
            using IH [OF j(1), rule_format, OF m1(2) refl w h] by blast
          obtain k1 where "set_v1 j1 y (f no) = ret k1" "same_tree val k1 k2"
            using same_tree_set [OF j1(2) j(2), of "f no"] fg by blast
          then show ?thesis using j1(1) by simp
        qed
        have old: "node \<noteq> 0" "unat (db_size m2) + (n - d) < 2 ^ 32" if "?c \<noteq> nd_c nx"
          using m1(4) that sz by (auto split: if_splits)
        have new: "unat (db_size m2) + (n - (d + 1)) < 2 ^ 32" if "d < n - 1"
          using m1(4) that sz by (auto simp: unat_word_ariths split: if_splits)
        have "\<exists>k1. (if ?c < n1_c n1
           then run_bind (insert_v1 rl m1 (n1_left n1) s (fst (val w)) d n (snd (val w))) (\<lambda>(db, no).
                set_v1 db y (\<lambda>n. n\<lparr>n1_left := no\<rparr>))
           else if n1_c n1 < ?c
           then run_bind (insert_v1 rl m1 (n1_right n1) s (fst (val w)) d n (snd (val w))) (\<lambda>(db, no).
                set_v1 db y (\<lambda>n. n\<lparr>n1_right := no\<rparr>))
           else if d < n - 1
           then run_bind (insert_v1 rl m1 (n1_mid n1) s (fst (val w)) (d + 1) n (snd (val w))) (\<lambda>(db, no).
                set_v1 db y (\<lambda>n. n\<lparr>n1_mid := no\<rparr>))
           else run_bind (set_v1 m1 y (\<lambda>n. n\<lparr>n1_value := fst (val w)\<rparr>)) (\<lambda>db.
                set_v1 db y (\<lambda>n. n\<lparr>n1_small_value_len := snd (val w)\<rparr>))) = ret k1 \<and> same_tree val k1 k2"
        proof -
          consider "?c < nd_c nx" | "\<not> ?c < nd_c nx" "nd_c nx < ?c" | "?c = nd_c nx" "d < n - 1" | "?c = nd_c nx" "\<not> d < n - 1"
            by fastforce
          then show ?thesis
          proof cases
            case 1
            then show ?thesis
              using go [of "nd_left nx" d "\<lambda>no n. n\<lparr>nd_left := no\<rparr>" "\<lambda>no n. n\<lparr>n1_left := no\<rparr>"] k2 old d L
              by (simp add: links_alike_def value_alike_def)
          next
            case 2
            then show ?thesis
              using go [of "nd_right nx" d "\<lambda>no n. n\<lparr>nd_right := no\<rparr>" "\<lambda>no n. n\<lparr>n1_right := no\<rparr>"] k2 old d L
              by (simp add: links_alike_def value_alike_def)
          next
            case 3
            then show ?thesis
              using go [of "nd_mid nx" "d + 1" "\<lambda>no n. n\<lparr>nd_mid := no\<rparr>" "\<lambda>no n. n\<lparr>n1_mid := no\<rparr>"] k2 new d L
              by (simp add: links_alike_def value_alike_def)
          next
            case 4
            then have "set_node m2 y (\<lambda>n. n\<lparr>nd_value := w\<rparr>) = ret k2" using k2 by simp
            from same_tree_set_value [OF m1(2) this w] show ?thesis using 4 L by simp
          qed
        qed
        then obtain k1 where k1: "(if ?c < n1_c n1
           then run_bind (insert_v1 rl m1 (n1_left n1) s (fst (val w)) d n (snd (val w))) (\<lambda>(db, no).
                set_v1 db y (\<lambda>n. n\<lparr>n1_left := no\<rparr>))
           else if n1_c n1 < ?c
           then run_bind (insert_v1 rl m1 (n1_right n1) s (fst (val w)) d n (snd (val w))) (\<lambda>(db, no).
                set_v1 db y (\<lambda>n. n\<lparr>n1_right := no\<rparr>))
           else if d < n - 1
           then run_bind (insert_v1 rl m1 (n1_mid n1) s (fst (val w)) (d + 1) n (snd (val w))) (\<lambda>(db, no).
                set_v1 db y (\<lambda>n. n\<lparr>n1_mid := no\<rparr>))
           else run_bind (set_v1 m1 y (\<lambda>n. n\<lparr>n1_value := fst (val w)\<rparr>)) (\<lambda>db.
                set_v1 db y (\<lambda>n. n\<lparr>n1_small_value_len := snd (val w)\<rparr>))) = ret k1" "same_tree val k1 k2" by blast
        have "insert_v1 rl db1 node s (fst (val w)) d n (snd (val w)) = ret (k1, x)"
          using m1(1) n1(1) k1(1) x by (subst insert_v1.simps) (simp add: Let_def)
        then show ?thesis using same_tree_parent [OF k1(2) q] by blast
      qed
    qed
  qed
  then show ?thesis using assms by blast
qed


lemma put_same:
  assumes s: "same_tree val db1 db2" and p: "tst_put rl2 db2 key w = ret db2'" and rl: "\<forall>b. rl b"
    and w: "w \<noteq> 0" and sz: "unat (db_size db2) + length key < 2 ^ 32"
  shows "\<exists>db1'. put_v1 rl db1 key (fst (val w)) (snd (val w)) = ret db1' \<and> same_tree val db1' db2'"
proof (cases "key = []")
  case True
  then show ?thesis using s p by (simp add: put_v1_def tst_put_def)
next
  case False
  then obtain e2 root where e2: "tst_insert rl2 db2 (db_root db2) key w 0 (length key) 0 = ret (e2, root)"
    "db2' = e2\<lparr>db_root := root\<rparr>"
    using p by (auto simp: tst_put_def run_bind_eq_ret Let_def)
  obtain e1 where e1: "insert_v1 rl db1 (db_root db2) key (fst (val w)) 0 (length key) (snd (val w)) = ret (e1, root)"
    "same_tree val e1 e2"
    using insert_same [OF s e2(1) rl w] sz False by auto
  have "v1_root db1 = db_root db2" using s by (simp add: same_tree_def)
  then have "put_v1 rl db1 key (fst (val w)) (snd (val w)) = ret (e1\<lparr>v1_root := root\<rparr>)"
    using e1(1) False by (simp add: put_v1_def)
  moreover have "same_tree val (e1\<lparr>v1_root := root\<rparr>) db2'" using e1(2) by (simp add: same_tree_def e2(2))
  ultimately show ?thesis by blast
qed

lemma get_node_same:
  assumes "same_tree val db1 db2" and "search db2 key = ret x"
  shows "get_node_v1 db1 key = ret x"
proof -
  have "v1_root db1 = db_root db2" using assms(1) by (simp add: same_tree_def)
  then show ?thesis
    using assms(2) search_same [OF assms(1), of key "length key" "db_root db2" 0 "Inr x"]
    by (auto simp: search_def get_node_v1_def Let_def)
qed

text \<open>The node of a key, in both versions.\<close>

lemma node_of_key:
  assumes "same_tree val db1 db2" and "tst_wf db2" and "key \<noteq> []"
  obtains x where "get_node_v1 db1 key = ret x" and "search db2 key = ret x"
    and "x = 0 \<Longrightarrow> view tst_get db2 key = 0"
    and "x \<noteq> 0 \<Longrightarrow> get_v1 db1 x = ret (v1_data db1 x) \<and>
      (n1_value (v1_data db1 x), n1_small_value_len (v1_data db1 x)) =
        (if view tst_get db2 key = 0 then (-1, 0) else val (view tst_get db2 key))"
proof -
  obtain t fs where inv: "tst_inv db2 t fs" using assms(2) by (auto simp: tst_wf_def)
  note I = inv [unfolded tst_inv_def heap_inv_def]
  have s: "search db2 key = ret (root_of (sub t key))" using search_ok [OF inv] .
  let ?x = "root_of (sub t key)"
  have v: "view tst_get db2 key = tlookup t key" using tst_view [OF inv] by simp
  have "tlookup t key = (if ?x = 0 then 0 else nd_value (db_data db2 ?x)) \<and> (?x \<noteq> 0 \<longrightarrow> ?x \<in> addrs t)"
    using I repr_sub [of "db_data db2" "db_root db2" t key] addrs_sub [of t key]
    by (cases "sub t key") (auto simp: tlookup_sub)
  then have x: "tlookup t key = (if ?x = 0 then 0 else nd_value (db_data db2 ?x))" "?x \<noteq> 0 \<Longrightarrow> ?x \<in> addrs t" by simp_all
  have "?x \<in> {1..db_size db2}" if "?x \<noteq> 0" using x(2) [OF that] I by blast
  moreover have "?x < v1_cap db1" if "?x \<noteq> 0"
    using x(2) [OF that] I assms(1) by (auto simp: same_tree_def)
  ultimately show thesis
    using that [of ?x] get_node_same [OF assms(1) s] s assms(1) v x(1)
    by (auto simp: get_v1_def same_tree_def value_alike_def)
qed


section \<open>The entries of the tree\<close>

definition wf_v1 :: "db_v1 \<Rightarrow> bool" where
  "wf_v1 db \<longleftrightarrow> (\<exists>val db2. same_tree val db db2 \<and> tst_wf db2)"

text \<open>What the tree has for a key; the nodes inside have the value -1 of a new node.\<close>

definition entry_v1 :: "db_v1 \<Rightarrow> cstr \<Rightarrow> (u64 \<times> byte) option" where
  "entry_v1 db key =
     (case get_node_v1 db key of
        Some (Inr x) \<Rightarrow>
          (let n = v1_data db x; e = (n1_value n, n1_small_value_len n) in
           if x = 0 \<or> e = (-1, 0) then None else Some e)
      | _ \<Rightarrow> None)"

lemma entry_same:
  assumes "same_tree val db1 db2" and "tst_wf db2" and "key \<noteq> []"
  shows "entry_v1 db1 key =
    (let w = view tst_get db2 key in if w = 0 \<or> val w = (-1, 0) then None else Some (val w))"
proof (rule node_of_key [OF assms])
  fix x
  assume x: "get_node_v1 db1 key = ret x" "x = 0 \<Longrightarrow> view tst_get db2 key = 0"
    "x \<noteq> 0 \<Longrightarrow> get_v1 db1 x = ret (v1_data db1 x) \<and>
      (n1_value (v1_data db1 x), n1_small_value_len (v1_data db1 x)) =
        (if view tst_get db2 key = 0 then (-1, 0) else val (view tst_get db2 key))"
  show ?thesis
  proof (cases "x = 0")
    case True
    then show ?thesis using x(1,2) by (simp add: entry_v1_def)
  next
    case False
    then show ?thesis using x(1,3) unfolding entry_v1_def Let_def x(1) by simp
  qed
qed

lemma entry_node:
  assumes "wf_v1 db" and "key \<noteq> []" and "entry_v1 db key = Some (v, n)"
  obtains x where "get_node_v1 db key = ret x" and "x \<noteq> 0" and "get_v1 db x = ret (v1_data db x)"
    and "n1_value (v1_data db x) = v" and "n1_small_value_len (v1_data db x) = n"
proof -
  obtain val db2 where s: "same_tree val db db2" "tst_wf db2" using assms(1) by (auto simp: wf_v1_def)
  show thesis
  proof (rule node_of_key [OF s assms(2)])
    fix x
    assume x: "get_node_v1 db key = ret x"
      "x \<noteq> 0 \<Longrightarrow> get_v1 db x = ret (v1_data db x) \<and>
        (n1_value (v1_data db x), n1_small_value_len (v1_data db x)) =
          (if view tst_get db2 key = 0 then (-1, 0) else val (view tst_get db2 key))"
    have "x \<noteq> 0 \<and> n1_value (v1_data db x) = v \<and> n1_small_value_len (v1_data db x) = n"
      using assms(3) x(1) by (simp add: entry_v1_def Let_def split: if_splits)
    then show thesis using that x by blast
  qed
qed

text \<open>There is always a value that version 2 does not use yet.\<close>

lemma unused_value: "\<exists>w. w \<noteq> 0 \<and> (\<forall>x. nd_value (db_data db2 x) \<noteq> w)"
proof (rule ccontr)
  assume a: "\<nexists>w. w \<noteq> 0 \<and> (\<forall>x. nd_value (db_data db2 x) \<noteq> w)"
  have "UNIV \<subseteq> insert 0 (range (\<lambda>x. nd_value (db_data db2 x)))" (is "_ \<subseteq> insert 0 ?R")
    using a by blast
  then have "card (UNIV :: u64 set) \<le> card (insert 0 ?R)" by (rule card_mono [rotated]) simp
  also have "\<dots> \<le> Suc (card ?R)" by (rule card_insert_le_m1) (simp_all add: card_gt_0_iff)
  also have "\<dots> \<le> Suc (card (UNIV :: u32 set))" using card_image_le [of "UNIV :: u32 set"] by simp
  finally show False by (simp add: card_word)
qed

lemma same_tree_val:
  assumes "same_tree val db1 db2" and "\<And>x. nd_value (db_data db2 x) \<noteq> w"
  shows "same_tree (val(w := e)) db1 db2"
  using assms by (auto simp: same_tree_def value_alike_def)

text \<open>A new key makes nodes for its prefixes only.\<close>

lemma sub_shape: "sub (shape t) ks = shape (sub t ks)"
  by (induction t ks rule: sub.induct) auto

lemma sub_Lf [simp]: "sub Lf ks = Lf"
  by (cases ks) auto

lemma sub_ins: "sub t k = Lf \<Longrightarrow> \<not> prefix k ks \<Longrightarrow> sub (ins t ks v) k = Lf"
proof (induction t ks v arbitrary: k rule: ins.induct)
  case (2 b ks v)
  then show ?case by (cases k) (auto split: if_splits)
next
  case (3 a c w l m r b ks v)
  show ?case
  proof (cases k)
    case (Cons x xs)
    then show ?thesis
      using 3 by (cases b c rule: linorder_cases; cases x c rule: linorder_cases; cases xs) (auto split: if_splits)
  qed simp
qed simp

lemma root_of_sub:
  assumes "tst_inv db t fs"
  shows "root_of (sub t ks) = 0 \<longleftrightarrow> sub t ks = Lf"
proof -
  have "0 \<notin> addrs t" using assms by (auto simp: tst_inv_def heap_inv_def)
  then show ?thesis using addrs_sub [of t ks] by (cases "sub t ks") auto
qed

lemma get_node_v1_root:
  "same_tree val db db2 \<Longrightarrow> tst_inv db2 t fs \<Longrightarrow> get_node_v1 db k = ret (root_of (sub t k))"
  using get_node_same search_ok by blast

lemma put_v1_ok:
  assumes wf: "wf_v1 db" and key: "key \<noteq> []" "0 \<notin> set key" and rl: "\<forall>b. rl b"
    and sz: "unat (v1_size db) + length key < 2 ^ 31"
  shows "\<exists>db'. put_v1 rl db key v n = ret db' \<and> wf_v1 db' \<and>
    entry_v1 db' key = (if (v, n) = (-1, 0) then None else Some (v, n)) \<and>
    (\<forall>k. k \<noteq> [] \<and> k \<noteq> key \<longrightarrow> entry_v1 db' k = entry_v1 db k) \<and>
    (\<forall>k. get_node_v1 db k = ret 0 \<and> \<not> prefix k key \<longrightarrow> get_node_v1 db' k = ret 0) \<and>
    unat (v1_size db') \<le> unat (v1_size db) + length key"
proof -
  obtain val db2 where s: "same_tree val db db2" "tst_wf db2" using wf by (auto simp: wf_v1_def)
  obtain w where w: "w \<noteq> 0" "\<And>x. nd_value (db_data db2 x) \<noteq> w" using unused_value by blast
  let ?val = "val(w := (v, n))"
  have s': "same_tree ?val db db2" by (rule same_tree_val [OF s(1) w(2)])
  have size: "v1_size db = db_size db2" using s(1) by (simp add: same_tree_def)
  have room: "room (\<lambda>_. True) db2 (length key)" using sz size by (simp add: room_def)
  obtain t fs where inv: "tst_inv db2 t fs" using s(2) by (auto simp: tst_wf_def)
  obtain db2' t' fs' where p: "tst_put (\<lambda>_. True) db2 key w = ret db2'" "tst_wf db2'"
    "unat (db_size db2') \<le> unat (db_size db2) + length key"
    and t': "tst_inv db2' t' fs'" "shape t' = ins (shape t) key w"
    by (rule tst_put_ok [OF inv room key(2), of w]) (simp add: tst_wf_def, blast)
  have view: "view tst_get db2' = (view tst_get db2)(key := w)"
    using node_array.put_law [of db2 "\<lambda>_. True" key 0 w] s(2) room key p(1) by auto
  have "unat (db_size db2) + length key < 2 ^ 32" using sz size by simp
  then obtain db' where d: "put_v1 rl db key v n = ret db'" "same_tree ?val db' db2'"
    using put_same [OF s' p(1) rl w(1)] by auto
  have old: "view tst_get db2 k \<noteq> w" for k
  proof -
    have "view tst_get db2 k = 0 \<or> (\<exists>x. view tst_get db2 k = nd_value (db_data db2 x))"
    proof -
      have "tst_get db2 k = ret (view tst_get db2 k)" using node_array.get_view s(2) by blast
      then show ?thesis
        by (auto simp: tst_get_def run_bind_eq_ret get_node_def Let_def split: if_splits) metis
    qed
    then show ?thesis using w by metis
  qed
  have entry: "entry_v1 db' k = (if k = key then (if (v, n) = (-1, 0) then None else Some (v, n)) else entry_v1 db k)"
    if "k \<noteq> []" for k
    using entry_same [OF d(2) p(2) that] entry_same [OF s that] old [of k] w(1) by (simp add: view Let_def)
  have wf': "wf_v1 db'" using d(2) p(2) by (auto simp: wf_v1_def)
  have size': "unat (v1_size db') \<le> unat (v1_size db) + length key"
    using p(3) d(2) size by (simp add: same_tree_def)
  have none: "get_node_v1 db' k = ret 0" if "get_node_v1 db k = ret 0" "\<not> prefix k key" for k
  proof -
    have "sub t k = Lf"
      using that(1) get_node_v1_root [OF s(1) inv] root_of_sub [OF inv] by simp
    then have "sub (shape t') k = Lf"
      unfolding t'(2) by (intro sub_ins that(2)) (simp only: sub_shape shape_eq_Lf)
    then have "sub t' k = Lf" unfolding sub_shape shape_eq_Lf .
    then show ?thesis using get_node_v1_root [OF d(2) t'(1)] by simp
  qed
  show ?thesis
  proof (intro exI [of _ db'] conjI)
    show "entry_v1 db' key = (if (v, n) = (-1, 0) then None else Some (v, n))"
      using entry [OF key(1)] by simp
    show "\<forall>k. k \<noteq> [] \<and> k \<noteq> key \<longrightarrow> entry_v1 db' k = entry_v1 db k" by (simp add: entry)
    show "\<forall>k. get_node_v1 db k = ret 0 \<and> \<not> prefix k key \<longrightarrow> get_node_v1 db' k = ret 0" using none by blast
  qed (rule d(1) wf' size')+
qed

text \<open>The new tree; version 2 starts on memory like that of version 1.\<close>

lemma create_v1_wf: "wf_v1 (create_db_v1 mem)"
proof -
  let ?n = "\<lambda>m. \<lparr>nd_c = n1_c m, nd_left = n1_left m, nd_mid = n1_mid m, nd_right = n1_right m, nd_parent = 0, nd_value = 0\<rparr>"
  let ?db2 = "create_tst_db (\<lambda>x. ?n (mem x))"
  have "same_tree (\<lambda>_. (0, 0)) (create_db_v1 mem) ?db2"
    by (simp add: same_tree_def create_db_v1_def new_db_v1_def create_tst_db_def new_tst_db_def links_alike_def)
  moreover have "tst_wf ?db2"
    using create_tst_db_sound [of "\<lambda>x. ?n (mem x)"] by (auto simp: tst_wf_def tst_sound_def)
  ultimately show ?thesis by (auto simp: wf_v1_def)
qed

end
