(* ===== verification/V1_Store.thy ===== *)
theory V1_Store
  imports V1_Index
begin

text \<open>
  The operations of \<open>v1/tst.h\<close>: \<open>tst_open\<close>, \<open>tst_put\<close> and \<open>tst_get\<close>. A record of the data
  file is the lengths of key and value, the key and the value; a line of the hint file is the key,
  the length of the value and the offset of its record, or the value itself when it has at most
  8 bytes.
\<close>

section \<open>Opening\<close>

definition magic_number :: i32 where
  "magic_number = 1984"

text \<open>\<open>%u\<close> and \<open>%llu\<close> of \<open>fscanf\<close>: the number, if there is one, and what is left to read.\<close>

definition scan_unsigned :: "cstr \<Rightarrow> u64 option \<times> cstr" where
  "scan_unsigned s =
     (let s = dropWhile is_space s;
          (neg, s) = (case s of
              [] \<Rightarrow> (False, s)
            | c # us \<Rightarrow> if c = CC 45 then (True, us) else if c = CC 43 then (False, us) else (False, s));
          ds = takeWhile is_digit s; z = int (digits_val ds)
      in (if ds = [] then None else Some (to_ull (if neg then - z else z)), dropWhile is_digit s))"

text \<open>
  \<open>fscanf(hint_file_ptr, "%s %u %llu", key_buf, ...)\<close>: its result, what it stored, and the rest
  of the file; \<open>key_buf\<close> has 256 bytes.
\<close>

definition fscanf_hint :: "cstr \<Rightarrow> (int \<times> cstr \<times> u32 \<times> u64 \<times> cstr) run" where
  "fscanf_hint s =
     (let s = dropWhile is_space s; w = takeWhile (\<lambda>c. \<not> is_space c) s; s = dropWhile (\<lambda>c. \<not> is_space c) s in
      if w = [] then ret (-1, [], 0, 0, s)
      else if 256 \<le> length w then abort_with Undefined
      else
        (case scan_unsigned s of
           (None, s) \<Rightarrow> ret (1, w, 0, 0, s)
         | (Some n, s) \<Rightarrow>
           (case scan_unsigned s of
              (None, s) \<Rightarrow> ret (2, w, ucast n, 0, s)
            | (Some v, s) \<Rightarrow> ret (3, w, ucast n, v, s))))"

lemma length_dropWhile_le: "length (dropWhile P s) \<le> length s"
  by (induction s) auto

lemma scan_unsigned_rest:
  assumes "scan_unsigned s = (r, s')"
  shows "length s' \<le> length s"
proof -
  obtain t where t: "dropWhile is_space s = t" by simp
  have "s' = dropWhile is_digit t \<or> s' = dropWhile is_digit (tl t)"
    using assms unfolding scan_unsigned_def Let_def t by (cases t) (auto split: if_splits)
  then have "\<exists>u. s' = dropWhile is_digit u \<and> length u \<le> length t" by fastforce
  then show ?thesis using length_dropWhile_le [of is_space s] length_dropWhile_le le_trans unfolding t by metis
qed

lemma fscanf_hint_rest:
  assumes "fscanf_hint s = ret (ct, w, n, v, s')" and "0 \<le> ct"
  shows "length s' < length s"
proof -
  let ?s = "dropWhile is_space s"
  let ?t = "dropWhile (\<lambda>c. \<not> is_space c) ?s"
  have w: "takeWhile (\<lambda>c. \<not> is_space c) ?s \<noteq> []"
    using assms by (auto simp: fscanf_hint_def Let_def split: if_splits)
  then have "length ?t < length ?s"
    using length_append [of "takeWhile (\<lambda>c. \<not> is_space c) ?s" ?t] by simp
  moreover have "length s' \<le> length ?t"
    using assms w
    by (auto simp: fscanf_hint_def Let_def split: if_splits prod.splits option.splits dest!: scan_unsigned_rest)
  ultimately show ?thesis using length_dropWhile_le [of is_space s] by simp
qed

lemma run_bind_cong [fundef_cong]:
  "m = m' \<Longrightarrow> (\<And>x. m' = ret x \<Longrightarrow> f x = g x) \<Longrightarrow> run_bind m f = run_bind m' g"
  by (cases m') (auto simp: run_bind_def split: sum.split)

text \<open>The comparison with \<open>sizeof(uint64)\<close> is one of unsigned 64-bit numbers.\<close>

definition hint_small :: "u32 \<Rightarrow> byte" where
  "hint_small n = (if (8 :: u64) < scast n then 0 else ucast n)"

function hint_loop :: "(u64 \<Rightarrow> bool) \<Rightarrow> cstr \<Rightarrow> db_v1 \<Rightarrow> db_v1 run" where
  "hint_loop rl s db =
     run_bind (fscanf_hint s) (\<lambda>(ct_read, key_buf, len_of_value, cur, s).
     if ct_read < 0 then ret db
     else if ct_read \<noteq> 3 then hint_loop rl s db
     else
       run_bind (cstr_of (key_buf @ [0])) (\<lambda>key.
       run_bind (put_v1 rl db key cur (hint_small len_of_value)) (\<lambda>db.
       hint_loop rl s db)))"
  by pat_completeness auto

termination
  by (relation "measure (\<lambda>(rl, s, db). length s)") (auto dest: fscanf_hint_rest)

declare hint_loop.simps [simp del]

text \<open>
  \<open>file\<close> is the data file, if there is one, and \<open>hint\<close> the text of the hint file, which is made
  when it does not exist. The files can be opened.
\<close>

definition open_v1 :: "(u64 \<Rightarrow> bool) \<Rightarrow> (u32 \<Rightarrow> node_v1) \<Rightarrow> byte list option \<Rightarrow> cstr \<Rightarrow> db_v1 run" where
  "open_v1 rl mem file hint =
     (let bytes = (case file of None \<Rightarrow> enc32 magic_number | Some f \<Rightarrow> f);
          db = (create_db_v1 mem)\<lparr>v1_file := bytes, v1_hint := hint\<rparr> in
      case read_field 4 dec32 bytes of
        None \<Rightarrow> abort_with Undefined
      | Some (check_number, _) \<Rightarrow>
        if check_number \<noteq> magic_number then abort_with (Exit 1)
        else run_bind (hint_loop rl hint (db\<lparr>v1_pos := 4\<rparr>)) (\<lambda>db. ret (db\<lparr>v1_ready := True\<rparr>)))"

section \<open>Put and get\<close>

definition hint_line :: "cstr \<Rightarrow> u32 \<Rightarrow> u64 \<Rightarrow> cstr" where
  "hint_line key len_of_value v =
     key @ [CC 9] @ print_int (uint len_of_value) @ [CC 9] @ print_int (uint v) @ [CC 10]"

definition record_v1 :: "cstr \<Rightarrow> u32 \<Rightarrow> cchar list \<Rightarrow> byte list" where
  "record_v1 key len_of_value bytes =
     enc32 (of_nat (length key)) @ enc32 len_of_value @ map cc_byte key @ map cc_byte bytes"

definition tst_put_v1 :: "(u64 \<Rightarrow> bool) \<Rightarrow> db_v1 \<Rightarrow> cstr \<Rightarrow> cchar list \<Rightarrow> u32 \<Rightarrow> db_v1 run" where
  "tst_put_v1 rl db key value len_of_value =
     (let old_cur = of_nat (length (v1_file db)); len_of_key = length key in
      if len_of_key = 0 \<or> 255 < len_of_key then ret db
      else if \<not> v1_ready db then ret db
      else
        run_bind (mem_get value 0 (uint len_of_value)) (\<lambda>bytes.
        let db = db\<lparr>v1_file := v1_file db @ record_v1 key len_of_value bytes\<rparr>;
            tmp_value = (if 8 < len_of_value then old_cur else of_nat (le_value (map cc_byte bytes))) in
        run_bind (put_v1 rl db key tmp_value (if 8 < len_of_value then 0 else ucast len_of_value)) (\<lambda>db.
        ret (db\<lparr>v1_hint := v1_hint db @ hint_line key len_of_value tmp_value\<rparr>))))"

text \<open>
  \<open>fseek\<close> to an absolute or a relative position; it refuses a negative one and leaves the position
  as it is. An \<open>fread\<close> of the two lengths that is cut by the end of the file leaves local
  variables without a value.
\<close>

definition seek_to :: "nat \<Rightarrow> int \<Rightarrow> nat" where
  "seek_to pos z = (if z < 0 then pos else nat z)"

definition tst_get_v1 :: "db_v1 \<Rightarrow> cstr \<Rightarrow> cchar list \<Rightarrow> u32 \<Rightarrow> (db_v1 \<times> cchar list \<times> u32) run" where
  "tst_get_v1 db key value len_of_value =
     run_bind (get_node_v1 db key) (\<lambda>node.
     if \<not> v1_ready db then ret (db, value, len_of_value)
     else if node = 0 then ret (db, value, 0)
     else
       run_bind (get_v1 db node) (\<lambda>n.
       if n1_small_value_len n = 0 \<and> n1_value n \<noteq> 0
       then
         let pos = seek_to (v1_pos db) (sint (n1_value n)) in
         (case read_field 4 dec32 (drop pos (v1_file db)) of
            None \<Rightarrow> abort_with Undefined
          | Some (len_of_key, s) \<Rightarrow>
            (case read_field 4 dec32 s of
               None \<Rightarrow> abort_with Undefined
             | Some (len, _) \<Rightarrow>
               let pos = seek_to (pos + 8) (int (pos + 8) + sint (len_of_key :: i32));
                   bytes = map CC (take (unat (scast (len :: i32) :: u64)) (drop pos (v1_file db))) in
               run_bind (mem_put value 0 bytes) (\<lambda>value.
               ret (db\<lparr>v1_pos := pos + length bytes\<rparr>, value, len))))
       else
         let len = (scast (n1_small_value_len n) :: u32) in
         if 8 < len then abort_with Undefined
         else run_bind (mem_put value 0 (map CC (take (unat len) (le_bytes 8 (unat (n1_value n)))))) (\<lambda>value.
              ret (db, value, len))))"


text \<open>What is on the disk after \<open>tst_close\<close>; the memory is given back.\<close>

definition tst_close_v1 :: "db_v1 \<Rightarrow> byte list \<times> cstr" where
  "tst_close_v1 db = (v1_file db, v1_hint db)"

section \<open>What the store says\<close>

definition record_at_v1 :: "byte list \<Rightarrow> nat \<Rightarrow> cchar list option" where
  "record_at_v1 file off =
     (let s = drop off file; k = dec32 (take 4 s); n = dec32 (take 4 (drop 4 s)) in
      if 8 \<le> length s \<and> 0 \<le> sint k \<and> 0 \<le> sint n \<and> 8 + nat (sint k) + nat (sint n) \<le> length s
      then Some (map CC (take (nat (sint n)) (drop (8 + nat (sint k)) s))) else None)"

text \<open>The value of a node, and what is asked of the nodes: a length of at most 8, or the offset of a record.\<close>

fun entry_value :: "byte list \<Rightarrow> u64 \<times> byte \<Rightarrow> cchar list option" where
  "entry_value file (v, n) =
     (if n = 0 then (if v = 0 then None else record_at_v1 file (unat v))
      else Some (map CC (take (unat n) (le_bytes 8 (unat v)))))"

fun entry_good :: "byte list \<Rightarrow> u64 \<times> byte \<Rightarrow> bool" where
  "entry_good file (v, n) \<longleftrightarrow> n \<le> 8 \<and>
     (n = 0 \<and> v \<noteq> 0 \<longrightarrow> unat v < 2 ^ 63 \<and> record_at_v1 file (unat v) \<noteq> None)"

definition value_v1 :: "db_v1 \<Rightarrow> cstr \<Rightarrow> cchar list option" where
  "value_v1 db key = Option.bind (entry_v1 db key) (entry_value (v1_file db))"

definition inv_v1 :: "db_v1 \<Rightarrow> bool" where
  "inv_v1 db \<longleftrightarrow> wf_v1 db \<and> v1_ready db \<and>
     (\<forall>key e. key \<noteq> [] \<and> entry_v1 db key = Some e \<longrightarrow> entry_good (v1_file db) e)"

lemma record_at_v1_append: "record_at_v1 f off \<noteq> None \<Longrightarrow> record_at_v1 (f @ rest) off = record_at_v1 f off"
proof -
  assume r: "record_at_v1 f off \<noteq> None"
  obtain s where s: "drop off f = s" by simp
  have l: "8 \<le> length s" using r by (auto simp: record_at_v1_def Let_def s split: if_splits)
  then have "drop off (f @ rest) = s @ rest" by (auto simp flip: s)
  then show ?thesis
    using r l unfolding record_at_v1_def Let_def s by (auto split: if_splits)
qed

lemma record_at_v1_end:
  assumes "length key < 2 ^ 31" and "length bytes = unat n" and "unat n < 2 ^ 31"
  shows "record_at_v1 (f @ record_v1 key n bytes) (length f) = Some bytes"
proof -
  have n: "nat (sint n) = length bytes" "0 \<le> sint n"
    using assms(2,3) len_of_nat [of "unat n"] by simp_all
  have k: "nat (sint (of_nat (length key) :: i32)) = length key" "0 \<le> sint (of_nat (length key) :: i32)"
    using len_of_nat [OF assms(1)] by simp_all
  show ?thesis
    using n k by (simp add: record_at_v1_def record_v1_def Let_def int32.enc_length int32.dec_enc comp_def)
qed

lemma le_bytes_of_value: "length bs \<le> n \<Longrightarrow> take (length bs) (le_bytes n (le_value bs)) = bs"
proof (induction bs arbitrary: n)
  case (Cons b bs)
  obtain m where m: "n = Suc m" using Cons.prems by (cases n) auto
  have b: "unat b < 256" using unsigned_less [of b, where ?'a = nat] by simp
  have "(unat b + 256 * le_value bs) mod 256 = unat b" "(unat b + 256 * le_value bs) div 256 = le_value bs"
    using b by simp_all
  then show ?case using Cons m by simp
qed simp

lemma le_value_bound: "le_value bs < 256 ^ length bs"
proof (induction bs)
  case (Cons b bs)
  have "unat b < 256" using unsigned_less [of b, where ?'a = nat] by simp
  then have "le_value (b # bs) < 256 * Suc (le_value bs)" by simp
  also have "\<dots> \<le> 256 * 256 ^ length bs" using Cons by (intro mult_le_mono2) simp
  finally show ?case by simp
qed simp

lemma small_value:
  assumes "length bs \<le> 8"
  shows "take (length bs) (le_bytes 8 (unat (of_nat (le_value bs) :: u64))) = bs"
proof -
  have "le_value bs < 256 ^ 8" using le_value_bound [of bs] assms
    by (metis less_le_trans one_le_numeral power_increasing)
  then have "unat (of_nat (le_value bs) :: u64) = le_value bs"
    by (simp add: unat_of_nat take_bit_nat_eq_self)
  then show ?thesis using le_bytes_of_value [OF assms] by simp
qed

lemma entry_value_append:
  "entry_good file e \<Longrightarrow> entry_value (file @ rest) e = entry_value file e \<and> entry_good (file @ rest) e"
  by (cases e) (auto simp: record_at_v1_append)

section \<open>The files stay with the tree\<close>

definition same_files :: "db_v1 \<Rightarrow> db_v1 \<Rightarrow> bool" where
  "same_files db db' \<longleftrightarrow> v1_file db' = v1_file db \<and> v1_hint db' = v1_hint db \<and> v1_pos db' = v1_pos db \<and>
     v1_ready db' = v1_ready db"

lemma same_files_refl [simp]: "same_files db db"
  by (simp add: same_files_def)

lemma same_files_trans: "same_files db db' \<Longrightarrow> same_files db' db'' \<Longrightarrow> same_files db db''"
  by (simp add: same_files_def)

lemma set_v1_files: "set_v1 db x f = ret db' \<Longrightarrow> same_files db db'"
  by (auto simp: set_v1_def same_files_def split: if_splits)

lemma new_node_v1_files: "new_node_v1 rl db = ret (db', x) \<Longrightarrow> same_files db db'"
  by (auto simp: new_node_v1_def ensure_enough_space_v1_def run_bind_eq_ret Let_def set_v1_def same_files_def
      split: if_splits)

lemma insert_v1_files:
  assumes "insert_v1 rl db node s v d n k = ret (db', x)"
  shows "same_files db db'"
proof -
  have "\<forall>db' x. r = Inr (db', x) \<longrightarrow> same_files db db'" if "insert_v1 rl db node s v d n k = Some r" for r
    using that
  proof (rule insert_v1.raw_induct [where P = "\<lambda>rl db node s v d n k r.
      \<forall>db' x. r = Inr (db', x) \<longrightarrow> same_files db db'", rotated])
    fix ins rl db node s v d n k r
    assume IH: "\<And>rl db node s v d n k r. ins rl db node s v d n k = Some r \<Longrightarrow>
        \<forall>db' x. r = Inr (db', x) \<longrightarrow> same_files db db'"
      and b: "(let c = char_at s d in
      run_bind
        (if node = 0
         then run_bind (new_node_v1 rl db) (\<lambda>(db, x).
              run_bind (set_v1 db x (\<lambda>n. n\<lparr>n1_c := c\<rparr>)) (\<lambda>db. ret (db, x)))
         else ret (db, node)) (\<lambda>(db, x).
      run_bind (get_v1 db x) (\<lambda>nx.
      run_bind
        (if c < n1_c nx
         then run_bind (ins rl db (n1_left nx) s v d n k) (\<lambda>(db, no).
              set_v1 db x (\<lambda>n. n\<lparr>n1_left := no\<rparr>))
         else if n1_c nx < c
         then run_bind (ins rl db (n1_right nx) s v d n k) (\<lambda>(db, no).
              set_v1 db x (\<lambda>n. n\<lparr>n1_right := no\<rparr>))
         else if d < n - 1
         then run_bind (ins rl db (n1_mid nx) s v (d + 1) n k) (\<lambda>(db, no).
              set_v1 db x (\<lambda>n. n\<lparr>n1_mid := no\<rparr>))
         else run_bind (set_v1 db x (\<lambda>n. n\<lparr>n1_value := v\<rparr>)) (\<lambda>db.
              set_v1 db x (\<lambda>n. n\<lparr>n1_small_value_len := k\<rparr>))) (\<lambda>db.
      ret (db, x))))) = Some r"
    show "\<forall>db' x. r = Inr (db', x) \<longrightarrow> same_files db db'"
    proof (intro allI impI)
      fix db' x
      assume r: "r = Inr (db', x)"
      let ?c = "char_at s d"
      obtain m y nx k2 where m: "(if node = 0
         then run_bind (new_node_v1 rl db) (\<lambda>(db, x).
              run_bind (set_v1 db x (\<lambda>n. n\<lparr>n1_c := ?c\<rparr>)) (\<lambda>db. ret (db, x)))
         else ret (db, node)) = ret (m, y)" and nx: "get_v1 m y = ret nx" and k: "(if ?c < n1_c nx
         then run_bind (ins rl m (n1_left nx) s v d n k) (\<lambda>(db, no).
              set_v1 db y (\<lambda>n. n\<lparr>n1_left := no\<rparr>))
         else if n1_c nx < ?c
         then run_bind (ins rl m (n1_right nx) s v d n k) (\<lambda>(db, no).
              set_v1 db y (\<lambda>n. n\<lparr>n1_right := no\<rparr>))
         else if d < n - 1
         then run_bind (ins rl m (n1_mid nx) s v (d + 1) n k) (\<lambda>(db, no).
              set_v1 db y (\<lambda>n. n\<lparr>n1_mid := no\<rparr>))
         else run_bind (set_v1 m y (\<lambda>n. n\<lparr>n1_value := v\<rparr>)) (\<lambda>db.
              set_v1 db y (\<lambda>n. n\<lparr>n1_small_value_len := k\<rparr>))) = ret k2" and e: "k2 = db'"
        using b [unfolded r Let_def] by (simp only: run_bind_eq_ret split_paired_Ex prod.case option.inject sum.inject Pair_inject) blast
      have f1: "same_files db m"
        using m new_node_v1_files set_v1_files same_files_trans
        by (auto simp: run_bind_eq_ret split: if_splits) blast
      have go: "same_files m k2"
        if i: "run_bind (ins rl m z s v d' n k) (\<lambda>(db, no). set_v1 db y (f no)) = ret k2" for z d' f
      proof -
        obtain m' no where "ins rl m z s v d' n k = ret (m', no)" "set_v1 m' y (f no) = ret k2"
          using i by (auto simp: run_bind_eq_ret)
        then show ?thesis using IH set_v1_files same_files_trans by blast
      qed
      have f2: "same_files m k2"
      proof (cases "?c < n1_c nx \<or> n1_c nx < ?c \<or> d < n - 1")
        case True
        then show ?thesis using k by (auto split: if_split_asm intro!: go)
      next
        case False
        then show ?thesis using k by (auto simp: run_bind_eq_ret dest!: set_v1_files elim: same_files_trans)
      qed
      show "same_files db db'" using same_files_trans [OF f1 f2] e by simp
    qed
  qed
  then show ?thesis using assms by blast
qed

lemma put_v1_files: "put_v1 rl db key v n = ret db' \<Longrightarrow> same_files db db'"
  by (auto simp: put_v1_def Let_def run_bind_eq_ret same_files_def dest!: insert_v1_files split: if_splits)

text \<open>The tree is looked at through the array only.\<close>

definition same_array :: "db_v1 \<Rightarrow> db_v1 \<Rightarrow> bool" where
  "same_array db db' \<longleftrightarrow> v1_root db' = v1_root db \<and> v1_size db' = v1_size db \<and> v1_cap db' = v1_cap db \<and>
     v1_data db' = v1_data db"

lemma search_v1_array:
  assumes "same_array db db'" and "search_v1 db node s d n = Some r"
  shows "search_v1 db' node s d n = Some r"
proof -
  have "same_array db db' \<longrightarrow> search_v1 db' node s d n = Some r"
    using assms(2)
  proof (rule search_v1.raw_induct [where P = "\<lambda>db node s d n r. same_array db db' \<longrightarrow> search_v1 db' node s d n = Some r",
      rotated])
    fix loop db node s d n r
    assume IH: "\<And>db node s d n r. loop db node s d n = Some r \<Longrightarrow>
        same_array db db' \<longrightarrow> search_v1 db' node s d n = Some r"
      and b: "(if node = 0 then ret 0
      else run_bind (get_v1 db node) (\<lambda>nx.
        let c = char_at s d in
        if c < n1_c nx then loop db (n1_left nx) s d n
        else if n1_c nx < c then loop db (n1_right nx) s d n
        else if d < n - 1 then loop db (n1_mid nx) s (d + 1) n
        else ret node)) = Some r"
    show "same_array db db' \<longrightarrow> search_v1 db' node s d n = Some r"
    proof
      assume a: "same_array db db'"
      then have "get_v1 db' node = get_v1 db node" by (simp add: same_array_def get_v1_def)
      then show "search_v1 db' node s d n = Some r"
        using b IH a by (subst search_v1.simps) (auto simp: get_v1_def Let_def split: if_splits)
    qed
  qed
  then show ?thesis using assms(1) by simp
qed

lemma same_array_sym: "same_array db db' \<Longrightarrow> same_array db' db"
  by (simp add: same_array_def)

lemma get_node_v1_array:
  assumes "same_array db db'"
  shows "get_node_v1 db' key = get_node_v1 db key"
proof -
  have "search_v1 db' (v1_root db) key 0 (length key) = search_v1 db (v1_root db) key 0 (length key)"
    using search_v1_array [OF assms] search_v1_array [OF same_array_sym [OF assms]]
    by (metis option.exhaust)
  then show ?thesis using assms by (simp add: get_node_v1_def same_array_def)
qed

lemma entry_v1_array: "same_array db db' \<Longrightarrow> entry_v1 db' = entry_v1 db"
  unfolding entry_v1_def by (rule ext) (simp only: get_node_v1_array, simp only: same_array_def)

lemma wf_v1_array:
  assumes "same_array db db'" and "wf_v1 db"
  shows "wf_v1 db'"
proof -
  have "same_tree val db' db2" if "same_tree val db db2" for val db2
    using that assms(1) by (simp add: same_tree_def same_array_def)
  then show ?thesis using assms(2) by (auto simp: wf_v1_def)
qed

lemma entry_files [simp]:
  "entry_v1 (db\<lparr>v1_file := f\<rparr>) = entry_v1 db" "entry_v1 (db\<lparr>v1_hint := h\<rparr>) = entry_v1 db"
  "entry_v1 (db\<lparr>v1_pos := p\<rparr>) = entry_v1 db" "entry_v1 (db\<lparr>v1_ready := b\<rparr>) = entry_v1 db"
  by (rule entry_v1_array, simp add: same_array_def)+

lemma wf_files:
  "wf_v1 db \<Longrightarrow> wf_v1 (db\<lparr>v1_file := f\<rparr>)" "wf_v1 db \<Longrightarrow> wf_v1 (db\<lparr>v1_hint := h\<rparr>)"
  "wf_v1 db \<Longrightarrow> wf_v1 (db\<lparr>v1_pos := p\<rparr>)" "wf_v1 db \<Longrightarrow> wf_v1 (db\<lparr>v1_ready := b\<rparr>)"
  by (erule wf_v1_array [rotated], simp add: same_array_def)+

end
