(* ===== verification/V1_Ok.thy ===== *)
theory V1_Ok
  imports V1_Store
begin

text \<open>
  The contracts of version 1: what \<open>tst_put\<close> does to the tree and the files, what \<open>tst_get\<close>
  answers from them, and that the lines of the hint file, read again, do to a new tree what the
  puts did.
\<close>

section \<open>Put_v1\<close>

text \<open>The two tests for a small value agree.\<close>

lemma small_of_put:
  assumes "unat n < 2 ^ 31"
  shows "(if 8 < n then 0 else ucast n) = hint_small n"
proof -
  have h: "nat (sint n) = unat n" "0 \<le> sint n" using len_of_nat [OF assms] by simp_all
  have "sint n = int (unat n)" unfolding h(1) [symmetric] using h(2) by simp
  then have "(scast n :: u64) = of_nat (unat n)" by (simp only: scast_eq of_int_of_nat_eq)
  then have "unat (scast n :: u64) = unat n mod 2 ^ LENGTH(64)" by (simp only: unat_of_nat)
  also have "\<dots> = unat n" using assms by simp
  finally show ?thesis by (simp add: hint_small_def word_less_nat_alt)
qed

lemma tst_put_v1_ok:
  assumes inv: "inv_v1 db" and key: "key \<noteq> []" "length key \<le> 255" "0 \<notin> set key" and rl: "\<forall>b. rl b"
    and sz: "unat (v1_size db) + length key < 2 ^ 31"
    and fl: "0 < length (v1_file db)" "length (v1_file db) < 2 ^ 63"
    and n: "unat n \<le> length value" "unat n < 2 ^ 31"
  shows "\<exists>db' v. tst_put_v1 rl db key value n = ret db' \<and> inv_v1 db' \<and>
    v1_file db' = v1_file db @ record_v1 key n (take (unat n) value) \<and>
    v1_hint db' = v1_hint db @ hint_line key n v \<and> entry_v1 db' key = Some (v, hint_small n) \<and>
    (\<forall>k. k \<noteq> [] \<and> k \<noteq> key \<longrightarrow> entry_v1 db' k = entry_v1 db k) \<and>
    entry_value (v1_file db') (v, hint_small n) = (if n = 0 then None else Some (take (unat n) value)) \<and>
    (\<forall>k. get_node_v1 db k = ret 0 \<and> \<not> prefix k key \<longrightarrow> get_node_v1 db' k = ret 0) \<and>
    unat (v1_size db') \<le> unat (v1_size db) + length key"
proof -
  let ?bytes = "take (unat n) value"
  let ?cur = "of_nat (length (v1_file db)) :: u64"
  let ?v = "if 8 < n then ?cur else of_nat (le_value (map cc_byte ?bytes))"
  let ?m = "hint_small n"
  let ?file = "v1_file db @ record_v1 key n ?bytes"
  let ?db = "db\<lparr>v1_file := ?file\<rparr>"
  have I: "wf_v1 db" "v1_ready db" and good: "\<And>k e. k \<noteq> [] \<Longrightarrow> entry_v1 db k = Some e \<Longrightarrow> entry_good (v1_file db) e"
    using inv by (auto simp: inv_v1_def)
  have len: "length ?bytes = unat n" using n(1) by simp
  have cur: "unat ?cur = length (v1_file db)"
    using fl(2) by (simp add: unat_of_nat take_bit_nat_eq_self)
  have at: "record_at_v1 ?file (length (v1_file db)) = Some ?bytes"
    by (rule record_at_v1_end) (use key(2) len n(2) in auto)
  have m: "unat ?m = unat n" "?m \<le> 8" "?m = 0 \<longleftrightarrow> n = 0" if "\<not> 8 < n"
  proof -
    show m: "unat ?m = unat n"
      using that by (auto simp: word_less_nat_alt unsigned_ucast_eq take_bit_nat_eq_self simp flip: small_of_put [OF n(2)])
    show "?m \<le> 8" using that m by (simp add: word_le_nat_alt word_less_nat_alt)
    show "?m = 0 \<longleftrightarrow> n = 0" using m by (metis unat_eq_0)
  qed
  have val: "entry_value ?file (?v, ?m) = (if n = 0 then None else Some ?bytes) \<and> entry_good ?file (?v, ?m)"
  proof (cases "8 < n")
    case True
    then have "?m = 0" "n \<noteq> 0" by (auto simp flip: small_of_put [OF n(2)])
    moreover have "?cur \<noteq> 0" using cur fl(1) by (metis length_greater_0_conv unat_0 less_irrefl)
    ultimately show ?thesis using True at cur fl(2) by simp
  next
    case False
    then have "unat n \<le> 8" by (simp add: word_less_nat_alt)
    have "?v = 0" if "n = 0" using that by simp
    moreover have "map CC (take (unat ?m) (le_bytes 8 (unat ?v))) = ?bytes"
      using False small_value [of "map cc_byte ?bytes"] len \<open>unat n \<le> 8\<close> by (simp add: m [OF False] comp_def)
    ultimately show ?thesis using m [OF False] by simp
  qed
  have nz: "(?v, ?m) \<noteq> (-1, 0)"
  proof
    assume a: "(?v, ?m) = (-1, 0)"
    show False
    proof (cases "8 < n")
      case True
      then have "unat ?cur = unat (-1 :: u64)" using a by simp
      moreover have "unat (-1 :: u64) = 2 ^ 64 - 1" by (simp add: unsigned_minus_1_eq_mask mask_eq_exp_minus_1)
      ultimately show False using cur fl(2) by simp
    next
      case False
      then have "n = 0" using m(3) a by simp
      then show False using a by simp
    qed
  qed
  obtain db2 where p: "put_v1 rl ?db key ?v ?m = ret db2" "wf_v1 db2"
    "entry_v1 db2 key = Some (?v, ?m)" "\<forall>k. k \<noteq> [] \<and> k \<noteq> key \<longrightarrow> entry_v1 db2 k = entry_v1 db k"
    "\<forall>k. get_node_v1 ?db k = ret 0 \<and> \<not> prefix k key \<longrightarrow> get_node_v1 db2 k = ret 0"
    "unat (v1_size db2) \<le> unat (v1_size db) + length key"
    using put_v1_ok [OF wf_files(1) [OF I(1)] key(1,3) rl, of ?file ?v ?m] sz nz by auto
  have files: "same_files ?db db2" by (rule put_v1_files [OF p(1)])
  let ?db' = "db2\<lparr>v1_hint := v1_hint db @ hint_line key n ?v\<rparr>"
  have run: "tst_put_v1 rl db key value n = ret ?db'"
    using p(1) key I(2) n files
    by (simp add: tst_put_v1_def mem_get_def small_of_put [OF n(2)] same_files_def Let_def)
  have file': "v1_file db2 = ?file" "v1_ready db2" using files I(2) by (simp_all add: same_files_def)
  have "entry_good ?file e" if "k \<noteq> []" "entry_v1 db2 k = Some e" for k e
  proof (cases "k = key")
    case True
    then have "e = (?v, ?m)" using p(3) that(2) by (metis option.inject)
    then show ?thesis using val by blast
  next
    case False
    then have "entry_v1 db k = Some e" using p(4) that by simp
    then show ?thesis using good [OF that(1)] entry_value_append by blast
  qed
  then have "inv_v1 ?db'" using p(2) file' by (auto simp: inv_v1_def wf_files simp del: entry_good.simps)
  moreover have "get_node_v1 ?db' k = get_node_v1 db2 k" "get_node_v1 ?db k = get_node_v1 db k" for k
    by (rule get_node_v1_array, simp add: same_array_def)+
  ultimately show ?thesis
    using run p(3-6) val file' by (intro exI [of _ ?db'] exI [of _ ?v]) simp
qed

section \<open>Get\<close>

lemma scast_small: "unat (n :: byte) \<le> 8 \<Longrightarrow> unat (scast n :: u32) = unat n"
proof -
  assume "unat n \<le> 8"
  then have "unat n \<in> {0, 1, 2, 3, 4, 5, 6, 7, 8}" by auto
  then have "n \<in> {0, 1, 2, 3, 4, 5, 6, 7, 8}" by (auto dest: arg_cong [where f = "of_nat :: nat \<Rightarrow> byte"])
  then show ?thesis by auto
qed

lemma scast_nat: "0 \<le> sint (n :: i32) \<Longrightarrow> unat (scast n :: u64) = nat (sint n)"
proof -
  assume n: "0 \<le> sint n"
  have "sint n < 2 ^ 31" using sint_lt [of n] by simp
  then have "nat (sint n) < 2 ^ 64" by simp
  moreover have "(scast n :: u64) = of_nat (nat (sint n))" by (simp only: scast_eq of_nat_nat [OF n])
  then have "unat (scast n :: u64) = nat (sint n) mod 2 ^ LENGTH(64)" by (simp only: unat_of_nat)
  ultimately show ?thesis by simp
qed

lemma sint_of_nat: "n < 2 ^ 63 \<Longrightarrow> sint (of_nat n :: u64) = int n"
  by (simp add: signed_of_nat signed_take_bit_int_eq_self)

lemma sint_below: "unat (v :: u64) < 2 ^ 63 \<Longrightarrow> sint v = int (unat v)"
  using sint_of_nat [of "unat v"] by simp

lemma seek_to_forward: "seek_to p (int a) = a" "0 \<le> z \<Longrightarrow> seek_to p (int a + z) = a + nat z"
  by (simp_all add: seek_to_def nat_add_distrib)

text \<open>The read of a record, from wherever the first \<open>fseek\<close> went.\<close>

lemma tst_get_v1_record:
  assumes x: "get_node_v1 db key = ret x" "x \<noteq> 0" "get_v1 db x = ret (v1_data db x)"
    and v: "n1_value (v1_data db x) \<noteq> 0" "n1_small_value_len (v1_data db x) = 0" and ready: "v1_ready db"
    and off: "seek_to (v1_pos db) (sint (n1_value (v1_data db x))) = off"
    and w: "record_at_v1 (v1_file db) off = Some w" and buf: "length w \<le> length buf"
  shows "\<exists>p. tst_get_v1 db key buf l = ret (db\<lparr>v1_pos := p\<rparr>, w @ drop (length w) buf, of_nat (length w))"
proof -
  let ?s = "drop off (v1_file db)"
  let ?k = "dec32 (take 4 ?s)" and ?n = "dec32 (take 4 (drop 4 ?s))"
  have r: "8 \<le> length ?s" "0 \<le> sint ?k" "0 \<le> sint ?n" "8 + nat (sint ?k) + nat (sint ?n) \<le> length ?s"
    "w = map CC (take (nat (sint ?n)) (drop (8 + nat (sint ?k)) ?s))"
    using w by (auto simp: record_at_v1_def Let_def split: if_splits)
  have len: "length w = nat (sint ?n)" using r(4) unfolding r(5) by simp
  have n: "(of_nat (length w) :: u32) = ?n" unfolding len using r(3) by simp
  let ?pos = "off + 8 + nat (sint ?k)"
  have "read_field 4 dec32 ?s = Some (?k, drop 4 ?s)" "read_field 4 dec32 (drop 4 ?s) = Some (?n, drop 8 ?s)"
    using r(1) by (simp_all add: read_field_def)
  moreover have "seek_to (off + 8) (int (off + 8) + sint ?k) = ?pos"
    by (rule seek_to_forward(2) [OF r(2)])
  moreover have "map CC (take (unat (scast ?n :: u64)) (drop ?pos (v1_file db))) = w"
    unfolding scast_nat [OF r(3)] r(5) by (simp only: drop_drop add.assoc add.commute add.left_commute)
  ultimately have "tst_get_v1 db key buf l = ret (db\<lparr>v1_pos := ?pos + length w\<rparr>, w @ drop (length w) buf, of_nat (length w))"
    using x v ready off buf n by (simp add: tst_get_v1_def mem_put_def Let_def del: length_map length_take)
  then show ?thesis by blast
qed

lemma tst_get_v1_value:
  assumes inv: "inv_v1 db" and key: "key \<noteq> []" and w: "value_v1 db key = Some w" and buf: "length w \<le> length buf"
  shows "\<exists>p. tst_get_v1 db key buf l = ret (db\<lparr>v1_pos := p\<rparr>, w @ drop (length w) buf, of_nat (length w))"
proof -
  obtain v n where e: "entry_v1 db key = Some (v, n)" and w': "entry_value (v1_file db) (v, n) = Some w"
    using w by (auto simp: value_v1_def bind_eq_Some_conv simp del: entry_value.simps)
  have I: "wf_v1 db" "v1_ready db" and good: "entry_good (v1_file db) (v, n)"
    using inv e key by (auto simp: inv_v1_def simp del: entry_good.simps)
  obtain x where x: "get_node_v1 db key = ret x" "x \<noteq> 0" "get_v1 db x = ret (v1_data db x)"
    "n1_value (v1_data db x) = v" "n1_small_value_len (v1_data db x) = n"
    using entry_node [OF I(1) key e] by blast
  show ?thesis
  proof (cases "n = 0")
    case False
    then have w: "w = map CC (take (unat n) (le_bytes 8 (unat v)))" and n: "unat n \<le> 8"
      using w' good by (simp_all add: word_le_nat_alt)
    then have "length w = unat n" by simp
    then have l: "unat (scast n :: u32) = length w" using scast_small [OF n] by metis
    then have l': "(of_nat (length w) :: u32) = scast n" by (metis of_nat_unat ucast_id)
    have "\<not> 8 < (scast n :: u32)" unfolding word_less_nat_alt scast_small [OF n] using n by simp
    then have "tst_get_v1 db key buf l = ret (db, w @ drop (length w) buf, of_nat (length w))"
      using x I(2) False buf l l' w n by (simp add: tst_get_v1_def mem_put_def Let_def min.absorb2)
    then show ?thesis by (intro exI [of _ "v1_pos db"]) simp
  next
    case True
    then have v: "v \<noteq> 0" "record_at_v1 (v1_file db) (unat v) = Some w" "unat v < 2 ^ 63"
      using w' good by (auto split: if_splits)
    have "seek_to (v1_pos db) (sint v) = unat v"
      unfolding sint_below [OF v(3)] by (rule seek_to_forward)
    then show ?thesis
      by (intro tst_get_v1_record [OF x(1,2,3) _ _ I(2) _ v(2) buf]) (use x True v(1) in auto)
  qed
qed

lemma tst_get_v1_none:
  assumes inv: "inv_v1 db" and key: "key \<noteq> []" and "get_node_v1 db key = ret 0 \<or> entry_v1 db key = Some (0, 0)"
  shows "tst_get_v1 db key buf l = ret (db, buf, 0)"
  using assms(3)
proof
  assume "get_node_v1 db key = ret 0"
  then show ?thesis using inv by (simp add: tst_get_v1_def inv_v1_def)
next
  assume "entry_v1 db key = Some (0, 0)"
  moreover have "wf_v1 db" "v1_ready db" using inv by (simp_all add: inv_v1_def)
  ultimately obtain x where "get_node_v1 db key = ret x" "x \<noteq> 0" "get_v1 db x = ret (v1_data db x)"
    "n1_value (v1_data db x) = 0" "n1_small_value_len (v1_data db x) = 0"
    using entry_node [OF _ key] by metis
  then show ?thesis using \<open>v1_ready db\<close> by (simp add: tst_get_v1_def mem_put_def Let_def)
qed

section \<open>Reading the hint file\<close>

lemma scan_num_unsigned: "scan_num s = Some (z, r) \<Longrightarrow> scan_unsigned s = (Some (to_ull z), r)"
proof -
  assume s: "scan_num s = Some (z, r)"
  obtain t where t: "dropWhile is_space s = t" by simp
  show "scan_unsigned s = (Some (to_ull z), r)"
    using s unfolding scan_num_def scan_unsigned_def Let_def t by (cases t) (auto split: if_splits)
qed

lemma scan_unsigned_print:
  assumes "\<not> is_digit c"
  shows "scan_unsigned (CC 9 # print_int z @ c # s) = (Some (to_ull z), c # s)"
proof (rule scan_num_unsigned)
  have "is_space (CC 9)" by (simp add: is_space_def)
  then show "scan_num (CC 9 # print_int z @ c # s) = Some (z, c # s)"
    using scan_num_print [of "c # s" z] assms by (simp add: scan_num_def)
qed

lemma fscanf_hint_line:
  assumes "word_ok key" and "length key < 256"
  shows "fscanf_hint (hint_line key n v @ rest) = ret (3, key, n, v, CC 10 # rest)"
proof -
  have tab: "is_space (CC 9)" "\<not> is_digit (CC 9)" "is_space (CC 10)" "\<not> is_digit (CC 10)"
    by (simp_all add: is_space_def is_digit_def)
  have "(ucast (to_ull (uint n)) :: u32) = n"
  proof -
    have "(to_ull (uint n) :: u64) = ucast n" using uint_lt2p [of n] by (simp add: to_ull_def)
    moreover have "ucast (ucast n :: u64) = n" by transfer (simp add: min_def)
    ultimately show ?thesis by simp
  qed
  moreover have k: "key \<noteq> []" using assms(1) by (simp add: word_ok_def)
  moreover have "takeWhile (\<lambda>c. \<not> is_space c) (key @ CC 9 # s) = key"
    "dropWhile (\<lambda>c. \<not> is_space c) (key @ CC 9 # s) = CC 9 # s" for s
    using assms(1) tab by (auto simp: word_ok_def list_all_iff takeWhile_append dropWhile_append3)
  moreover have "dropWhile is_space (key @ s) = key @ s" for s
    using assms(1) k by (cases key) (simp_all add: word_ok_def)
  ultimately show ?thesis
    using assms(2) tab
    by (simp add: scan_unsigned_print fscanf_hint_def hint_line_def Let_def to_ull_uint)
qed

lemma fscanf_hint_newline: "fscanf_hint (CC 10 # s) = fscanf_hint s"
  by (simp add: fscanf_hint_def is_space_def)

lemma hint_loop_newline: "hint_loop rl (CC 10 # s) db = hint_loop rl s db"
  by (subst (1 2) hint_loop.simps) (simp only: fscanf_hint_newline)

text \<open>A line of the hint file, and what it does to the entries of the tree.\<close>

type_synonym hint_entry = "cstr \<times> u32 \<times> u64"

fun entry_line :: "hint_entry \<Rightarrow> cstr" where
  "entry_line (key, n, v) = hint_line key n v"

fun add_entry :: "(cstr \<Rightarrow> (u64 \<times> byte) option) \<Rightarrow> hint_entry \<Rightarrow> cstr \<Rightarrow> (u64 \<times> byte) option" where
  "add_entry m (key, n, v) = m(key := if (v, hint_small n) = (-1, 0) then None else Some (v, hint_small n))"

definition keys_total :: "hint_entry list \<Rightarrow> nat" where
  "keys_total es = sum_list (map (\<lambda>(key, _). length key) es)"

definition entries_ok :: "hint_entry list \<Rightarrow> bool" where
  "entries_ok es \<longleftrightarrow> (\<forall>(key, _) \<in> set es. word_ok key \<and> length key < 256)"

lemma foldl_add_entry: "m k = m' k \<Longrightarrow> foldl add_entry m es k = foldl add_entry m' es k"
proof (induction es arbitrary: m m')
  case (Cons e es)
  have "add_entry m e k = add_entry m' e k" using Cons.prems by (cases e) simp
  then show ?case using Cons.IH [of "add_entry m e" "add_entry m' e"] by simp
qed simp

lemma word_ok_key: "word_ok key \<Longrightarrow> key \<noteq> [] \<and> 0 \<notin> set key"
  by (auto simp: word_ok_def list_all_iff)

lemma cstr_of_key: "0 \<notin> set key \<Longrightarrow> cstr_of (key @ [0]) = ret key"
  by (auto simp: cstr_of_def takeWhile_append)

lemma hint_loop_lines:
  assumes "entries_ok es" and "wf_v1 db" and "\<forall>b. rl b" and "unat (v1_size db) + keys_total es < 2 ^ 31"
  shows "\<exists>db'. hint_loop rl (concat (map entry_line es)) db = ret db' \<and> wf_v1 db' \<and> same_files db db' \<and>
    (\<forall>k. k \<noteq> [] \<longrightarrow> entry_v1 db' k = foldl add_entry (entry_v1 db) es k) \<and>
    (\<forall>k. get_node_v1 db k = ret 0 \<and> (\<forall>(key, _) \<in> set es. \<not> prefix k key) \<longrightarrow> get_node_v1 db' k = ret 0) \<and>
    unat (v1_size db') \<le> unat (v1_size db) + keys_total es"
  using assms
proof (induction es arbitrary: db)
  case Nil
  then show ?case by (subst hint_loop.simps) (simp add: fscanf_hint_def)
next
  case (Cons e es)
  obtain key n v where e: "e = (key, n, v)" by (cases e)
  have key: "word_ok key" "length key < 256" "key \<noteq> []" "0 \<notin> set key" and es: "entries_ok es"
    using Cons.prems(1) word_ok_key by (auto simp: e entries_ok_def)
  have total: "keys_total (e # es) = length key + keys_total es" by (simp add: keys_total_def e)
  have room: "unat (v1_size db) + length key < 2 ^ 31" using Cons.prems(4) total by simp
  obtain d where d: "put_v1 rl db key v (hint_small n) = ret d" "wf_v1 d"
    "entry_v1 d key = (if (v, hint_small n) = (-1, 0) then None else Some (v, hint_small n))"
    "\<forall>k. k \<noteq> [] \<and> k \<noteq> key \<longrightarrow> entry_v1 d k = entry_v1 db k"
    "\<forall>k. get_node_v1 db k = ret 0 \<and> \<not> prefix k key \<longrightarrow> get_node_v1 d k = ret 0"
    "unat (v1_size d) \<le> unat (v1_size db) + length key"
    using put_v1_ok [OF Cons.prems(2) key(3,4) Cons.prems(3) room, of v "hint_small n"]
    by (elim exE conjE) (rule that; assumption)
  have room': "unat (v1_size d) + keys_total es < 2 ^ 31" using d(6) Cons.prems(4) total by simp
  obtain db' where db': "hint_loop rl (concat (map entry_line es)) d = ret db'" "wf_v1 db'" "same_files d db'"
    "\<forall>k. k \<noteq> [] \<longrightarrow> entry_v1 db' k = foldl add_entry (entry_v1 d) es k"
    "\<forall>k. get_node_v1 d k = ret 0 \<and> (\<forall>(key, _) \<in> set es. \<not> prefix k key) \<longrightarrow> get_node_v1 db' k = ret 0"
    "unat (v1_size db') \<le> unat (v1_size d) + keys_total es"
    using Cons.IH [OF es d(2) Cons.prems(3) room'] by (elim exE conjE) (rule that; assumption)
  have "hint_loop rl (concat (map entry_line (e # es))) db = ret db'"
    using fscanf_hint_line [OF key(1,2)] d(1) db'(1) cstr_of_key [OF key(4)]
    by (subst hint_loop.simps) (simp add: e hint_loop_newline)
  moreover have "same_files db db'" using same_files_trans [OF put_v1_files [OF d(1)] db'(3)] .
  moreover have "entry_v1 db' k = foldl add_entry (entry_v1 db) (e # es) k" if "k \<noteq> []" for k
    using db'(4) that d(3,4) foldl_add_entry [of "entry_v1 d" k "add_entry (entry_v1 db) e" es] by (simp add: e)
  moreover have "get_node_v1 db' k = ret 0" if "get_node_v1 db k = ret 0" "\<forall>(key, _) \<in> set (e # es). \<not> prefix k key" for k
    using db'(5) d(5) that by (auto simp: e)
  ultimately show ?case using db'(2,6) d(6) total by (intro exI [of _ db']) auto
qed

end
