(* ===== verification/V1_Life.thy ===== *)
theory V1_Life
  imports V1_Ok
begin

text \<open>
  What version 1 promises: after any sequence of puts and reopenings \<open>tst_get\<close> answers for a key
  with the value put last, and \<open>tst_open\<close> ends on every hint file. The tree keeps nodes for the
  prefixes of the keys, and for them \<open>tst_get\<close> answers from wherever the data file was read last.
\<close>

section \<open>Sessions\<close>

text \<open>
  A put, or \<open>tst_close\<close> and \<open>tst_open\<close> of the same files: the new array is whatever \<open>malloc\<close>
  returns then.
\<close>

datatype op_v1 = Put_v1 cstr "cchar list" u32 | Reopen_v1 "u32 \<Rightarrow> node_v1"

fun step_v1 :: "(u64 \<Rightarrow> bool) \<Rightarrow> db_v1 \<Rightarrow> op_v1 \<Rightarrow> db_v1 run" where
  "step_v1 rl db (Put_v1 key value n) = tst_put_v1 rl db key value n"
| "step_v1 rl db (Reopen_v1 mem) = (let (file, hint) = tst_close_v1 db in open_v1 rl mem (Some file) hint)"

fun run_v1 :: "(u64 \<Rightarrow> bool) \<Rightarrow> op_v1 list \<Rightarrow> db_v1 \<Rightarrow> db_v1 run" where
  "run_v1 rl [] db = ret db"
| "run_v1 rl (p # ps) db = run_bind (step_v1 rl db p) (run_v1 rl ps)"

text \<open>The map that the operations describe: for each key that was put, its last value, or none for an empty one.\<close>

fun spec_step :: "(cstr \<rightharpoonup> cchar list option) \<Rightarrow> op_v1 \<Rightarrow> (cstr \<rightharpoonup> cchar list option)" where
  "spec_step m (Put_v1 key value n) = m(key \<mapsto> (if n = 0 then None else Some (take (unat n) value)))"
| "spec_step m (Reopen_v1 mem) = m"

text \<open>What is asked of an operation, and what it costs: bytes of keys, bytes of the data file.\<close>

fun op_ok_v1 :: "op_v1 \<Rightarrow> bool" where
  "op_ok_v1 (Put_v1 key value n) \<longleftrightarrow> word_ok key \<and> length key \<le> 255 \<and> unat n \<le> length value \<and> unat n < 2 ^ 31"
| "op_ok_v1 (Reopen_v1 mem) \<longleftrightarrow> True"

fun op_keys :: "op_v1 \<Rightarrow> nat" where
  "op_keys (Put_v1 key value n) = length key"
| "op_keys (Reopen_v1 mem) = 0"

fun op_bytes :: "op_v1 \<Rightarrow> nat" where
  "op_bytes (Put_v1 key value n) = 8 + length key + unat n"
| "op_bytes (Reopen_v1 mem) = 0"

text \<open>
  The relation between the state and the map: the files say the same as the tree. \<open>k\<close> and \<open>f\<close>
  bound the bytes of the keys and of the data file.
\<close>

definition told_v1 :: "nat \<Rightarrow> nat \<Rightarrow> db_v1 \<Rightarrow> (cstr \<rightharpoonup> cchar list option) \<Rightarrow> hint_entry list \<Rightarrow> bool" where
  "told_v1 kb fb db m es \<longleftrightarrow> inv_v1 db \<and> (\<exists>rest. v1_file db = enc32 magic_number @ rest) \<and> length (v1_file db) \<le> fb \<and>
     v1_hint db = concat (map entry_line es) \<and> entries_ok es \<and> keys_total es \<le> kb \<and> unat (v1_size db) \<le> kb \<and>
     (\<forall>k. k \<noteq> [] \<longrightarrow> entry_v1 db k = foldl add_entry Map.empty es k) \<and>
     (\<forall>(key, _) \<in> set es. m key \<noteq> None) \<and>
     (\<forall>k w. m k = Some w \<longrightarrow> entry_v1 db k \<noteq> None \<and> value_v1 db k = w) \<and>
     (\<forall>k. (\<forall>k'. prefix k k' \<longrightarrow> m k' = None) \<longrightarrow> get_node_v1 db k = ret 0)"

lemma entry_not_new: "entry_v1 db k \<noteq> Some (-1, 0)"
  by (auto simp: entry_v1_def Let_def split: option.splits sum.splits if_splits)

lemma put_told:
  assumes told: "told_v1 kb fb db m es" and p: "op_ok_v1 (Put_v1 key value n)" and rl: "\<forall>b. rl b"
    and sz: "kb + length key < 2 ^ 31" and fl: "fb < 2 ^ 63"
  shows "\<exists>db' es'. tst_put_v1 rl db key value n = ret db' \<and>
    told_v1 (kb + length key) (fb + 8 + length key + unat n) db' (spec_step m (Put_v1 key value n)) es'"
proof -
  have T: "inv_v1 db" "\<exists>rest. v1_file db = enc32 magic_number @ rest" "length (v1_file db) \<le> fb"
    "v1_hint db = concat (map entry_line es)" "entries_ok es" "keys_total es \<le> kb" "unat (v1_size db) \<le> kb"
    "\<And>k. k \<noteq> [] \<Longrightarrow> entry_v1 db k = foldl add_entry Map.empty es k" "\<forall>(key, _) \<in> set es. m key \<noteq> None"
    "\<And>k w. m k = Some w \<Longrightarrow> entry_v1 db k \<noteq> None \<and> value_v1 db k = w"
    "\<And>k. (\<And>k'. prefix k k' \<Longrightarrow> m k' = None) \<Longrightarrow> get_node_v1 db k = ret 0"
    using told unfolding told_v1_def by blast+
  have key: "word_ok key" "length key \<le> 255" "key \<noteq> []" "0 \<notin> set key"
    and n: "unat n \<le> length value" "unat n < 2 ^ 31" using p word_ok_key by auto
  have f: "0 < length (v1_file db)" "length (v1_file db) < 2 ^ 63"
    using T(2,3) fl int32.enc_length [of magic_number] by auto
  have room: "unat (v1_size db) + length key < 2 ^ 31" using T(7) sz by simp
  let ?bytes = "take (unat n) value"
  obtain db' v where d: "tst_put_v1 rl db key value n = ret db'" "inv_v1 db'"
    "v1_file db' = v1_file db @ record_v1 key n ?bytes"
    "v1_hint db' = v1_hint db @ hint_line key n v" "entry_v1 db' key = Some (v, hint_small n)"
    "\<forall>k. k \<noteq> [] \<and> k \<noteq> key \<longrightarrow> entry_v1 db' k = entry_v1 db k"
    "entry_value (v1_file db') (v, hint_small n) = (if n = 0 then None else Some ?bytes)"
    "\<forall>k. get_node_v1 db k = ret 0 \<and> \<not> prefix k key \<longrightarrow> get_node_v1 db' k = ret 0"
    "unat (v1_size db') \<le> unat (v1_size db) + length key"
    using tst_put_v1_ok [OF T(1) key(3,2,4) rl room f n] by (elim exE conjE) (rule that; assumption)
  let ?m = "spec_step m (Put_v1 key value n)" and ?es = "es @ [(key, n, v)]"
  have nz: "(v, hint_small n) \<noteq> (-1, 0)" using d(5) entry_not_new by metis
  have good: "entry_good (v1_file db) e" if "entry_v1 db k = Some e" for k e
  proof -
    have "k \<noteq> []" using that by (auto simp: entry_v1_def get_node_v1_def)
    then show ?thesis using T(1) that unfolding inv_v1_def by blast
  qed
  have entries: "entry_v1 db' k = foldl add_entry Map.empty ?es k" if "k \<noteq> []" for k
    using d(5,6) T(8) [OF that] that nz by auto
  have vals: "entry_v1 db' k \<noteq> None \<and> value_v1 db' k = w" if "?m k = Some w" for k w
  proof (cases "k = key")
    case True
    then have "w = (if n = 0 then None else Some ?bytes)" using that by (simp split: if_splits)
    then show ?thesis using True d(5,7) by (simp add: value_v1_def del: entry_value.simps)
  next
    case False
    then have k: "entry_v1 db k \<noteq> None" "value_v1 db k = w" using T(10) that by auto
    then obtain e where e: "entry_v1 db k = Some e" by blast
    then have "k \<noteq> []" by (auto simp: entry_v1_def get_node_v1_def)
    then have "entry_v1 db' k = Some e" using d(6) False e by simp
    then show ?thesis
      using k(2) e entry_value_append [OF good [OF e]] by (simp add: value_v1_def d(3) del: entry_value.simps)
  qed
  have nodes: "get_node_v1 db' k = ret 0" if "\<And>k'. prefix k k' \<Longrightarrow> ?m k' = None" for k
  proof -
    have "m k' = None" if "prefix k k'" for k' using \<open>\<And>k'. prefix k k' \<Longrightarrow> ?m k' = None\<close> [OF that] by (auto split: if_splits)
    then have "get_node_v1 db k = ret 0" using T(11) by blast
    moreover have "\<not> prefix k key" using that [of key] by auto
    ultimately show ?thesis using d(8) by blast
  qed
  have "told_v1 (kb + length key) (fb + 8 + length key + unat n) db' ?m ?es"
    unfolding told_v1_def
  proof (intro conjI)
    show "\<exists>rest. v1_file db' = enc32 magic_number @ rest" using T(2) d(3) by auto
    show "length (v1_file db') \<le> fb + 8 + length key + unat n"
      using T(3) n(1) by (simp add: d(3) record_v1_def int32.enc_length)
    show "v1_hint db' = concat (map entry_line ?es)" by (simp add: d(4) T(4))
    show "entries_ok ?es" using T(5) key by (simp add: entries_ok_def)
    show "keys_total ?es \<le> kb + length key" using T(6) by (simp add: keys_total_def)
    show "unat (v1_size db') \<le> kb + length key" using T(7) d(9) by simp
    show "\<forall>(key, _) \<in> set ?es. ?m key \<noteq> None" using T(9) by auto
  qed (use d(2) entries vals nodes in blast)+
  then show ?thesis using d(1) by blast
qed

lemma create_v1_empty:
  assumes "same_array (create_db_v1 mem) db"
  shows "get_node_v1 db k = ret 0" and "entry_v1 db k = None" and "unat (v1_size db) = 0" and "wf_v1 db"
proof -
  show "get_node_v1 db k = ret 0" for k
    unfolding get_node_v1_array [OF assms]
    by (simp add: get_node_v1_def create_db_v1_def new_db_v1_def search_v1.simps)
  then show "entry_v1 db k = None" by (simp add: entry_v1_def)
  show "unat (v1_size db) = 0" using assms by (simp add: same_array_def create_db_v1_def new_db_v1_def)
  show "wf_v1 db" by (rule wf_v1_array [OF assms create_v1_wf])
qed

lemma reopen_told:
  assumes told: "told_v1 kb fb db m es" and rl: "\<forall>b. rl b" and sz: "kb < 2 ^ 31"
  shows "\<exists>db'. open_v1 rl mem (Some (v1_file db)) (v1_hint db) = ret db' \<and> told_v1 kb fb db' m es"
proof -
  have T: "inv_v1 db" "\<exists>rest. v1_file db = enc32 magic_number @ rest" "length (v1_file db) \<le> fb"
    "v1_hint db = concat (map entry_line es)" "entries_ok es" "keys_total es \<le> kb"
    "\<And>k. k \<noteq> [] \<Longrightarrow> entry_v1 db k = foldl add_entry Map.empty es k" "\<forall>(key, _) \<in> set es. m key \<noteq> None"
    "\<And>k w. m k = Some w \<Longrightarrow> entry_v1 db k \<noteq> None \<and> value_v1 db k = w"
    using told unfolding told_v1_def by blast+
  let ?d = "(create_db_v1 mem)\<lparr>v1_file := v1_file db, v1_hint := v1_hint db, v1_pos := 4\<rparr>"
  have e: "same_array (create_db_v1 mem) ?d" by (simp add: same_array_def)
  note E = create_v1_empty [OF e]
  have room: "unat (v1_size ?d) + keys_total es < 2 ^ 31" using E(3) T(6) sz by simp
  obtain d where d: "hint_loop rl (concat (map entry_line es)) ?d = ret d" "wf_v1 d" "same_files ?d d"
    "\<forall>k. k \<noteq> [] \<longrightarrow> entry_v1 d k = foldl add_entry (entry_v1 ?d) es k"
    "\<forall>k. get_node_v1 ?d k = ret 0 \<and> (\<forall>(key, _) \<in> set es. \<not> prefix k key) \<longrightarrow> get_node_v1 d k = ret 0"
    "unat (v1_size d) \<le> unat (v1_size ?d) + keys_total es"
    using hint_loop_lines [OF T(5) E(4) rl room] by (elim exE conjE) (rule that; assumption)
  let ?d' = "d\<lparr>v1_ready := True\<rparr>"
  have f: "v1_file d = v1_file db" "v1_hint d = v1_hint db" using d(3) by (simp_all add: same_files_def)
  have "read_field 4 dec32 (v1_file db) = Some (magic_number, drop 4 (v1_file db))"
    using T(2) int32.read_enc by (metis append_eq_conv_conj int32.enc_length)
  then have "open_v1 rl mem (Some (v1_file db)) (v1_hint db) = ret ?d'"
    using d(1) by (simp add: open_v1_def Let_def T(4))
  moreover have entry: "entry_v1 d k = entry_v1 db k" for k
  proof (cases "k = []")
    case True
    then show ?thesis by (simp add: entry_v1_def get_node_v1_def)
  next
    case False
    then show ?thesis using d(4) T(7) foldl_add_entry [of "entry_v1 ?d" k Map.empty es] E(2) by simp
  qed
  have "told_v1 kb fb ?d' m es"
    unfolding told_v1_def
  proof (intro conjI)
    show "inv_v1 ?d'" using T(1) d(2) entry f by (auto simp: inv_v1_def wf_files simp del: entry_good.simps)
    show "unat (v1_size ?d') \<le> kb" using d(6) E(3) T(6) by simp
    show "\<forall>k w. m k = Some w \<longrightarrow> entry_v1 ?d' k \<noteq> None \<and> value_v1 ?d' k = w"
      using T(9) entry f by (simp add: value_v1_def)
    show "\<forall>k. (\<forall>k'. prefix k k' \<longrightarrow> m k' = None) \<longrightarrow> get_node_v1 ?d' k = ret 0"
    proof (intro allI impI)
      fix k
      assume k: "\<forall>k'. prefix k k' \<longrightarrow> m k' = None"
      then have "\<forall>(key, _) \<in> set es. \<not> prefix k key" using T(8) by blast
      then have "get_node_v1 d k = ret 0" using d(5) E(1) by blast
      moreover have "same_array d ?d'" by (simp add: same_array_def)
      ultimately show "get_node_v1 ?d' k = ret 0" using get_node_v1_array by metis
    qed
  qed (use T entry f in simp_all)
  ultimately show ?thesis by blast
qed

lemma run_told:
  assumes "told_v1 kb fb db m es" and "list_all op_ok_v1 ps" and "\<forall>b. rl b"
    and "kb + sum_list (map op_keys ps) < 2 ^ 31" and "fb + sum_list (map op_bytes ps) < 2 ^ 63"
  shows "\<exists>db' kb' fb' es'. run_v1 rl ps db = ret db' \<and> told_v1 kb' fb' db' (foldl spec_step m ps) es'"
  using assms
proof (induction ps arbitrary: kb fb db m es)
  case Nil
  then show ?case by auto
next
  case (Cons p ps)
  have "\<exists>db' es'. step_v1 rl db p = ret db' \<and> told_v1 (kb + op_keys p) (fb + op_bytes p) db' (spec_step m p) es'"
  proof (cases p)
    case (Put_v1 key bs n)
    then show ?thesis
      using put_told [OF Cons.prems(1) _ Cons.prems(3), of key bs n] Cons.prems(2,4,5) by (simp add: add.assoc)
  next
    case (Reopen_v1 mem)
    then show ?thesis
      using reopen_told [OF Cons.prems(1,3), of mem] Cons.prems(4) by (auto simp: tst_close_v1_def)
  qed
  then obtain db' es' where s: "step_v1 rl db p = ret db'" "told_v1 (kb + op_keys p) (fb + op_bytes p) db' (spec_step m p) es'"
    by blast
  have "list_all op_ok_v1 ps" "kb + op_keys p + sum_list (map op_keys ps) < 2 ^ 31"
    "fb + op_bytes p + sum_list (map op_bytes ps) < 2 ^ 63"
    using Cons.prems(2,4,5) by simp_all
  then show ?case using Cons.IH [OF s(2) _ Cons.prems(3)] s(1) by simp
qed

text \<open>The database of a new file.\<close>

definition new_v1 :: "(u32 \<Rightarrow> node_v1) \<Rightarrow> db_v1" where
  "new_v1 mem = (create_db_v1 mem)\<lparr>v1_file := enc32 magic_number, v1_pos := 4, v1_ready := True\<rparr>"

lemma open_new_v1: "open_v1 rl mem None [] = ret (new_v1 mem)"
proof -
  have "read_field 4 dec32 (enc32 magic_number) = Some (magic_number, [])"
    using int32.read_enc [of magic_number "[]"] by simp
  then show ?thesis
    by (simp add: open_v1_def Let_def) (subst hint_loop.simps, simp add: fscanf_hint_def new_v1_def create_db_v1_def new_db_v1_def)
qed

lemma new_v1_told: "told_v1 0 4 (new_v1 mem) Map.empty []"
proof -
  have "same_array (create_db_v1 mem) (new_v1 mem)" by (simp add: same_array_def new_v1_def)
  moreover have "v1_file (new_v1 mem) = enc32 magic_number" "v1_hint (new_v1 mem) = []" "v1_ready (new_v1 mem)"
    by (simp_all add: new_v1_def create_db_v1_def new_db_v1_def)
  ultimately show ?thesis
    using create_v1_empty [of mem "new_v1 mem"]
    by (auto simp: told_v1_def inv_v1_def entries_ok_def keys_total_def int32.enc_length)
qed

text \<open>What \<open>tst_get\<close> gives back by the map: the array of the value and the length.\<close>

definition answer_v1 :: "(cstr \<rightharpoonup> cchar list option) \<Rightarrow> cstr \<Rightarrow> cchar list \<Rightarrow> cchar list \<times> u32" where
  "answer_v1 m key buf =
     (case m key of Some (Some w) \<Rightarrow> (w @ drop (length w) buf, of_nat (length w)) | _ \<Rightarrow> (buf, 0))"

lemma get_told:
  assumes told: "told_v1 kb fb db m es" and key: "key \<noteq> []"
    and sure: "m key \<noteq> None \<or> (\<forall>k. prefix key k \<longrightarrow> m k = None)"
    and buf: "\<forall>w. m key = Some (Some w) \<longrightarrow> length w \<le> length buf"
  shows "\<exists>p. tst_get_v1 db key buf l = ret (db\<lparr>v1_pos := p\<rparr>, answer_v1 m key buf)"
proof -
  have T: "inv_v1 db" "\<And>k w. m k = Some w \<Longrightarrow> entry_v1 db k \<noteq> None \<and> value_v1 db k = w"
    "\<And>k. (\<And>k'. prefix k k' \<Longrightarrow> m k' = None) \<Longrightarrow> get_node_v1 db k = ret 0"
    using told unfolding told_v1_def by blast+
  have absent: ?thesis if "get_node_v1 db key = ret 0 \<or> entry_v1 db key = Some (0, 0)" "m key = None \<or> m key = Some None"
    using tst_get_v1_none [OF T(1) key that(1), of buf l] that(2)
    by (intro exI [of _ "v1_pos db"]) (auto simp: answer_v1_def)
  show ?thesis
  proof (cases "m key")
    case None
    then show ?thesis using absent T(3) [of key] sure by auto
  next
    case (Some x)
    show ?thesis
    proof (cases x)
      case None
      obtain v n where e: "entry_v1 db key = Some (v, n)" using T(2) [OF Some] by auto
      then have "entry_good (v1_file db) (v, n)" using T(1) key unfolding inv_v1_def by blast
      moreover have "entry_value (v1_file db) (v, n) = None"
        using T(2) [OF Some] e None by (simp add: value_v1_def del: entry_value.simps)
      ultimately have "(v, n) = (0, 0)" by (auto split: if_splits)
      then show ?thesis using absent e Some None by simp
    next
      case w: (Some w)
      then show ?thesis
        using tst_get_v1_value [OF T(1) key, of w buf l] T(2) [OF Some] buf Some by (simp add: answer_v1_def)
    qed
  qed
qed

section \<open>Loading any hint file\<close>

text \<open>No word of the text has 256 characters or more; \<open>k\<close> of the word have been seen.\<close>

fun short_words :: "nat \<Rightarrow> cstr \<Rightarrow> bool" where
  "short_words k [] = True"
| "short_words k (c # us) = (if is_space c then short_words 0 us else k + 1 < 256 \<and> short_words (k + 1) us)"

lemma short_words_mono: "short_words k s \<Longrightarrow> j \<le> k \<Longrightarrow> short_words j s"
  by (induction s arbitrary: j k) (auto split: if_splits)

lemma short_words_append: "short_words k (s @ t) \<Longrightarrow> short_words 0 t"
proof (induction s arbitrary: k)
  case Nil
  then show ?case using short_words_mono by simp
next
  case (Cons c s)
  then show ?case by (auto split: if_splits)
qed

lemma short_words_word: "short_words k s \<Longrightarrow> k < 256 \<Longrightarrow> k + length (takeWhile (\<lambda>c. \<not> is_space c) s) < 256"
  by (induction s arbitrary: k) (fastforce split: if_splits)+

lemma short_words_dropWhile: "short_words k s \<Longrightarrow> short_words 0 (dropWhile P s)"
  by (metis takeWhile_dropWhile_id short_words_append)

lemma scan_unsigned_short:
  assumes "scan_unsigned s = (r, s')" and "short_words 0 s"
  shows "short_words 0 s'"
proof -
  obtain t where t: "dropWhile is_space s = t" by simp
  have "short_words 0 t" using short_words_dropWhile [OF assms(2)] t by blast
  moreover from this have "short_words 0 (tl t)" by (cases t) (auto intro: short_words_mono split: if_splits)
  moreover have "s' = dropWhile is_digit t \<or> s' = dropWhile is_digit (tl t)"
    using assms(1) unfolding scan_unsigned_def Let_def t by (cases t) (auto split: if_splits)
  ultimately show ?thesis using short_words_dropWhile by blast
qed

text \<open>One \<open>fscanf\<close>: it runs beyond its buffer on a long word only, and a word and the rest are not longer than the text.\<close>

lemma fscanf_hint_cases:
  obtains (eof) s' where "fscanf_hint s = ret (-1, [], 0, 0, s')"
  | (long) "fscanf_hint s = abort_with Undefined" and "\<not> short_words 0 s"
  | (word) ct w n v s' where "fscanf_hint s = ret (ct, w, n, v, s')" and "0 \<le> ct"
      and "length w + length s' \<le> length s" and "short_words 0 s \<Longrightarrow> short_words 0 s'"
proof -
  let ?s = "dropWhile is_space s"
  let ?w = "takeWhile (\<lambda>c. \<not> is_space c) ?s" and ?t = "dropWhile (\<lambda>c. \<not> is_space c) ?s"
  have len: "length ?w + length ?t \<le> length s"
    using length_append [of ?w ?t] length_dropWhile_le [of is_space s] by simp
  have short: "short_words 0 ?s" "short_words 0 ?t" if "short_words 0 s"
    using short_words_dropWhile that by blast+
  show thesis
  proof (cases "?w = []")
    case True
    then show ?thesis using eof by (simp add: fscanf_hint_def Let_def)
  next
    case False
    show ?thesis
    proof (cases "256 \<le> length ?w")
      case True
      then have "\<not> short_words 0 s" using short(1) short_words_word [of 0 ?s] by fastforce
      then show ?thesis using long False True by (simp add: fscanf_hint_def Let_def)
    next
      case f: False
      obtain r1 s1 where r1: "scan_unsigned ?t = (r1, s1)" by (cases "scan_unsigned ?t")
      obtain r2 s2 where r2: "scan_unsigned s1 = (r2, s2)" by (cases "scan_unsigned s1")
      note R = scan_unsigned_rest [OF r1] scan_unsigned_rest [OF r2]
        scan_unsigned_short [OF r1] scan_unsigned_short [OF r2] short(2) len
      show ?thesis
      proof (cases r1)
        case None
        then show ?thesis using word [of 1 ?w 0 0 s1] False f r1 R by (auto simp: fscanf_hint_def Let_def)
      next
        case (Some n)
        show ?thesis
        proof (cases r2)
          case None
          then show ?thesis using word [of 2 ?w "ucast n" 0 s2] False f r1 r2 Some R by (auto simp: fscanf_hint_def Let_def)
        next
          case (Some v)
          then show ?thesis
            using word [of 3 ?w "ucast n" v s2] False f r1 r2 \<open>r1 = Some n\<close> R by (auto simp: fscanf_hint_def Let_def)
        qed
      qed
    qed
  qed
qed

lemma put_v1_any:
  assumes "wf_v1 db" and "0 \<notin> set key" and "\<forall>b. rl b" and "unat (v1_size db) + length key < 2 ^ 31"
  shows "\<exists>db'. put_v1 rl db key v n = ret db' \<and> wf_v1 db' \<and> unat (v1_size db') \<le> unat (v1_size db) + length key"
proof (cases "key = []")
  case True
  then show ?thesis using assms(1) by (simp add: put_v1_def)
next
  case False
  from put_v1_ok [OF assms(1) False assms(2-4), of v n] show ?thesis by blast
qed

lemma hint_loop_ends:
  assumes "wf_v1 db" and "\<forall>b. rl b" and "unat (v1_size db) + length s < 2 ^ 31"
  shows "(\<exists>db'. hint_loop rl s db = ret db' \<and> wf_v1 db') \<or> hint_loop rl s db = abort_with Undefined \<and> \<not> short_words 0 s"
  using assms(1,3)
proof (induction "length s" arbitrary: s db rule: less_induct)
  case less
  show ?case
  proof (cases s rule: fscanf_hint_cases)
    case (eof s')
    then show ?thesis using less.prems(1) by (subst (1 2) hint_loop.simps) simp
  next
    case long
    then show ?thesis by (subst (1 2) hint_loop.simps) simp
  next
    case (word ct w n v s')
    have s': "length s' < length s" by (rule fscanf_hint_rest [OF word(1,2)])
    let ?key = "takeWhile (\<lambda>x. x \<noteq> 0) (w @ [0])"
    have key: "cstr_of (w @ [0]) = ret ?key" "length ?key \<le> length w" "0 \<notin> set ?key"
      using length_takeWhile_le [of "\<lambda>x. x \<noteq> 0" w] by (auto simp: cstr_of_def takeWhile_append dest: set_takeWhileD)
    show ?thesis
    proof (cases "ct = 3")
      case False
      have "hint_loop rl s db = hint_loop rl s' db"
        using word(1,2) False by (subst hint_loop.simps) simp
      moreover have "unat (v1_size db) + length s' < 2 ^ 31" using less.prems(2) s' by simp
      ultimately show ?thesis using less.hyps [OF s' less.prems(1)] word(4) by auto
    next
      case True
      have "unat (v1_size db) + length ?key < 2 ^ 31" using less.prems(2) key(2) word(3) by simp
      then obtain d where d: "put_v1 rl db ?key v (hint_small n) = ret d" "wf_v1 d"
        "unat (v1_size d) \<le> unat (v1_size db) + length ?key"
        using put_v1_any [OF less.prems(1) key(3) assms(2)] by blast
      have "hint_loop rl s db = hint_loop rl s' d"
        using word(1) True key(1) d(1) by (subst hint_loop.simps) simp
      moreover have "unat (v1_size d) + length s' < 2 ^ 31" using less.prems(2) key(2) word(3) d(3) by simp
      ultimately show ?thesis using less.hyps [OF s' d(2)] word(4) by auto
    qed
  qed
qed

section \<open>A key that starts another\<close>

text \<open>
  The node of a key that only starts other keys has the value -1 of a new node: \<open>tst_get\<close> seeks
  to offset -1, which fails, and reads a record from wherever the file was read last.
\<close>

lemma prefix_reads_on:
  assumes inv: "inv_v1 db" and key: "key \<noteq> []" and x: "get_node_v1 db key = ret x" "x \<noteq> 0"
    and none: "entry_v1 db key = None" and at: "record_at_v1 (v1_file db) (v1_pos db) = Some w" and buf: "length w \<le> length buf"
  shows "\<exists>p. tst_get_v1 db key buf l = ret (db\<lparr>v1_pos := p\<rparr>, w @ drop (length w) buf, of_nat (length w))"
proof -
  have I: "wf_v1 db" "v1_ready db" using inv by (simp_all add: inv_v1_def)
  obtain val db2 where s: "same_tree val db db2" "tst_wf db2" using I(1) by (auto simp: wf_v1_def)
  have e: "get_v1 db x = ret (v1_data db x)" using node_of_key [OF s key] x by (metis option.inject sum.inject(2))
  have n: "n1_value (v1_data db x) = -1" "n1_small_value_len (v1_data db x) = 0"
    using none x by (simp_all add: entry_v1_def Let_def split: if_splits)
  have seek: "seek_to p (-1) = p" for p by (simp add: seek_to_def)
  show ?thesis by (rule tst_get_v1_record [OF x e _ n(2) I(2) _ at buf]) (simp_all add: n seek)
qed

lemmas v1_eval =
  Let_def new_v1_def create_db_v1_def new_db_v1_def zero_v1_def get_v1_def set_v1_def ensure_enough_space_v1_def
  new_node_v1_def put_v1_def get_node_v1_def insert_v1.simps search_v1.simps char_at_def

definition nine :: "cchar list" where
  "nine = map CC [1, 2, 3, 4, 5, 6, 7, 8, 9]"


section \<open>Properties\<close>



text \<open>
  C37. \<open>tst_open\<close> ends on every hint file of less than 2 GB, whatever its lines say: it builds a sound
  tree, unless a word of 256 or more characters is written beyond the key buffer.
\<close>

theorem v1_open_ends:
  assumes "\<forall>b. rl b" and "length hint < 2 ^ 31"
  shows "(\<exists>db. open_v1 rl mem (Some (enc32 magic_number @ rest)) hint = ret db \<and> wf_v1 db \<and> v1_ready db) \<or>
    open_v1 rl mem (Some (enc32 magic_number @ rest)) hint = abort_with Undefined \<and> \<not> short_words 0 hint"
proof -
  let ?d = "(create_db_v1 mem)\<lparr>v1_file := enc32 magic_number @ rest, v1_hint := hint, v1_pos := 4\<rparr>"
  note E = create_v1_empty [of mem ?d, unfolded same_array_def]
  have "open_v1 rl mem (Some (enc32 magic_number @ rest)) hint =
      run_bind (hint_loop rl hint ?d) (\<lambda>db. ret (db\<lparr>v1_ready := True\<rparr>))"
    using int32.read_enc [of magic_number rest] by (simp add: open_v1_def Let_def)
  moreover have "unat (v1_size ?d) + length hint < 2 ^ 31" using E(3) assms(2) by simp
  ultimately show ?thesis
    using hint_loop_ends [OF E(4) assms(1), of hint] by (auto intro: wf_files)
qed

theorem v1_open_ends_witness:
  "\<exists>db. open_v1 (\<lambda>_. True) (\<lambda>_. zero_v1) (Some (enc32 magic_number)) [CC 97, CC 32, CC 98] = ret db \<and> wf_v1 db"
  using v1_open_ends [of "\<lambda>_. True" "[CC 97, CC 32, CC 98]" "\<lambda>_. zero_v1" "[]"] by (auto simp: is_space_def)

end
