(* ===== verification/V1_Server.thy ===== *)
theory V1_Server
  imports V1_Life Cmd_Ok
begin

text \<open>
  The server of version 1, \<open>v1/tstserver.c\<close>. One thread serves all connections; a connection has
  an entry of \<open>dataTable\<close>, by its file descriptor, with the upload or the answer it is in the middle
  of. What \<open>recv\<close> and \<open>send\<close> give and the clock are arguments. Sums of the \<open>int\<close> fields stay far
  below \<open>2 ^ 31\<close>, so they are integers here.
\<close>

section \<open>Data model\<close>

definition in_buf_size :: nat where
  "in_buf_size = 1024"

definition max_value_size :: nat where
  "max_value_size = 1048576"

definition max_fd_open :: nat where
  "max_fd_open = 32767"

record payload =
  pl_read_buf :: "cchar list option"
  pl_write_buf :: "cchar list option"
  pl_putkey :: "cstr option"
  pl_need_read :: int
  pl_need_write :: int
  pl_write_cur :: int
  pl_read_cur :: int

definition no_payload :: payload where
  "no_payload = \<lparr>pl_read_buf = None, pl_write_buf = None, pl_putkey = None, pl_need_read = 0,
     pl_need_write = 0, pl_write_cur = 0, pl_read_cur = 0\<rparr>"

text \<open>
  What the poll set has for a descriptor, and the state of the thread: database, the global
  \<open>big_buffer\<close>, and \<open>dataTable\<close>.
\<close>

record server_v1 =
  sv_db :: db_v1
  sv_big :: "cchar list"
  sv_table :: "nat \<Rightarrow> payload"
  sv_poll :: "nat \<Rightarrow> polled"

definition upd_payload :: "server_v1 \<Rightarrow> nat \<Rightarrow> (payload \<Rightarrow> payload) \<Rightarrow> server_v1" where
  "upd_payload w cfd f = w\<lparr>sv_table := (sv_table w)(cfd := f (sv_table w cfd))\<rparr>"

definition set_poll :: "server_v1 \<Rightarrow> nat \<Rightarrow> polled \<Rightarrow> server_v1" where
  "set_poll w cfd q = w\<lparr>sv_poll := (sv_poll w)(cfd := q)\<rparr>"

text \<open>The start of \<open>main\<close> and its loop over \<open>accept\<close>, which only adds the descriptor to the poll set.\<close>

definition start_v1 ::
  "(u64 \<Rightarrow> bool) \<Rightarrow> (u32 \<Rightarrow> node_v1) \<Rightarrow> byte list option \<Rightarrow> cstr \<Rightarrow> server_v1 run"
where
  "start_v1 rl mem file hint =
     run_bind (open_v1 rl mem file hint) (\<lambda>db.
     ret \<lparr>sv_db = db, sv_big = replicate max_value_size 0, sv_table = (\<lambda>_. no_payload), sv_poll = (\<lambda>_. Closed)\<rparr>)"

definition accept_v1 :: "server_v1 \<Rightarrow> nat \<Rightarrow> server_v1" where
  "accept_v1 w client_fd = set_poll w client_fd Poll_in"

text \<open>A signal stops the server; the files are closed.\<close>

definition exit_hook_v1 :: "server_v1 \<Rightarrow> byte list \<times> cstr" where
  "exit_hook_v1 w = tst_close_v1 (sv_db w)"

section \<open>Requests\<close>

text \<open>An answer: a fresh \<open>write_buf\<close>, and the descriptor is polled for output.\<close>

definition answer_with :: "server_v1 \<Rightarrow> nat \<Rightarrow> cchar list \<Rightarrow> server_v1" where
  "answer_with w cfd msg =
     set_poll (upd_payload w cfd (\<lambda>p. p\<lparr>pl_write_buf := Some msg, pl_write_cur := 0, pl_need_write := int (length msg)\<rparr>))
       cfd Poll_out"

definition value_header :: "cstr \<Rightarrow> i32 \<Rightarrow> u32 \<Rightarrow> cstr" where
  "value_header key flag len_of_value =
     cs ''VALUE '' @ key @ [CC 32] @ print_int (sint flag) @ [CC 32] @ print_int (sint len_of_value) @ crlf"

text \<open>
  \<open>len_of_value\<close> is unsigned, so the test \<open>len_of_value<0\<close> after the subtraction of 8 never holds.
  The size of \<open>write_buf\<close> is computed in 32 bits.
\<close>

definition do_get_v1 :: "(u64 \<Rightarrow> bool) \<Rightarrow> int \<Rightarrow> server_v1 \<Rightarrow> nat \<Rightarrow> cstr \<Rightarrow> server_v1 run" where
  "do_get_v1 rl now w cfd key =
     run_bind (tst_get_v1 (sv_db w) key (sv_big w) 0) (\<lambda>(db, big, len_of_value).
     let w = w\<lparr>sv_db := db, sv_big := big\<rparr> in
     if len_of_value = 0 then ret (answer_with w cfd (text_line ''END''))
     else
       run_bind (mem_get big 0 4) (\<lambda>f.
       run_bind (mem_get big 4 4) (\<lambda>e.
       let flag = dec32 (map cc_byte f); expire = dec32 (map cc_byte e) in
       if expire \<noteq> 0 \<and> sint expire \<le> now
       then run_bind (tst_put_v1 rl db key [0] 0) (\<lambda>db.
            ret (answer_with (w\<lparr>sv_db := db\<rparr>) cfd (text_line ''END'')))
       else
         let len_of_value = len_of_value - 8; rsps_msg = value_header key flag len_of_value;
             header_len = length rsps_msg; size = len_of_value + of_nat header_len + 7 in
         if 256 \<le> header_len then abort_with Undefined
         else
           run_bind (mem_get big 8 (uint len_of_value)) (\<lambda>body.
           run_bind (mem_put (replicate (unat size) 0) 0 rsps_msg) (\<lambda>wb.
           run_bind (mem_put wb (int header_len) body) (\<lambda>wb.
           run_bind (mem_put wb (int header_len + uint len_of_value) (crlf @ text_line ''END'')) (\<lambda>wb.
           ret (answer_with w cfd wb))))))))"

text \<open>\<open>strstr(buffer,"\r\n")\<close>: the offset of the line end.\<close>

fun find_crlf :: "cstr \<Rightarrow> nat option" where
  "find_crlf (a # b # s) = (if a = CC 13 \<and> b = CC 10 then Some 0 else map_option Suc (find_crlf (b # s)))"
| "find_crlf s = None"

text \<open>
  \<open>buffer\<close> is the array of 1024 bytes, \<open>s\<close> the string in it. Without a line end \<open>strstr\<close> gives a
  null pointer, and the difference to it is undefined. The bytes of the new \<open>read_buf\<close> are written
  before they are read.
\<close>

definition do_set_v1 ::
  "(u64 \<Rightarrow> bool) \<Rightarrow> int \<Rightarrow> server_v1 \<Rightarrow> nat \<Rightarrow> cchar list \<Rightarrow> cstr \<Rightarrow> nat \<Rightarrow> cstr \<Rightarrow> i32 \<Rightarrow> i32 \<Rightarrow> i32 \<Rightarrow> server_v1 run"
where
  "do_set_v1 rl now w cfd buffer s read_count key flag expire tot =
     (if sint tot < 0 \<or> int max_value_size < sint tot
      then ret (answer_with w cfd (text_line ''ERROR''))
      else
        (case find_crlf s of
           None \<Rightarrow> abort_with Undefined
         | Some pos \<Rightarrow>
           let header_len = int pos + 2;
               expire = (if expire \<noteq> 0 then word_of_int (sint expire + now) else expire);
               have = int read_count - header_len in
           run_bind (mem_put (sv_big w) 0 (map CC (enc32 flag))) (\<lambda>big.
           run_bind (mem_put big 4 (map CC (enc32 expire))) (\<lambda>big.
           run_bind (mem_get buffer header_len have) (\<lambda>part.
           run_bind (mem_put big 8 part) (\<lambda>big.
           let w = w\<lparr>sv_big := big\<rparr>; tot = sint tot + 8 in
           if header_len + tot - 8 < int read_count
           then run_bind (tst_put_v1 rl (sv_db w) key big (word_of_int tot)) (\<lambda>db.
                ret (answer_with (w\<lparr>sv_db := db\<rparr>) cfd (text_line ''STORED'')))
           else
             run_bind (mem_get big 0 (have + 8)) (\<lambda>got.
             run_bind (mem_put (replicate (nat (tot + 2)) 0) 0 got) (\<lambda>rb.
             ret (upd_payload w cfd (\<lambda>p. p\<lparr>pl_read_buf := Some rb, pl_read_cur := have + 8,
                    pl_putkey := Some key, pl_need_read := tot + 2\<rparr>))))))))))"

definition do_delete_v1 :: "(u64 \<Rightarrow> bool) \<Rightarrow> server_v1 \<Rightarrow> nat \<Rightarrow> cstr \<Rightarrow> server_v1 run" where
  "do_delete_v1 rl w cfd key =
     run_bind (tst_get_v1 (sv_db w) key (sv_big w) 0) (\<lambda>(db, big, len_of_value).
     let w = w\<lparr>sv_db := db, sv_big := big\<rparr> in
     if len_of_value = 0 then ret (answer_with w cfd (text_line ''NOT_FOUND''))
     else run_bind (tst_put_v1 rl db key [0] 0) (\<lambda>db.
          ret (answer_with (w\<lparr>sv_db := db\<rparr>) cfd (text_line ''DELETED''))))"

text \<open>More bytes of an upload; a null pointer is not followed.\<close>

definition do_upload_v1 :: "(u64 \<Rightarrow> bool) \<Rightarrow> server_v1 \<Rightarrow> nat \<Rightarrow> cchar list \<Rightarrow> server_v1 run" where
  "do_upload_v1 rl w cfd got =
     (let p = sv_table w cfd in
      case (pl_read_buf p, pl_putkey p) of
        (Some rb, Some putkey) \<Rightarrow>
          run_bind (mem_put rb (pl_read_cur p) got) (\<lambda>rb.
          let read_cur = pl_read_cur p + int (length got);
              w = upd_payload w cfd (\<lambda>p. p\<lparr>pl_read_buf := Some rb, pl_read_cur := read_cur\<rparr>) in
          if pl_need_read p = read_cur
          then run_bind (tst_put_v1 rl (sv_db w) putkey rb (word_of_int (read_cur - 2))) (\<lambda>db.
               ret (answer_with (upd_payload (w\<lparr>sv_db := db\<rparr>) cfd (\<lambda>p. p\<lparr>pl_read_buf := None,
                      pl_putkey := None, pl_need_read := 0, pl_read_cur := 0\<rparr>)) cfd (text_line ''STORED'')))
          else ret w)
      | _ \<Rightarrow> abort_with Undefined)"

section \<open>Events\<close>

definition get_format_v1 :: "directive list" where
  "get_format_v1 = [Lit (cs ''get''), Ws, Str 256, Ws]"

definition set_format_v1 :: "directive list" where
  "set_format_v1 = [Lit (cs ''set''), Ws, Str 256, Ws, Dec, Ws, Dec, Ws, Dec, Ws]"

definition delete_format_v1 :: "directive list" where
  "delete_format_v1 = [Lit (cs ''delete''), Ws, Str 256]"

text \<open>How many bytes \<open>recv\<close> is asked for; a negative number would be compared as a large one.\<close>

definition recv_limit :: "payload \<Rightarrow> nat" where
  "recv_limit p =
     (if pl_need_read p = 0 then in_buf_size
      else let read_limit = pl_need_read p - pl_read_cur p in
        if read_limit < 0 \<or> int in_buf_size < read_limit then in_buf_size else nat read_limit)"

text \<open>\<open>got\<close> is what \<open>recv\<close> has put into \<open>buffer\<close>, nothing when it returns 0 or an error.\<close>

definition handle_in_v1 :: "(u64 \<Rightarrow> bool) \<Rightarrow> int \<Rightarrow> server_v1 \<Rightarrow> nat \<Rightarrow> cchar list \<Rightarrow> server_v1 run" where
  "handle_in_v1 rl now w cfd got =
     (if got = [] then ret (set_poll w cfd Closed)
      else if pl_need_read (sv_table w cfd) = 0
      then
        let buffer = got @ replicate (in_buf_size - length got) 0 in
        run_bind (cstr_of buffer) (\<lambda>s.
        run_bind (sscanf get_format_v1 s) (\<lambda>as.
        if length as = 1 then do_get_v1 rl now w cfd (arg_str (as ! 0))
        else
          run_bind (sscanf set_format_v1 s) (\<lambda>as.
          if length as = 4
          then do_set_v1 rl now w cfd buffer s (length got) (arg_str (as ! 0)) (arg_int (as ! 1))
                 (arg_int (as ! 2)) (arg_int (as ! 3))
          else
            run_bind (sscanf delete_format_v1 s) (\<lambda>as.
            if length as = 1 then do_delete_v1 rl w cfd (arg_str (as ! 0)) else ret w))))
      else do_upload_v1 rl w cfd got)"

text \<open>
  \<open>sent\<close> gives the result of \<open>send\<close> for the bytes offered, \<open>again\<close> tells whether \<open>errno\<close> is \<open>EAGAIN\<close>
  or \<open>EWOULDBLOCK\<close> after a failure.
\<close>

definition handle_out_v1 :: "bool \<Rightarrow> (cchar list \<Rightarrow> int) \<Rightarrow> server_v1 \<Rightarrow> nat \<Rightarrow> server_v1 run" where
  "handle_out_v1 again sent w cfd =
     (let p = sv_table w cfd;
          free = (\<lambda>w. upd_payload w cfd (\<lambda>p. p\<lparr>pl_write_buf := None, pl_write_cur := 0, pl_need_write := 0\<rparr>)) in
      case pl_write_buf p of
        None \<Rightarrow> abort_with Undefined
      | Some wb \<Rightarrow>
        run_bind (mem_get wb (pl_write_cur p) (pl_need_write p - pl_write_cur p)) (\<lambda>offered.
        let r = sent offered in
        if r < 0
        then ret (if again then w else set_poll (free w) cfd Closed)
        else
          let w = upd_payload w cfd (\<lambda>p. p\<lparr>pl_write_cur := pl_write_cur p + r\<rparr>) in
          ret (if pl_write_cur p + r = pl_need_write p then set_poll (free w) cfd Poll_in else w)))"

text \<open>An event on a descriptor: \<open>recv\<close> takes no more than it is asked for.\<close>

datatype event_v1 = In_v1 "nat \<Rightarrow> cchar list" | Out_v1 bool "cchar list \<Rightarrow> int"

fun handle_event_v1 :: "(u64 \<Rightarrow> bool) \<Rightarrow> int \<Rightarrow> server_v1 \<Rightarrow> nat \<Rightarrow> event_v1 \<Rightarrow> server_v1 run" where
  "handle_event_v1 rl now w cfd (In_v1 recv) =
     (if max_fd_open \<le> cfd then ret (set_poll w cfd Closed)
      else handle_in_v1 rl now w cfd (recv (recv_limit (sv_table w cfd))))"
| "handle_event_v1 rl now w cfd (Out_v1 again sent) =
     (if max_fd_open \<le> cfd then ret (set_poll w cfd Closed) else handle_out_v1 again sent w cfd)"

end
