(* ===== verification/V1_Wire.thy ===== *)
theory V1_Wire
  imports V1_Server
begin

text \<open>
  What the server of version 1 does for its clients: an upload that comes in any packets after its
  request line is stored byte for byte, and a later get answers with it.
\<close>

section \<open>Requests in the buffer\<close>

definition set_line_v1 :: "cstr \<Rightarrow> i32 \<Rightarrow> i32 \<Rightarrow> i32 \<Rightarrow> cstr" where
  "set_line_v1 key flag expire tot = words [cs ''set'', key, num flag, num expire, num tot] @ crlf"

definition get_line_v1 :: "cstr \<Rightarrow> cstr" where
  "get_line_v1 key = words [cs ''get'', key] @ crlf"

lemma sscanf_last_Ws: "sscanf [Ws] s = ret []"
  by simp

lemma other_command: "l = c # us \<Longrightarrow> d \<noteq> c \<Longrightarrow> sscanf (Lit l # ds) (d # s) = ret []"
  by simp

lemma parse_set_v1:
  assumes "word_ok key" "length key < 256"
  shows "sscanf set_format_v1 (set_line_v1 key flag expire tot @ rest) = ret [AStr key, AInt flag, AInt expire, AInt tot]"
    and "sscanf get_format_v1 (set_line_v1 key flag expire tot @ rest) = ret []"
proof -
  show "sscanf set_format_v1 (set_line_v1 key flag expire tot @ rest) = ret [AStr key, AInt flag, AInt expire, AInt tot]"
    using assms by (simp add: set_format_v1_def set_line_v1_def num_def space_def crlf_def scan_steps sscanf_Lit sscanf_last_Ws
        del: sscanf.simps(2-6))
  show "sscanf get_format_v1 (set_line_v1 key flag expire tot @ rest) = ret []"
    by (simp add: get_format_v1_def set_line_v1_def cs_def)
qed

lemma parse_get_v1:
  assumes "word_ok key" "length key < 256"
  shows "sscanf get_format_v1 (get_line_v1 key @ rest) = ret [AStr key]"
  using assms by (simp add: get_format_v1_def get_line_v1_def space_def crlf_def scan_steps sscanf_Lit sscanf_last_Ws
      del: sscanf.simps(2-6))

lemma line_text: "0 \<notin> set (set_line_v1 key flag expire tot)" "0 \<notin> set (get_line_v1 key)" if "word_ok key"
  using that print_int_text(1)
  by (auto simp: set_line_v1_def get_line_v1_def num_def cs_def space_def crlf_def word_ok_def list_all_iff zero_cchar_def)

lemma find_crlf_first: "CC 13 \<notin> set a \<Longrightarrow> find_crlf (a @ CC 13 # CC 10 # b) = Some (length a)"
proof (induction a)
  case (Cons x a)
  then obtain y zs where "a @ CC 13 # CC 10 # b = y # zs" by (cases a) auto
  then show ?case using Cons by auto
qed simp

lemma find_set_line:
  assumes "word_ok key"
  shows "find_crlf (set_line_v1 key flag expire tot @ rest) = Some (length (set_line_v1 key flag expire tot) - 2)"
    and "2 \<le> length (set_line_v1 key flag expire tot)"
proof -
  let ?a = "words [cs ''set'', key, num flag, num expire, num tot]"
  have "\<forall>c \<in> set (print_int z). \<not> is_space c" for z
    using print_nat_digits digit_not_space by (auto simp: print_int_def list_all_iff is_space_def)
  then have "CC 13 \<notin> set (num z)" for z unfolding num_def using is_space_chars(2) by blast
  moreover have "CC 13 \<notin> set key" using assms is_space_chars(2) by (auto simp: word_ok_def list_all_iff)
  ultimately have "CC 13 \<notin> set ?a" by (simp add: cs_def space_def)
  then show "find_crlf (set_line_v1 key flag expire tot @ rest) = Some (length (set_line_v1 key flag expire tot) - 2)"
    using find_crlf_first [of ?a rest] by (simp add: set_line_v1_def crlf_def)
  show "2 \<le> length (set_line_v1 key flag expire tot)" by (simp add: set_line_v1_def crlf_def)
qed

text \<open>The string in the buffer after a packet that starts with a line.\<close>

lemma cstr_of_packet:
  assumes "length got < in_buf_size"
  shows "cstr_of (got @ replicate (in_buf_size - length got) 0) = ret (takeWhile (\<lambda>x. x \<noteq> 0) got)"
proof -
  have "takeWhile (\<lambda>x. x \<noteq> 0) (got @ replicate n 0) = takeWhile (\<lambda>x. x \<noteq> 0) got" for n
  proof (induction got)
    case Nil
    then show ?case by (cases n) auto
  qed auto
  then show ?thesis using assms by (simp add: cstr_of_def)
qed

lemma string_after_line: "0 \<notin> set l \<Longrightarrow> takeWhile (\<lambda>x. x \<noteq> 0) (l @ r) = l @ takeWhile (\<lambda>x. x \<noteq> 0) r"
  by (induction l) auto

lemma handle_in_set:
  assumes "word_ok key" "length key < 256" and "pl_need_read (sv_table w cfd) = 0"
    and "got = set_line_v1 key flag expire tot @ part" and "length got < in_buf_size"
  shows "\<exists>s. handle_in_v1 rl now w cfd got =
    do_set_v1 rl now w cfd (got @ replicate (in_buf_size - length got) 0) (set_line_v1 key flag expire tot @ s)
      (length got) key flag expire tot"
proof -
  let ?s = "takeWhile (\<lambda>x. x \<noteq> 0) part"
  have s: "takeWhile (\<lambda>x. x \<noteq> 0) got = set_line_v1 key flag expire tot @ ?s"
    unfolding assms(4) by (rule string_after_line [OF line_text(1) [OF assms(1)]])
  have "got \<noteq> []" using find_set_line(2) [OF assms(1), of flag expire tot] unfolding assms(4) by auto
  then show ?thesis
    using assms(3) parse_set_v1 [OF assms(1,2), of flag expire tot ?s] cstr_of_packet [OF assms(5)] s
    by (intro exI [of _ ?s]) (simp add: handle_in_v1_def Let_def)
qed

lemma handle_in_get:
  assumes "word_ok key" "length key < 256" and "pl_need_read (sv_table w cfd) = 0"
  shows "handle_in_v1 rl now w cfd (get_line_v1 key) = do_get_v1 rl now w cfd key"
proof -
  have n: "length (get_line_v1 key) < in_buf_size"
    using assms(2) by (simp add: get_line_v1_def crlf_def cs_def in_buf_size_def)
  have "cstr_of (get_line_v1 key @ replicate (in_buf_size - length (get_line_v1 key)) 0) = ret (get_line_v1 key)"
    unfolding cstr_of_packet [OF n] using string_after_line [OF line_text(2) [OF assms(1)], of "[]"] by simp
  moreover have "get_line_v1 key \<noteq> []" by (simp add: get_line_v1_def crlf_def)
  ultimately show ?thesis
    using assms(3) parse_get_v1 [OF assms(1,2), of "[]"] by (simp add: handle_in_v1_def Let_def)
qed

section \<open>The database of the server\<close>

text \<open>A value as the server stores it: flag and time of expiry before the bytes of the client.\<close>

definition item_v1 :: "i32 \<Rightarrow> i32 \<Rightarrow> cchar list \<Rightarrow> cchar list" where
  "item_v1 flag expire body = map CC (enc32 flag) @ map CC (enc32 expire) @ body"

lemma item_v1_length [simp]: "length (item_v1 flag expire body) = 8 + length body"
  by (simp add: item_v1_def int32.enc_length)

definition serving :: "nat \<Rightarrow> nat \<Rightarrow> server_v1 \<Rightarrow> (cstr \<rightharpoonup> cchar list option) \<Rightarrow> bool" where
  "serving kb fb w m \<longleftrightarrow> (\<exists>es. told_v1 kb fb (sv_db w) m es) \<and> length (sv_big w) = max_value_size"

lemma told_pos: "told_v1 kb fb db m es \<Longrightarrow> told_v1 kb fb (db\<lparr>v1_pos := p\<rparr>) m es"
proof -
  assume t: "told_v1 kb fb db m es"
  have "same_array db (db\<lparr>v1_pos := p\<rparr>)" by (simp add: same_array_def)
  then show ?thesis
    using t by (auto simp: told_v1_def inv_v1_def value_v1_def wf_files get_node_v1_array simp del: entry_good.simps)
qed

lemma serving_put:
  assumes "serving kb fb w m" and "word_ok key" "length key \<le> 255" and "\<forall>b. rl b"
    and "kb + length key < 2 ^ 31" "fb < 2 ^ 63" and "unat n \<le> length v" "unat n < 2 ^ 31"
  shows "\<exists>db. tst_put_v1 rl (sv_db w) key v n = ret db \<and>
    (\<forall>w'. sv_db w' = db \<and> length (sv_big w') = max_value_size \<longrightarrow>
      serving (kb + length key) (fb + 8 + length key + unat n) w'
        (m(key \<mapsto> (if n = 0 then None else Some (take (unat n) v)))))"
proof -
  obtain es where t: "told_v1 kb fb (sv_db w) m es" using assms(1) by (auto simp: serving_def)
  have p: "op_ok_v1 (Put_v1 key v n)" using assms(2,3,7,8) by simp
  from put_told [OF t p assms(4-6)] show ?thesis by (auto simp: serving_def)
qed

lemma serving_get:
  assumes "serving kb fb w m" and "key \<noteq> []" and "m key \<noteq> None \<or> (\<forall>k. prefix key k \<longrightarrow> m k = None)"
    and "\<forall>x. m key = Some (Some x) \<longrightarrow> length x \<le> max_value_size"
  shows "\<exists>p. tst_get_v1 (sv_db w) key (sv_big w) 0 = ret ((sv_db w)\<lparr>v1_pos := p\<rparr>, answer_v1 m key (sv_big w))"
proof -
  obtain es where t: "told_v1 kb fb (sv_db w) m es" and b: "length (sv_big w) = max_value_size"
    using assms(1) by (auto simp: serving_def)
  from get_told [OF t assms(2,3)] assms(4) b show ?thesis by simp
qed

lemma mem_put_at: "length a = n \<Longrightarrow> length xs \<le> length b \<Longrightarrow> mem_put (a @ b) (int n) xs = ret (a @ xs @ drop (length xs) b)"
  by (simp add: mem_put_def)

lemma mem_get_at: "length a = n \<Longrightarrow> length xs = k \<Longrightarrow> mem_get (a @ xs @ b) (int n) (int k) = ret xs"
  by (simp add: mem_get_def)

lemma unat_small: "n < 2 ^ 32 \<Longrightarrow> unat (of_nat n :: u32) = n"
  using unat_of_nat [of n, where ?'a = 32] by simp

section \<open>An upload\<close>

text \<open>The other connections stay as they are.\<close>

definition same_others :: "nat \<Rightarrow> server_v1 \<Rightarrow> server_v1 \<Rightarrow> bool" where
  "same_others cfd w w' \<longleftrightarrow> (\<forall>fd. fd \<noteq> cfd \<longrightarrow> sv_table w' fd = sv_table w fd \<and> sv_poll w' fd = sv_poll w fd)"

text \<open>\<open>cur\<close> bytes of the stored value and the line end after it have come.\<close>

definition uploading :: "server_v1 \<Rightarrow> nat \<Rightarrow> cstr \<Rightarrow> cchar list \<Rightarrow> nat \<Rightarrow> bool" where
  "uploading w cfd key item cur \<longleftrightarrow> sv_poll w cfd = Poll_in \<and> cur < length item + 2 \<and>
     (\<exists>rb. length rb = length item + 2 \<and> take cur rb = take cur (item @ crlf) \<and>
       sv_table w cfd =
         no_payload\<lparr>pl_read_buf := Some rb, pl_putkey := Some key, pl_need_read := int (length item) + 2, pl_read_cur := int cur\<rparr>)"

definition answered :: "server_v1 \<Rightarrow> nat \<Rightarrow> cchar list \<Rightarrow> bool" where
  "answered w cfd msg \<longleftrightarrow> sv_poll w cfd = Poll_out \<and>
     sv_table w cfd = no_payload\<lparr>pl_write_buf := Some msg, pl_need_write := int (length msg)\<rparr>"

definition idle_v1 :: "server_v1 \<Rightarrow> nat \<Rightarrow> bool" where
  "idle_v1 w cfd \<longleftrightarrow> cfd < max_fd_open \<and> sv_poll w cfd = Poll_in \<and> sv_table w cfd = no_payload"

lemma do_set_first:
  assumes srv: "serving kb fb w m" and key: "word_ok key" "length key \<le> 255" and rl: "\<forall>b. rl b"
    and sz: "kb + length key < 2 ^ 31" "fb < 2 ^ 63" and len: "length body \<le> max_value_size"
    and got: "got = set_line_v1 key flag expire (of_nat (length body)) @ part" "length got < in_buf_size"
    and part: "part = take k (body @ crlf)" and idle_v1: "idle_v1 w cfd"
    and item: "item = item_v1 flag (if expire \<noteq> 0 then word_of_int (sint expire + now) else expire) body"
  shows "\<exists>w'. do_set_v1 rl now w cfd (got @ replicate (in_buf_size - length got) 0)
      (set_line_v1 key flag expire (of_nat (length body)) @ s) (length got) key flag expire (of_nat (length body)) = ret w' \<and>
    same_others cfd w w' \<and>
    (serving (kb + length key) (fb + 16 + length key + length body) w' (m(key \<mapsto> Some item)) \<and> answered w' cfd (text_line ''STORED'') \<or>
     serving kb fb w' m \<and> uploading w' cfd key item (8 + length part))"
proof -
  let ?line = "set_line_v1 key flag expire (of_nat (length body) :: i32)"
  obtain ex where ex: "(if expire \<noteq> 0 then word_of_int (sint expire + now) else expire) = ex" by blast
  note item = item [unfolded ex]
  let ?big = "map CC (enc32 flag) @ map CC (enc32 ex) @ part @ drop (length part + 8) (sv_big w)"
  have big: "length (sv_big w) = max_value_size" using srv by (simp add: serving_def)
  have n31: "length body < 2 ^ 31" using len by (simp add: max_value_size_def)
  have tot: "sint (of_nat (length body) :: i32) = int (length body)"
    using len_of_nat [OF n31] by linarith
  have g: "length got = length ?line + length part" "2 \<le> length ?line" "length part < 1024"
    using got find_set_line(2) [OF key(1)] by (simp_all add: in_buf_size_def)
  have fd: "find_crlf (?line @ s) = Some (length ?line - 2)" using find_set_line(1) [OF key(1)] .
  have puts: "mem_put (sv_big w) 0 (map CC (enc32 flag)) = ret (map CC (enc32 flag) @ drop 4 (sv_big w))"
    "mem_put (map CC (enc32 flag) @ drop 4 (sv_big w)) 4 (map CC (enc32 ex)) =
      ret (map CC (enc32 flag) @ map CC (enc32 ex) @ drop 8 (sv_big w))"
    "mem_put (map CC (enc32 flag) @ map CC (enc32 ex) @ drop 8 (sv_big w)) 8 part = ret ?big"
    using mem_put_at [of "[]" 0 "map CC (enc32 flag)" "sv_big w"]
      mem_put_at [of "map CC (enc32 flag)" 4 "map CC (enc32 ex)" "drop 4 (sv_big w)"]
      mem_put_at [of "map CC (enc32 flag) @ map CC (enc32 ex)" 8 part "drop 8 (sv_big w)"] big g(3)
    by (simp_all add: int32.enc_length max_value_size_def)
  have get: "mem_get (got @ replicate (in_buf_size - length got) 0) (int (length ?line)) (int (length part)) = ret part"
    using mem_get_at [of ?line "length ?line" part "length part"] by (simp add: got(1))
  have head: "int (length ?line - 2) + 2 = int (length ?line)" "int (length got) - int (length ?line) = int (length part)"
    using g(1,2) by simp_all
  obtain B where B: "got @ replicate (in_buf_size - length got) 0 = B" by blast
  note get = get [unfolded B]
  let ?w = "w\<lparr>sv_big := ?big\<rparr>"
  have bigl: "length ?big = max_value_size" using big g(3) by (simp add: int32.enc_length max_value_size_def)
  show ?thesis
  proof (cases "length body < length part")
    case True
    have n: "unat (of_nat (8 + length body) :: u32) = 8 + length body"
      by (rule unat_small) (use n31 in simp)
    have b: "length body < 1024" using True g(3) by simp
    have "take (8 + length body) ?big = item"
      using True part by (simp add: item item_v1_def int32.enc_length min_def split: if_splits)
    moreover obtain db where db: "tst_put_v1 rl (sv_db w) key ?big (of_nat (8 + length body)) = ret db"
      "\<forall>w'. sv_db w' = db \<and> length (sv_big w') = max_value_size \<longrightarrow>
        serving (kb + length key) (fb + 8 + length key + (8 + length body)) w'
          (m(key \<mapsto> (if (of_nat (8 + length body) :: u32) = 0 then None else Some (take (8 + length body) ?big))))"
      using serving_put [OF srv key rl sz, of "of_nat (8 + length body)" ?big] bigl b unfolding n
      by (auto simp: max_value_size_def)
    moreover have db1: "tst_put_v1 rl (sv_db w) key ?big (of_nat (length body) + 8) = ret db" using db(1) by (simp add: add.commute)
    moreover have "(of_nat (8 + length body) :: u32) \<noteq> 0" using n by (metis add_is_0 unat_0 zero_neq_numeral)
    moreover let ?w' = "answer_with (?w\<lparr>sv_db := db\<rparr>) cfd (text_line ''STORED'')"
    have w': "sv_db ?w' = db" "length (sv_big ?w') = max_value_size" "same_others cfd w ?w'"
      "answered ?w' cfd (text_line ''STORED'')"
      using idle_v1 bigl by (simp_all add: answer_with_def set_poll_def upd_payload_def same_others_def answered_def idle_v1_def no_payload_def)
    ultimately have "serving (kb + length key) (fb + 16 + length key + length body) ?w' (m(key \<mapsto> Some item))"
      using db(2) w'(1,2) by (simp add: add.assoc add.commute add.left_commute)
    moreover have "do_set_v1 rl now w cfd (got @ replicate (in_buf_size - length got) 0) (?line @ s) (length got) key flag
        expire (of_nat (length body)) = ret ?w'"
      using True len g(1) db1 unfolding B by (simp add: do_set_v1_def Let_def tot ex puts get fd head)
    ultimately show ?thesis using w'(3,4) by blast
  next
    case False
    then have pl: "length part \<le> length body" by simp
    have got8: "mem_get ?big 0 (int (length part) + 8) = ret (map CC (enc32 flag) @ map CC (enc32 ex) @ part)"
      using mem_get_at [of "[]" 0 "map CC (enc32 flag) @ map CC (enc32 ex) @ part" "8 + length part" "drop (length part + 8) (sv_big w)"]
      by (simp add: int32.enc_length add.commute)
    let ?rb = "map CC (enc32 flag) @ map CC (enc32 ex) @ part @ replicate (length body + 2 - length part) 0"
    have rb: "mem_put (replicate (nat (int (length body) + 8 + 2)) 0) 0 (map CC (enc32 flag) @ map CC (enc32 ex) @ part) = ret ?rb"
    proof -
      have "nat (int (length body) + 8 + 2) = length body + 10" by simp
      then show ?thesis
        using mem_put_at [of "[]" 0 "map CC (enc32 flag) @ map CC (enc32 ex) @ part" "replicate (length body + 10) 0"] pl
        by (simp add: int32.enc_length)
    qed
    let ?w' = "upd_payload ?w cfd (\<lambda>p. p\<lparr>pl_read_buf := Some ?rb, pl_read_cur := int (length part) + 8,
        pl_putkey := Some key, pl_need_read := int (length body) + 8 + 2\<rparr>)"
    have "do_set_v1 rl now w cfd (got @ replicate (in_buf_size - length got) 0) (?line @ s) (length got) key flag
        expire (of_nat (length body)) = ret ?w'"
      using False len g(1) got8 rb unfolding B by (simp add: do_set_v1_def Let_def tot ex puts get fd head)
    moreover have "serving kb fb ?w' m" using srv bigl by (simp add: serving_def upd_payload_def)
    moreover have "same_others cfd w ?w'" by (simp add: same_others_def upd_payload_def)
    moreover have "uploading ?w' cfd key item (8 + length part)"
    proof -
      have "take (length part) (body @ crlf) = part"
        unfolding part by (metis append_eq_conv_conj append_take_drop_id)
      then have "take (8 + length part) ?rb = take (8 + length part) (item @ crlf)"
        by (simp add: item item_v1_def int32.enc_length)
      moreover have "length ?rb = length item + 2" using pl by (simp add: item int32.enc_length)
      ultimately show ?thesis
        using idle_v1 pl unfolding uploading_def
        by (intro conjI exI [of _ ?rb]) (simp_all add: idle_v1_def upd_payload_def no_payload_def item)
    qed
    ultimately show ?thesis by blast
  qed
qed

lemma do_upload_step:
  assumes srv: "serving kb fb w m" and key: "word_ok key" "length key \<le> 255" and rl: "\<forall>b. rl b"
    and sz: "kb + length key < 2 ^ 31" "fb < 2 ^ 63" and len: "0 < length item" "length item \<le> 8 + max_value_size"
    and up: "uploading w cfd key item cur" and got: "got = take k (drop cur (item @ crlf))" "got \<noteq> []"
  shows "\<exists>w'. do_upload_v1 rl w cfd got = ret w' \<and> same_others cfd w w' \<and>
    (serving (kb + length key) (fb + 8 + length key + length item) w' (m(key \<mapsto> Some item)) \<and> answered w' cfd (text_line ''STORED'') \<or>
     serving kb fb w' m \<and> uploading w' cfd key item (cur + length got))"
proof -
  obtain rb where rb: "length rb = length item + 2" "take cur rb = take cur (item @ crlf)"
    and p: "sv_table w cfd = no_payload\<lparr>pl_read_buf := Some rb, pl_putkey := Some key,
      pl_need_read := int (length item) + 2, pl_read_cur := int cur\<rparr>"
    and cur: "sv_poll w cfd = Poll_in" "cur < length item + 2"
    using up by (auto simp: uploading_def)
  have cr: "length crlf = 2" by (simp add: crlf_def)
  let ?n = "cur + length got"
  let ?rb = "take cur rb @ got @ drop ?n rb"
  have n: "?n \<le> length item + 2" using got(1) cur(2) cr by simp
  have put: "mem_put rb (int cur) got = ret ?rb" using n rb(1) by (simp add: mem_put_def)
  have so_far: "take ?n ?rb = take ?n (item @ crlf)"
  proof -
    have "take ?n (item @ crlf) = take cur (item @ crlf) @ take (length got) (drop cur (item @ crlf))"
      by (simp only: take_add)
    also have "take (length got) (drop cur (item @ crlf)) = got"
      unfolding got(1) by (metis append_eq_conv_conj append_take_drop_id)
    also have "take cur (item @ crlf) @ got = take ?n ?rb"
      unfolding rb(2) [symmetric] using rb(1) cur(2) by simp
    finally show ?thesis by simp
  qed
  have rbl: "length ?rb = length item + 2" using n rb(1) by simp
  let ?w = "upd_payload w cfd (\<lambda>p. p\<lparr>pl_read_buf := Some ?rb, pl_read_cur := int cur + int (length got)\<rparr>)"
  show ?thesis
  proof (cases "?n = length item + 2")
    case True
    then have "?rb = item @ crlf" using so_far rbl cr by simp
    have u: "unat (of_nat (length item) :: u32) = length item"
  by (rule unat_small) (use len(2) in \<open>simp add: max_value_size_def\<close>)
    obtain db where db: "tst_put_v1 rl (sv_db w) key (item @ crlf) (of_nat (length item)) = ret db"
      "\<forall>w'. sv_db w' = db \<and> length (sv_big w') = max_value_size \<longrightarrow>
        serving (kb + length key) (fb + 8 + length key + length item) w'
          (m(key \<mapsto> (if (of_nat (length item) :: u32) = 0 then None else Some (take (length item) (item @ crlf)))))"
      using serving_put [OF srv key rl sz, of "of_nat (length item)" "item @ crlf"] len unfolding u
      by (auto simp: max_value_size_def)
    let ?w' = "answer_with (upd_payload (?w\<lparr>sv_db := db\<rparr>) cfd (\<lambda>p. p\<lparr>pl_read_buf := None,
        pl_putkey := None, pl_need_read := 0, pl_read_cur := 0\<rparr>)) cfd (text_line ''STORED'')"
    have nz: "(of_nat (length item) :: u32) \<noteq> 0" using u len(1) by (metis less_irrefl unat_0)
    have w': "sv_db ?w' = db" "length (sv_big ?w') = max_value_size" "same_others cfd w ?w'"
      "answered ?w' cfd (text_line ''STORED'')"
      using srv p by (simp_all add: answer_with_def set_poll_def upd_payload_def same_others_def answered_def no_payload_def serving_def)
    have "serving (kb + length key) (fb + 8 + length key + length item) ?w' (m(key \<mapsto> Some item))"
      using db(2) w'(1,2) nz by simp
    moreover have "do_upload_v1 rl w cfd got = ret ?w'"
    proof -
      have "int (length item) + 2 = int cur + int (length got)" "int cur + int (length got) - 2 = int (length item)"
        using True by linarith+
      then show ?thesis
        using put db(1) \<open>?rb = item @ crlf\<close> by (simp add: do_upload_v1_def Let_def p upd_payload_def)
    qed
    ultimately show ?thesis using w'(3,4) by blast
  next
    case False
    have "do_upload_v1 rl w cfd got = ret ?w"
      using put False by (simp add: do_upload_v1_def Let_def p upd_payload_def)
    moreover have "serving kb fb ?w m" using srv by (simp add: serving_def upd_payload_def)
    moreover have "same_others cfd w ?w" by (simp add: same_others_def upd_payload_def)
    moreover have "uploading ?w cfd key item ?n"
      unfolding uploading_def
      using cur(1) n False so_far rbl by (intro conjI exI [of _ ?rb]) (simp_all add: upd_payload_def p no_payload_def)
    ultimately show ?thesis by blast
  qed
qed

text \<open>
  The events of a connection whose client has sent \<open>s\<close>, until it is polled for output: at each one
  the network delivers up to \<open>k\<close> bytes.
\<close>

fun upload_run ::
  "(u64 \<Rightarrow> bool) \<Rightarrow> server_v1 \<Rightarrow> nat \<Rightarrow> (int \<times> nat) list \<Rightarrow> cchar list \<Rightarrow> server_v1 run"
where
  "upload_run rl w cfd [] s = ret w"
| "upload_run rl w cfd ((now, k) # ks) s =
     (if sv_poll w cfd \<noteq> Poll_in then ret w
      else
        run_bind (handle_event_v1 rl now w cfd (In_v1 (\<lambda>limit. take (min k limit) s))) (\<lambda>w'.
        upload_run rl w' cfd ks (drop (min k (recv_limit (sv_table w cfd))) s)))"

lemma same_others_trans: "same_others cfd w w' \<Longrightarrow> same_others cfd w' w'' \<Longrightarrow> same_others cfd w w''"
  by (simp add: same_others_def)

lemma upload_run_answered: "answered w cfd msg \<Longrightarrow> upload_run rl w cfd ks s = ret w"
  by (cases ks) (auto simp: answered_def)

lemma upload_rest:
  assumes "serving kb fb w m" and "word_ok key" "length key \<le> 255" and "\<forall>b. rl b"
    and "kb + length key < 2 ^ 31" "fb < 2 ^ 63" and "0 < length item" "length item \<le> 8 + max_value_size"
    and "cfd < max_fd_open" and "uploading w cfd key item cur" and "\<forall>(now, k) \<in> set ks. 0 < k"
    and "length item + 2 - cur \<le> length ks"
  shows "\<exists>w'. upload_run rl w cfd ks (drop cur (item @ crlf)) = ret w' \<and> same_others cfd w w' \<and>
    serving (kb + length key) (fb + 8 + length key + length item) w' (m(key \<mapsto> Some item)) \<and> answered w' cfd (text_line ''STORED'')"
  using assms(1,10-12)
proof (induction ks arbitrary: w cur)
  case Nil
  then show ?case by (auto simp: uploading_def)
next
  case (Cons e ks)
  obtain now k where e: "e = (now, k)" by (cases e)
  let ?p = "sv_table w cfd" and ?s = "drop cur (item @ crlf)"
  have p: "pl_need_read ?p = int (length item) + 2" "pl_read_cur ?p = int cur" "cur < length item + 2" "sv_poll w cfd = Poll_in"
    using Cons.prems(2) by (auto simp: uploading_def no_payload_def)
  have cr: "length crlf = 2" by (simp add: crlf_def)
  let ?n = "min k (recv_limit ?p)"
  have n: "0 < ?n" using p(1-3) Cons.prems(3) by (auto simp: recv_limit_def Let_def in_buf_size_def e)
  let ?got = "take ?n ?s"
  have got: "?got \<noteq> []" using n p(3) cr by auto
  have "handle_event_v1 rl now w cfd (In_v1 (\<lambda>limit. take (min k limit) S)) = do_upload_v1 rl w cfd (take ?n S)"
    if "take ?n S \<noteq> []" for S
    using that p(1) assms(9) by (simp add: handle_in_v1_def del: take_eq_Nil)
  note h = this [OF got]
  obtain w' where w': "do_upload_v1 rl w cfd ?got = ret w'" "same_others cfd w w'"
    "serving (kb + length key) (fb + 8 + length key + length item) w' (m(key \<mapsto> Some item)) \<and> answered w' cfd (text_line ''STORED'') \<or>
     serving kb fb w' m \<and> uploading w' cfd key item (cur + length ?got)"
    using do_upload_step [OF Cons.prems(1) assms(2-8) Cons.prems(2) refl got] by blast
  have run: "upload_run rl w cfd (e # ks) ?s = upload_run rl w' cfd ks (drop ?n ?s)"
    using h w'(1) p(4) by (simp add: e)
  from w'(3) show ?case
  proof
    assume d: "serving (kb + length key) (fb + 8 + length key + length item) w' (m(key \<mapsto> Some item)) \<and> answered w' cfd (text_line ''STORED'')"
    then have "upload_run rl w cfd (e # ks) ?s = ret w'" unfolding run using upload_run_answered by blast
    with w'(2) d show ?thesis by blast
  next
    assume u: "serving kb fb w' m \<and> uploading w' cfd key item (cur + length ?got)"
    then have "cur + length ?got < length item + 2" by (simp only: uploading_def)
    moreover have "length ?s = length item + 2 - cur" using cr by (simp only: length_drop length_append)
    ultimately have "length ?got < length ?s" by linarith
    then have l: "length ?got = ?n" using length_take [of ?n ?s] by (metis min_def less_irrefl)
    have "length item + 2 - (cur + length ?got) \<le> length ks" using Cons.prems(4) n unfolding l length_Cons by linarith
    moreover have "\<forall>(now, k) \<in> set ks. 0 < k" using Cons.prems(3) by simp
    ultimately obtain w'' where "upload_run rl w' cfd ks (drop (cur + length ?got) (item @ crlf)) = ret w''"
      "same_others cfd w' w''" "serving (kb + length key) (fb + 8 + length key + length item) w'' (m(key \<mapsto> Some item))"
      "answered w'' cfd (text_line ''STORED'')"
      using Cons.IH [of w' "cur + length ?got"] u by blast
    moreover from this have "upload_run rl w cfd (e # ks) ?s = ret w''"
      unfolding run by (simp only: drop_drop l add.commute)
    ultimately show ?thesis using same_others_trans [OF w'(2)] by blast
  qed
qed

lemma do_get_answers:
  assumes srv: "serving kb fb w m" and key: "word_ok key" and v: "m key = Some (Some (item_v1 flag ex body))"
    and len: "8 + length body \<le> max_value_size" and live: "ex = 0 \<or> now < sint ex"
    and short: "length (value_header key flag (of_nat (length body))) < 256" and idle_v1: "idle_v1 w cfd"
  shows "\<exists>w'. do_get_v1 rl now w cfd key = ret w' \<and> same_others cfd w w' \<and> serving kb fb w' m \<and>
    answered w' cfd (value_header key flag (of_nat (length body)) @ body @ crlf @ text_line ''END'')"
proof -
  let ?item = "item_v1 flag ex body"
  let ?big = "?item @ drop (8 + length body) (sv_big w)"
  let ?h = "value_header key flag (of_nat (length body))"
  have key': "key \<noteq> []" using word_ok_key [OF key] by simp
  have big: "length (sv_big w) = max_value_size" using srv by (simp add: serving_def)
  obtain p where g: "tst_get_v1 (sv_db w) key (sv_big w) 0 = ret ((sv_db w)\<lparr>v1_pos := p\<rparr>, ?big, of_nat (8 + length body))"
    using serving_get [OF srv key'] v len by (auto simp: answer_v1_def)
  have n: "unat (of_nat (8 + length body) :: u32) = 8 + length body"
    by (rule unat_small) (use len in \<open>simp add: max_value_size_def\<close>)
  have nz: "(of_nat (8 + length body) :: u32) \<noteq> 0" using n by (metis add_is_0 unat_0 zero_neq_numeral)
  have l: "(of_nat (8 + length body) :: u32) - 8 = of_nat (length body)" by simp
  have b: "uint (of_nat (length body) :: u32) = int (length body)"
  proof -
    have "unat (of_nat (length body) :: u32) = length body"
      by (rule unat_small) (use len in \<open>simp add: max_value_size_def\<close>)
    then show ?thesis by (metis of_nat_unat)
  qed
  have flds: "mem_get ?big 0 4 = ret (map CC (enc32 flag))" "mem_get ?big 4 4 = ret (map CC (enc32 ex))"
    "mem_get ?big 8 (int (length body)) = ret body"
    using mem_get_at [of "[]" 0 "map CC (enc32 flag)" 4] mem_get_at [of "map CC (enc32 flag)" 4 "map CC (enc32 ex)" 4]
      mem_get_at [of "map CC (enc32 flag) @ map CC (enc32 ex)" 8 body "length body"]
    by (simp_all add: item_v1_def int32.enc_length)
  let ?size = "of_nat (length body) + of_nat (length ?h) + 7 :: u32"
  have size: "unat ?size = length ?h + length body + 7"
  proof -
    have "?size = of_nat (length ?h + length body + 7)" by simp
    moreover have "unat (of_nat (length ?h + length body + 7) :: u32) = length ?h + length body + 7"
      by (rule unat_small) (use len short in \<open>simp add: max_value_size_def\<close>)
    ultimately show ?thesis by metis
  qed
  have "length (crlf @ text_line ''END'') = 7" by (simp add: crlf_def text_line_def cs_def)
  then have puts: "mem_put (replicate (unat ?size) 0) 0 ?h = ret (?h @ replicate (length body + 7) 0)"
    "mem_put (?h @ replicate (length body + 7) 0) (int (length ?h)) body = ret (?h @ body @ replicate 7 0)"
    "mem_put (?h @ body @ replicate 7 0) (int (length ?h) + int (length body)) (crlf @ text_line ''END'') =
      ret (?h @ body @ crlf @ text_line ''END'')"
    unfolding size
    using mem_put_at [of "[]" 0 ?h "replicate (length ?h + length body + 7) 0"]
      mem_put_at [of ?h "length ?h" body "replicate (length body + 7) 0"]
      mem_put_at [of "?h @ body" "length ?h + length body" "crlf @ text_line ''END''" "replicate 7 0"]
    by simp_all
  let ?w = "w\<lparr>sv_db := (sv_db w)\<lparr>v1_pos := p\<rparr>, sv_big := ?big\<rparr>"
  let ?w' = "answer_with ?w cfd (?h @ body @ crlf @ text_line ''END'')"
  have "do_get_v1 rl now w cfd key = ret ?w'"
    using g nz l flds puts live short
    by (cases "ex = 0") (simp_all add: do_get_v1_def Let_def b comp_def int32.dec_enc)
  moreover have "\<exists>es. told_v1 kb fb ((sv_db w)\<lparr>v1_pos := p\<rparr>) m es"
    using srv told_pos unfolding serving_def by blast
  then have "serving kb fb ?w' m"
    using len big by (simp add: serving_def answer_with_def set_poll_def upd_payload_def)
  moreover have "same_others cfd w ?w'" "answered ?w' cfd (?h @ body @ crlf @ text_line ''END'')"
    using idle_v1 by (simp_all add: answer_with_def set_poll_def upd_payload_def same_others_def answered_def idle_v1_def no_payload_def)
  ultimately show ?thesis by blast
qed

lemma first_packet:
  assumes "serving kb fb w m" and "idle_v1 w fd1"
    and "word_ok key" and "length key \<le> 255" and "\<forall>b. rl b" and "kb + length key < 2 ^ 31" and "fb < 2 ^ 63"
    and "8 + length body \<le> max_value_size" and "line = set_line_v1 key flag expire (of_nat (length body))"
    and "length line \<le> k" and "k < in_buf_size"
    and "ex = (if expire \<noteq> 0 then word_of_int (sint expire + now) else expire)"
    and "item = item_v1 flag ex body" and "part = take (k - length line) (body @ crlf)"
  shows "\<exists>w'. handle_in_v1 rl now w fd1 (line @ part) = ret w' \<and> same_others fd1 w w' \<and>
    (serving (kb + length key) (fb + 16 + length key + length body) w' (m(key \<mapsto> Some item)) \<and>
       answered w' fd1 (text_line ''STORED'') \<or>
     serving kb fb w' m \<and> uploading w' fd1 key item (8 + length part))"
proof -
  have k: "length key < 256" "length body \<le> max_value_size" using assms(4,8) by simp_all
  have io: "pl_need_read (sv_table w fd1) = 0" using assms(2) by (auto simp: idle_v1_def no_payload_def)
  have gl: "length (line @ part) < in_buf_size" using assms(10,11,14) by simp
  obtain s where s: "handle_in_v1 rl now w fd1 (line @ part) =
    do_set_v1 rl now w fd1 ((line @ part) @ replicate (in_buf_size - length (line @ part)) 0) (line @ s)
      (length (line @ part)) key flag expire (of_nat (length body))"
    using handle_in_set [OF assms(3) k(1) io, of "line @ part" flag expire "of_nat (length body)" part] gl
    unfolding assms(9) by blast
  show ?thesis
    unfolding s unfolding assms(9,13,14) by (rule do_set_first [OF assms(1,3-7) k(2) refl _ refl assms(2)])
      (use gl assms(12,14) in \<open>simp_all add: assms(9)\<close>)
qed

lemma upload_stored:
  assumes "serving kb fb w m" and "idle_v1 w fd1"
    and "word_ok key" and "length key \<le> 255" and "\<forall>b. rl b" and "kb + length key < 2 ^ 31" and "fb < 2 ^ 63"
    and "8 + length body \<le> max_value_size" and "line = set_line_v1 key flag expire (of_nat (length body))"
    and "length line \<le> k" and "k < in_buf_size"
    and "ex = (if expire \<noteq> 0 then word_of_int (sint expire + now) else expire)"
    and "\<forall>(now, k) \<in> set ks. 0 < k" and "length body + 2 \<le> length ks"
  shows "\<exists>w1. upload_run rl w fd1 ((now, k) # ks) (line @ body @ crlf) = ret w1 \<and> same_others fd1 w w1 \<and>
    serving (kb + length key) (fb + 16 + length key + length body) w1 (m(key \<mapsto> Some (item_v1 flag ex body))) \<and>
    answered w1 fd1 (text_line ''STORED'')"
proof -
  let ?item = "item_v1 flag ex body" and ?part = "take (k - length line) (body @ crlf)"
  let ?m = "m(key \<mapsto> Some ?item)" and ?fb = "fb + 16 + length key + length body"
  have io: "pl_need_read (sv_table w fd1) = 0" "sv_poll w fd1 = Poll_in" "fd1 < max_fd_open"
    using assms(2) by (auto simp: idle_v1_def no_payload_def)
  have got: "take (min k in_buf_size) (line @ body @ crlf) = line @ ?part"
    using assms(10,11) by (simp add: min_absorb1)
  obtain w' where w': "handle_in_v1 rl now w fd1 (line @ ?part) = ret w'" "same_others fd1 w w'"
    "serving (kb + length key) ?fb w' ?m \<and> answered w' fd1 (text_line ''STORED'') \<or>
     serving kb fb w' m \<and> uploading w' fd1 key ?item (8 + length ?part)"
    using first_packet [OF assms(1-12) refl refl] by blast
  have "recv_limit (sv_table w fd1) = in_buf_size" using io(1) by (simp add: recv_limit_def)
  moreover have "drop (min k in_buf_size) (line @ body @ crlf) = drop (k - length line) (body @ crlf)"
    using assms(10,11) by (simp add: min_absorb1)
  ultimately have run: "upload_run rl w fd1 ((now, k) # ks) (line @ body @ crlf) =
      upload_run rl w' fd1 ks (drop (k - length line) (body @ crlf))"
    using io(2,3) got w'(1) by (simp del: drop_append take_append)
  from w'(3) show ?thesis
  proof
    assume d: "serving (kb + length key) ?fb w' ?m \<and> answered w' fd1 (text_line ''STORED'')"
    then have "upload_run rl w' fd1 ks (drop (k - length line) (body @ crlf)) = ret w'" using upload_run_answered by blast
    then show ?thesis unfolding run using w'(2) d by blast
  next
    assume u: "serving kb fb w' m \<and> uploading w' fd1 key ?item (8 + length ?part)"
    then have "8 + length ?part < length ?item + 2" unfolding uploading_def by blast
    then have l: "length ?part = k - length line" by (simp add: crlf_def)
    have d: "drop (k - length line) (body @ crlf) = drop (8 + length ?part) (?item @ crlf)"
      unfolding l by (simp add: item_v1_def int32.enc_length)
    have a: "0 < length ?item" "length ?item \<le> 8 + max_value_size" "length ?item + 2 - (8 + length ?part) \<le> length ks"
      using assms(8) assms(14) by simp_all
    obtain w1 where "upload_run rl w' fd1 ks (drop (8 + length ?part) (?item @ crlf)) = ret w1" "same_others fd1 w' w1"
      "serving (kb + length key) (fb + 8 + length key + length ?item) w1 ?m" "answered w1 fd1 (text_line ''STORED'')"
      using upload_rest [OF conjunct1 [OF u] assms(3-7) a(1,2) io(3) conjunct2 [OF u] assms(13) a(3)] by blast
    moreover have "fb + 8 + length key + length ?item = ?fb" by simp
    ultimately show ?thesis unfolding run d using same_others_trans [OF w'(2)] by metis
  qed
qed

section \<open>Properties\<close>


text \<open>A new server with two connections.\<close>

definition two_clients :: "server_v1 \<Rightarrow> server_v1" where
  "two_clients w = accept_v1 (accept_v1 w 4) 5"

lemma start_serving:
  "\<exists>w. start_v1 rl mem None [] = ret w \<and> serving 0 4 (two_clients w) Map.empty \<and> idle_v1 (two_clients w) 4 \<and> idle_v1 (two_clients w) 5"
  using new_v1_told [of mem] open_new_v1 [of rl mem]
  by (auto simp: start_v1_def serving_def two_clients_def accept_v1_def set_poll_def idle_v1_def max_fd_open_def)


text \<open>
  C40. A client that goes away in the middle of an upload leaves its entry of \<open>dataTable\<close> as it is. The
  next client with the same descriptor gets no answer: what it sends is taken for the rest of
  the upload.
\<close>

theorem v1_abandoned_upload:
  assumes "uploading w cfd key item cur" and "cfd < max_fd_open" and "got \<noteq> []" and "cur + length got < length item + 2"
    and "length got \<le> in_buf_size"
  shows "\<exists>w1 w2. handle_event_v1 rl now w cfd (In_v1 (\<lambda>limit. [])) = ret w1 \<and> sv_poll w1 cfd = Closed \<and>
    handle_event_v1 rl now (accept_v1 w1 cfd) cfd (In_v1 (\<lambda>limit. take limit got)) = ret w2 \<and>
    sv_poll w2 cfd = Poll_in \<and> sv_db w2 = sv_db w \<and> pl_write_buf (sv_table w2 cfd) = None \<and>
    (\<exists>rb. pl_read_buf (sv_table w2 cfd) = Some rb \<and> take (cur + length got) rb = take cur (item @ crlf) @ got)"
proof -
  obtain rb where rb: "length rb = length item + 2" "take cur rb = take cur (item @ crlf)"
    and p: "sv_table w cfd = no_payload\<lparr>pl_read_buf := Some rb, pl_putkey := Some key,
      pl_need_read := int (length item) + 2, pl_read_cur := int cur\<rparr>" and cur: "cur < length item + 2"
    using assms(1) by (auto simp: uploading_def)
  let ?w1 = "set_poll w cfd Closed"
  let ?rb = "take cur rb @ got @ drop (cur + length got) rb"
  let ?w2 = "upd_payload (accept_v1 ?w1 cfd) cfd (\<lambda>p. p\<lparr>pl_read_buf := Some ?rb, pl_read_cur := int cur + int (length got)\<rparr>)"
  have t: "sv_table (accept_v1 ?w1 cfd) cfd = sv_table w cfd" by (simp add: accept_v1_def set_poll_def)
  have "length got \<le> recv_limit (sv_table w cfd)"
    using assms(4,5) by (auto simp: p no_payload_def recv_limit_def Let_def)
  then have g: "take (recv_limit (sv_table w cfd)) got = got" by simp
  have "mem_put rb (int cur) got = ret ?rb" using rb(1) assms(4) by (simp add: mem_put_def)
  then have "do_upload_v1 rl (accept_v1 ?w1 cfd) cfd got = ret ?w2"
    using assms(4) by (simp add: do_upload_v1_def Let_def t p upd_payload_def)
  then have "handle_event_v1 rl now (accept_v1 ?w1 cfd) cfd (In_v1 (\<lambda>limit. take limit got)) = ret ?w2"
    using assms(2,3) by (simp add: t g handle_in_v1_def) (simp add: p no_payload_def)
  moreover have "take (cur + length got) ?rb = take cur (item @ crlf) @ got"
    unfolding rb(2) [symmetric] using rb(1) cur by simp
  ultimately show ?thesis
    using assms(2) by (intro exI [of _ ?w1] exI [of _ ?w2])
      (simp add: handle_in_v1_def set_poll_def accept_v1_def upd_payload_def p no_payload_def)
qed

text \<open>Nine bytes of a value of 28 have come.\<close>

definition cut_upload :: server_v1 where
  "cut_upload =
     \<lparr>sv_db = new_v1 (\<lambda>_. zero_v1), sv_big = replicate max_value_size 0,
      sv_table = (\<lambda>_. no_payload)(4 := no_payload\<lparr>pl_read_buf := Some (item_v1 0 0 (replicate 20 (CC 1)) @ crlf),
        pl_putkey := Some [CC 97], pl_need_read := 30, pl_read_cur := 9\<rparr>),
      sv_poll = (\<lambda>_. Poll_in)\<rparr>"

theorem v1_abandoned_upload_witness:
  "\<exists>w1 w2 rb. handle_event_v1 (\<lambda>_. True) 0 cut_upload 4 (In_v1 (\<lambda>limit. [])) = ret w1 \<and>
    handle_event_v1 (\<lambda>_. True) 0 (accept_v1 w1 4) 4 (In_v1 (\<lambda>limit. take limit (get_line_v1 [CC 98]))) = ret w2 \<and>
    pl_write_buf (sv_table w2 4) = None \<and> pl_read_buf (sv_table w2 4) = Some rb \<and>
    drop 9 (take 16 rb) = get_line_v1 [CC 98]"
proof -
  let ?item = "item_v1 0 0 (replicate 20 (CC 1))"
  have up: "uploading cut_upload 4 [CC 97] ?item 9"
    unfolding uploading_def
    by (intro conjI exI [of _ "?item @ crlf"]) (simp_all add: cut_upload_def crlf_def)
  have l: "length (get_line_v1 [CC 98]) = 7" by (simp add: get_line_v1_def cs_def crlf_def)
  have t: "length (take 9 (?item @ crlf)) = 9" by simp
  have fd: "4 < max_fd_open" by (simp add: max_fd_open_def)
  have a: "get_line_v1 [CC 98] \<noteq> []" "9 + length (get_line_v1 [CC 98]) < length ?item + 2"
    "length (get_line_v1 [CC 98]) \<le> in_buf_size"
    using l by (auto simp: in_buf_size_def)
  obtain w1 w2 rb where r: "handle_event_v1 (\<lambda>_. True) 0 cut_upload 4 (In_v1 (\<lambda>limit. [])) = ret w1"
    "handle_event_v1 (\<lambda>_. True) 0 (accept_v1 w1 4) 4 (In_v1 (\<lambda>limit. take limit (get_line_v1 [CC 98]))) = ret w2"
    "pl_write_buf (sv_table w2 4) = None" "pl_read_buf (sv_table w2 4) = Some rb"
    "take (9 + length (get_line_v1 [CC 98])) rb = take 9 (?item @ crlf) @ get_line_v1 [CC 98]"
    using v1_abandoned_upload [OF up fd a, of "\<lambda>_. True" 0] by blast
  have "drop 9 (take 16 rb) = get_line_v1 [CC 98]" using r(5) t unfolding l by simp
  then show ?thesis using r(1-4) by blast
qed

end
