(* ===== verification/Spec2Isabelle.thy ===== *)
theory Spec2Isabelle
  imports Process V1_Wire
begin

text \<open>
  A verification library for tstdb, a memcached-like server whose index is a ternary search tree.
  The repository holds two generations of it, \<open>src/v2\<close> and the older \<open>src/v1\<close>; the theories
  model both.

  \<^bold>\<open>The program, version 2.\<close>
  \<open>v2/src/tst.c\<close> is the index: an array of tree nodes that maps a key to a 64-bit offset.
  \<open>v2/src/buffer_pool.c\<close> gives out buffers of fixed size by number. \<open>v2/src/tstserver.c\<close> starts
  the workers, keeps a queue of input and one of output buffers per connection, cuts requests out
  of the input and hands them to the handlers of \<open>v2/src/cmd_process.c\<close>, which read and write
  index, data file and binary log and put their answers into the output queue. At a start the
  index comes from the dumped index file and the log is replayed on it; a shutdown dumps the
  index and removes the log.

  \<^bold>\<open>The theories, from the bottom up.\<close>
  \<^item> Prelude: integer types, signed characters, C strings, and \<open>'a run\<close>, the result of a C call
    that may return, stop the process, run into undefined behaviour or never end. A theorem that
    says \<open>f x = ret y\<close> says as well that the call ends and stays inside its arrays.
  \<^item> Tst_Tree, Tst_Heap, Tst_Ops, Tst_Delete, Index: the index. Tst_Tree has ternary trees as a
    datatype with insertion, deletion and the order of keys; Tst_Heap has the node array of
    \<open>tst.h\<close> with its allocator and what it means that the array holds a tree; Tst_Ops translates
    \<open>insert\<close>, \<open>search\<close>, \<open>tst_put\<close>, \<open>tst_get\<close>, Tst_Delete translates \<open>tst_delete\<close> and \<open>remove_node\<close>.
    Index has the contract of a map as a locale, met by the node array; its properties are proved
    from it.
  \<^item> Tst_Stale: a run on which a stale parent link makes the deletion damage the tree.
  \<^item> Tst_Scan: \<open>tst_prefix\<close>, \<open>tst_less\<close>, \<open>tst_greater\<close> and their depth-first walks, with the
    result array as a list that overflows.
  \<^item> Buffer_Pool: \<open>buffer_pool.c\<close>, and who owns which buffer.
  \<^item> Text: \<open>sscanf\<close>, \<open>atoi\<close> and the printing of numbers, as far as the code uses them, and that
    what is printed is read back.
  \<^item> Io_Buf, Io_Input, Io_Output, Framing: the buffers of connections. Io_Buf translates the
    functions on \<open>struct io_data_t\<close>; Io_Input shows what \<open>append_recv_data\<close> and \<open>buf_copy\<close> do to
    the bytes of the queue, Io_Output what \<open>append_send_data\<close> and \<open>handle_output\<close> do; Framing shows
    that requests are cut at the right places however the bytes come in packets.
  \<^item> Store: integers in files (a codec locale), records, log entries, and the map from keys to
    items that index and data file describe together.
  \<^item> Cmd_Process, Cmd_Ok: the command handlers and what they answer and store.
  \<^item> Persist: \<open>init_data\<close>, \<open>replay_binlog\<close>, \<open>dump_tst\<close>; a life of the server as an inductive relation
    over starts, requests and shutdowns, and what a crash leaves.
  \<^item> Server, Wire: \<open>handle_input\<close>, \<open>handle_cmd\<close>, the dispatch of requests and the events of a
    worker; Wire has a specification of the protocol as a function on a map of items, and shows
    that the bytes a worker receives and sends on a connection are those of the specification.
  \<^item> Workers, Polling, Process: the threads. Workers has a worker with all its connections and
    \<open>handle_core\<close>, and shows that the packets of the clients may interleave in any way: the requests
    are served in the order in which they are complete. Polling shows that a socket is watched for
    output while there is something to send. Process has \<open>main\<close> with the options, the file names, the
    accept loop, signals and the shutdown, and shows what holds from one run to the next.
  \<^item> V1_Index, V1_Store, V1_Ok, V1_Life: \<open>v1/tst.c\<close>. V1_Index has the tree and shows that it goes
    through the same nodes as that of version 2, so the lemmas of the one give those of the other;
    V1_Store has the data file and the hint file, V1_Ok the contracts of \<open>tst_put\<close> and \<open>tst_get\<close>,
    V1_Life whole sessions.
  \<^item> V1_Server, V1_Wire: \<open>v1/tstserver.c\<close>. V1_Server has the entries of \<open>dataTable\<close>, the handlers of
    requests and of the events of the one thread (\<open>handle_func\<close>), V1_Wire what a client sees of an upload
    in packets and of a later \<open>get\<close>.

  \<^bold>\<open>Correspondence.\<close> A C function is a definition of the same name where Isabelle allows it, and
  its loops are recursive functions with the name of the function and the suffix \<open>_loop\<close>. A struct
  is a record whose fields have a short prefix (\<open>nd_\<close>, \<open>db_\<close>, \<open>bf_\<close>, \<open>bp_\<close>, \<open>io_\<close>, \<open>cn_\<close>, \<open>st_\<close>,
  \<open>wk_\<close>, \<open>pr_\<close>, \<open>n1_\<close>, \<open>v1_\<close>, \<open>sv_\<close>, \<open>pl_\<close>).
  Pointers into an array are 32-bit indices, buffers are their number in the pool. Loops and
  recursions on linked structures, which need not end, are partial functions whose value is
  \<open>None\<close> when they do not; nowhere is fuel used.

  \<^bold>\<open>What the lemmas show.\<close> Each component has an invariant (\<open>tst_inv\<close> and \<open>tst_sound\<close> of the
  index, \<open>pool_inv\<close> of the pool, \<open>conn_inv\<close> and \<open>framed\<close> of a connection, \<open>worker_inv\<close> of a worker,
  \<open>store_inv\<close> and \<open>server_life\<close> of the files, \<open>process_wf\<close>, \<open>inv_v1\<close>), lemmas that every operation
  keeps it and ends, and what the operation does to the abstract value (a map, a list of bytes, a list of
  free buffers). The properties C1, C2, ... are stated after the components they are about. Where
  the code does not do what it means to do, a property shows that on an input.

  \<^bold>\<open>Assumptions.\<close> \<open>char\<close> is signed, \<open>int\<close> has 32 bits, files are little-endian. \<open>malloc\<close> returns
  arbitrary memory and does not fail; \<open>realloc\<close> may fail, \<open>rl\<close> says for which sizes. Writing to
  files does not fail and what is written can be read at once. The locks around the handlers make
  a handler one step, and between workers an event is taken as one step; the clock is read once per
  event. What \<open>getopt\<close>, \<open>select\<close>, \<open>accept\<close>, \<open>epoll_wait\<close>, \<open>recv\<close> and \<open>send\<close> give are arguments of the
  model. \<open>memcpy\<close> between overlapping parts of a buffer moves the bytes. A read of a record
  that is cut by the end of the file is undefined, as it leaves local variables as they were. The
  index file is kept as the structures whose bytes it holds. The bounds in the theorems are those
  of the code: fewer than \<open>2 ^ 31\<close> nodes keep the capacity from wrapping around, \<open>2 ^ 31\<close> bytes of log
  and \<open>2 ^ 63\<close> bytes of data keep offsets and positions exact.

  \<^bold>\<open>Not modelled.\<close> \<open>usage\<close>, \<open>setnonblocking\<close>, \<open>do_bind_and_listen\<close> and \<open>tstserver_log\<close> print or call the
  system and keep no data of the server; the same holds of \<open>main\<close> of version 1, which reads its
  options and makes the socket. \<open>free_tst_db\<close> gives memory back. \<open>test_tst.c\<close>, \<open>test.c\<close> and
  \<open>bench.c\<close> call the index and print.
\<close>

end
